(* ===== verification/Prelude.thy ===== *)
theory Prelude
  imports Main "HOL-Library.Word" "HOL-Library.Char_ord" "HOL-Library.List_Lexorder"
    "HOL-Library.Sublist" "HOL-Library.Multiset"
begin

text \<open>
  Shared vocabulary of the development: the machine types of the C++ sources as words, C and C++
  library routines the sources call (\<open>isspace\<close>, \<open>strtol\<close>, \<open>stol\<close>, \<open>stoi\<close>, \<open>to_string\<close>,
  \<open>strncpy\<close>, little-endian \<open>memcpy\<close> of a 32-bit value), the error sum used by every fallible
  routine, and generic lemmas.  A C++ \<open>char\<close> is an Isabelle \<^typ>\<open>char\<close> (one byte), a
  \<open>std::string\<close> or \<open>char*\<close> buffer is a \<^typ>\<open>string\<close>.
\<close>

named_theorems roundtrip_simps \<open>encode/decode laws of the wire formats\<close>
named_theorems store_simps \<open>read-after-write laws of the stores\<close>

type_synonym byte = "8 word"
type_synonym DWORD = "32 word"

subsection \<open>Results of fallible code\<close>

text \<open>
  \<open>Inl\<close> carries the failure (an exception of the source, or an access the C++ standard leaves
  undefined), \<open>Inr\<close> the value.
\<close>

definition ebind :: "'e + 'a \<Rightarrow> ('a \<Rightarrow> 'e + 'b) \<Rightarrow> 'e + 'b" where
  "ebind r f = (case r of Inl e \<Rightarrow> Inl e | Inr x \<Rightarrow> f x)"

lemma ebind_simps [simp]:
  "ebind (Inl e) f = Inl e"
  "ebind (Inr x) f = f x"
  by (simp_all add: ebind_def)

lemma ebind_Inr_iff: "ebind r f = Inr y \<longleftrightarrow> (\<exists>x. r = Inr x \<and> f x = Inr y)"
  by (cases r) auto

lemma ebind_InrE [elim!]:
  assumes "ebind r f = Inr y"
  obtains x where "r = Inr x" "f x = Inr y"
  using assms by (auto simp: ebind_Inr_iff)

text \<open>
  Two collections of introduction rules that walk down a chain of \<open>ebind\<close>s: \<open>post_intros\<close> for a
  statement about every successful result, \<open>neq_intros\<close> for the absence of one error.
\<close>

lemma ebind_post:
  "(\<And>y. x = Inr y \<Longrightarrow> \<forall>z. f y = Inr z \<longrightarrow> Q z) \<Longrightarrow> \<forall>z. ebind x f = Inr z \<longrightarrow> Q z"
  by (cases x) auto

lemma ebind_pair_post:
  "(\<And>a b. x = Inr (a, b) \<Longrightarrow> \<forall>z. f a b = Inr z \<longrightarrow> Q z) \<Longrightarrow>
   \<forall>z. ebind x (\<lambda>(a, b). f a b) = Inr z \<longrightarrow> Q z"
  by (cases x) auto

lemma if_post:
  "(b \<Longrightarrow> \<forall>z. x = Inr z \<longrightarrow> Q z) \<Longrightarrow> (\<not> b \<Longrightarrow> \<forall>z. y = Inr z \<longrightarrow> Q z) \<Longrightarrow>
   \<forall>z. (if b then x else y) = Inr z \<longrightarrow> Q z"
  by auto

lemma prod_post:
  "(\<And>a b. p = (a, b) \<Longrightarrow> \<forall>z. f a b = Inr z \<longrightarrow> Q z) \<Longrightarrow> \<forall>z. case_prod f p = Inr z \<longrightarrow> Q z"
  by (cases p) auto

lemma option_post:
  "(x = None \<Longrightarrow> \<forall>z. n = Inr z \<longrightarrow> Q z) \<Longrightarrow> (\<And>y. x = Some y \<Longrightarrow> \<forall>z. f y = Inr z \<longrightarrow> Q z) \<Longrightarrow>
   \<forall>z. (case x of None \<Rightarrow> n | Some y \<Rightarrow> f y) = Inr z \<longrightarrow> Q z"
  by (cases x) auto

lemmas post_intros = ebind_pair_post ebind_post if_post prod_post option_post

lemma ebind_neq: "x \<noteq> Inl e \<Longrightarrow> (\<And>y. x = Inr y \<Longrightarrow> f y \<noteq> Inl e) \<Longrightarrow> ebind x f \<noteq> Inl e"
  by (cases x) auto

lemma ebind_pair_neq:
  "x \<noteq> Inl e \<Longrightarrow> (\<And>a b. x = Inr (a, b) \<Longrightarrow> f a b \<noteq> Inl e) \<Longrightarrow> ebind x (\<lambda>(a, b). f a b) \<noteq> Inl e"
  by (cases x) auto

lemma if_neq: "(b \<Longrightarrow> x \<noteq> e) \<Longrightarrow> (\<not> b \<Longrightarrow> y \<noteq> e) \<Longrightarrow> (if b then x else y) \<noteq> e"
  by auto

lemma prod_neq: "(\<And>a b. p = (a, b) \<Longrightarrow> f a b \<noteq> e) \<Longrightarrow> case_prod f p \<noteq> e"
  by (cases p) auto

lemma option_neq:
  "(x = None \<Longrightarrow> n \<noteq> e) \<Longrightarrow> (\<And>y. x = Some y \<Longrightarrow> f y \<noteq> e) \<Longrightarrow>
   (case x of None \<Rightarrow> n | Some y \<Rightarrow> f y) \<noteq> e"
  by (cases x) auto

lemmas neq_intros = ebind_pair_neq ebind_neq if_neq prod_neq option_neq

text \<open>A fallible step over a list, left to right.\<close>

fun emap :: "('a \<Rightarrow> 'e + 'b) \<Rightarrow> 'a list \<Rightarrow> 'e + 'b list" where
  "emap f [] = Inr []"
| "emap f (x # xs) = ebind (f x) (\<lambda>y. ebind (emap f xs) (\<lambda>ys. Inr (y # ys)))"

lemma emap_Inr: "(\<And>x. x \<in> set xs \<Longrightarrow> f x = Inr (g x)) \<Longrightarrow> emap f xs = Inr (map g xs)"
  by (induction xs) auto

lemma emap_Inr_length: "emap f xs = Inr ys \<Longrightarrow> length ys = length xs"
  by (induction xs arbitrary: ys) auto

fun efold :: "('a \<Rightarrow> 's \<Rightarrow> 'e + 's) \<Rightarrow> 'a list \<Rightarrow> 's \<Rightarrow> 'e + 's" where
  "efold f [] s = Inr s"
| "efold f (x # xs) s = ebind (f x s) (efold f xs)"

lemma efold_append: "efold f (xs @ ys) s = ebind (efold f xs s) (efold f ys)"
proof (induction xs arbitrary: s)
  case (Cons x xs)
  then show ?case by (cases "f x s") simp_all
qed simp

lemma efold_invariant:
  assumes "\<And>x s s'. x \<in> set xs \<Longrightarrow> I s \<Longrightarrow> f x s = Inr s' \<Longrightarrow> I s'"
  shows "I s \<Longrightarrow> efold f xs s = Inr s' \<Longrightarrow> I s'"
  using assms
proof (induction xs arbitrary: s)
  case (Cons x xs)
  from Cons.prems(2) obtain t where "f x s = Inr t" "efold f xs t = Inr s'" by auto
  with Cons show ?case by (metis list.set_intros)
qed simp

lemma ebind_cong [fundef_cong]:
  "r = r' \<Longrightarrow> (\<And>x. r' = Inr x \<Longrightarrow> f x = g x) \<Longrightarrow> ebind r f = ebind r' g"
  by (cases r') (auto simp: ebind_def)

subsection \<open>Characters and C strings\<close>

abbreviation NUL :: char where
  "NUL \<equiv> CHR 0x00"

definition isspace :: "char \<Rightarrow> bool" where
  "isspace c \<longleftrightarrow> c \<in> {CHR '' '', CHR 0x09, CHR 0x0A, CHR 0x0B, CHR 0x0C, CHR 0x0D}"

definition is_digit :: "char \<Rightarrow> bool" where
  "is_digit c \<longleftrightarrow> CHR ''0'' \<le> c \<and> c \<le> CHR ''9''"

text \<open>The C string that starts at a buffer: everything before the first NUL.\<close>

definition c_str :: "string \<Rightarrow> string" where
  "c_str s = takeWhile (\<lambda>c. c \<noteq> NUL) s"

text \<open>\<open>strncpy(dst, src, n)\<close>: stops at a NUL of the source and pads with NULs up to \<open>n\<close>.\<close>

definition strncpy :: "string \<Rightarrow> nat \<Rightarrow> string" where
  "strncpy src n = (let t = c_str (take n src) in t @ replicate (n - length t) NUL)"

lemma c_str_id [simp]: "NUL \<notin> set s \<Longrightarrow> c_str s = s"
  by (simp add: c_str_def takeWhile_eq_all_conv) metis

lemma c_str_append_NUL [simp]: "NUL \<notin> set s \<Longrightarrow> c_str (s @ NUL # t) = s"
  by (induction s) (auto simp: c_str_def)

lemma length_strncpy [simp]: "length (strncpy s n) = n"
proof -
  have "length (c_str (take n s)) \<le> n"
    by (metis c_str_def length_takeWhile_le length_take min.bounded_iff)
  then show ?thesis by (simp add: strncpy_def Let_def)
qed

lemma strncpy_id [simp]: "NUL \<notin> set s \<Longrightarrow> strncpy s (length s) = s"
  by (simp add: strncpy_def)

subsection \<open>Number parsing and printing\<close>

text \<open>
  \<open>digit_val\<close> is the value of a digit in a base up to 36, as \<open>strtol\<close> reads it.
\<close>

definition digit_val :: "char \<Rightarrow> nat" where
  "digit_val c =
     (let n = of_char c :: nat in
      if 48 \<le> n \<and> n \<le> 57 then n - 48
      else if 97 \<le> n \<and> n \<le> 122 then n - 87
      else if 65 \<le> n \<and> n \<le> 90 then n - 55
      else 99)"

fun digits_val :: "nat \<Rightarrow> nat \<Rightarrow> string \<Rightarrow> nat" where
  "digits_val b acc [] = acc"
| "digits_val b acc (c # cs) = digits_val b (acc * b + digit_val c) cs"

definition LONG_MAX :: int where
  "LONG_MAX = 2 ^ 63 - 1"

definition LONG_MIN :: int where
  "LONG_MIN = - (2 ^ 63)"

definition in_long :: "int \<Rightarrow> bool" where
  "in_long i \<longleftrightarrow> LONG_MIN \<le> i \<and> i \<le> LONG_MAX"

definition in_int :: "int \<Rightarrow> bool" where
  "in_int i \<longleftrightarrow> - (2 ^ 31) \<le> i \<and> i \<le> 2 ^ 31 - 1"

text \<open>The conversion of a wider integer to the 32-bit \<open>int\<close>: modulo \<open>2 ^ 32\<close>.\<close>

definition c_int :: "int \<Rightarrow> int" where
  "c_int i = sint (word_of_int i :: 32 word)"

lemma c_int_id [simp]: "in_int i \<Longrightarrow> c_int i = i"
  by (simp add: c_int_def sint_sbintrunc' signed_take_bit_int_eq_self_iff in_int_def)

lemma c_int_add: "c_int (c_int i + j) = c_int (i + j)"
  by (simp add: c_int_def flip: wi_hom_add)

lemma c_int_upper: "2 ^ 31 \<le> i \<Longrightarrow> i < 2 ^ 32 \<Longrightarrow> c_int i < 0"
proof -
  assume i: "2 ^ 31 \<le> i" "i < 2 ^ 32"
  then have "i - 2 ^ 32 = c_int (i - 2 ^ 32)" by (simp add: in_int_def)
  also have "word_of_int (i - 2 ^ 32) = (word_of_int i :: 32 word)"
    by (simp add: word_of_int_eq_iff take_bit_eq_mod)
  then have "c_int (i - 2 ^ 32) = c_int i" by (simp only: c_int_def)
  finally show ?thesis using i by simp
qed

lemma c_int_range: "in_int (c_int i)"
  using sint_ge [of "word_of_int i :: 32 word"] sint_lt [of "word_of_int i :: 32 word"]
  by (simp add: c_int_def in_int_def)

text \<open>
  The subject sequence of \<open>strtol\<close>: leading white space, one optional sign, in base 16 an optional
  \<open>0x\<close>, then the longest run of digits.  \<open>strtol_parts\<close> returns the sign and the digits; no
  digits means no conversion.
\<close>

definition strtol_parts :: "nat \<Rightarrow> string \<Rightarrow> bool \<times> string" where
  "strtol_parts b s =
     (let s1 = dropWhile isspace (c_str s);
          neg = (s1 \<noteq> [] \<and> hd s1 = CHR ''-'');
          s2 = (if s1 \<noteq> [] \<and> hd s1 \<in> {CHR ''-'', CHR ''+''} then tl s1 else s1);
          s3 = (if b = 16 \<and> take 2 s2 \<in> {''0x'', ''0X''} \<and> drop 2 s2 \<noteq> [] \<and>
                   digit_val (hd (drop 2 s2)) < 16 then drop 2 s2 else s2)
      in (neg, takeWhile (\<lambda>c. digit_val c < b) s3))"

definition strtol_raw :: "nat \<Rightarrow> string \<Rightarrow> int option" where
  "strtol_raw b s =
     (case strtol_parts b s of (neg, ds) \<Rightarrow>
        if ds = [] then None
        else Some (if neg then - int (digits_val b 0 ds) else int (digits_val b 0 ds)))"

text \<open>\<open>strtol\<close> returns 0 without a conversion and saturates at the range of \<open>long\<close>.\<close>

definition strtol :: "nat \<Rightarrow> string \<Rightarrow> int" where
  "strtol b s = (case strtol_raw b s of None \<Rightarrow> 0 | Some i \<Rightarrow> max LONG_MIN (min LONG_MAX i))"

datatype num_error = InvalidArgument | OutOfRange

definition stol :: "string \<Rightarrow> num_error + int" where
  "stol s = (case strtol_raw 10 s of None \<Rightarrow> Inl InvalidArgument
             | Some i \<Rightarrow> if in_long i then Inr i else Inl OutOfRange)"

definition stoi :: "string \<Rightarrow> num_error + int" where
  "stoi s = (case strtol_raw 10 s of None \<Rightarrow> Inl InvalidArgument
             | Some i \<Rightarrow> if in_int i then Inr i else Inl OutOfRange)"

definition digit_char :: "nat \<Rightarrow> char" where
  "digit_char d = (if d < 10 then char_of (48 + d) else char_of (87 + d))"

fun nat_to_string :: "nat \<Rightarrow> string" where
  "nat_to_string n =
     (if n < 10 then [digit_char n] else nat_to_string (n div 10) @ [digit_char (n mod 10)])"

declare nat_to_string.simps [simp del]

definition to_string :: "int \<Rightarrow> string" where
  "to_string i = (if i < 0 then CHR ''-'' # nat_to_string (nat (- i)) else nat_to_string (nat i))"

lemma digit_val_digit_char [simp]: "d < 16 \<Longrightarrow> digit_val (digit_char d) = d"
  by (auto simp: digit_val_def digit_char_def Let_def)

lemma is_digit_iff: "is_digit c \<longleftrightarrow> digit_val c < 10"
  by (auto simp: is_digit_def digit_val_def Let_def less_eq_char_def)

lemma is_digit_digit_char [simp]: "d < 10 \<Longrightarrow> is_digit (digit_char d)"
  by (simp add: is_digit_iff)

lemma is_digit_not [simp]:
  "\<not> is_digit NUL" "\<not> is_digit CHR ''-''" "\<not> is_digit CHR ''.''" "\<not> is_digit CHR '' ''"
  "\<not> is_digit CHR '',''" "\<not> is_digit CHR '']''" "\<not> is_digit CHR ''}''" "\<not> is_digit CHR 0x0A"
  by (simp_all add: is_digit_def less_eq_char_def)

lemma is_digit_not_isspace [simp]: "is_digit c \<Longrightarrow> \<not> isspace c"
  by (auto simp: is_digit_def isspace_def less_eq_char_def)

lemma isspace_NUL [simp]: "\<not> isspace NUL"
  by (simp add: isspace_def)

lemma nat_to_string_digits: "c \<in> set (nat_to_string n) \<Longrightarrow> is_digit c"
  by (induction n rule: nat_to_string.induct)
    (subst (asm) nat_to_string.simps, auto split: if_splits)

lemma nat_to_string_nonempty [simp]: "nat_to_string n \<noteq> []"
  by (subst nat_to_string.simps) simp

lemma digits_val_append: "digits_val b acc (xs @ ys) = digits_val b (digits_val b acc xs) ys"
  by (induction xs arbitrary: acc) auto

lemma digits_val_nat_to_string [roundtrip_simps]: "digits_val 10 0 (nat_to_string n) = n"
proof (induction n rule: nat_to_string.induct)
  case (1 n)
  show ?case
  proof (cases "n < 10")
    case True
    then show ?thesis by (subst nat_to_string.simps) simp
  next
    case False
    with 1 show ?thesis
      by (subst nat_to_string.simps) (simp add: digits_val_append mult.commute[of _ 10])
  qed
qed

lemma to_string_chars: "c \<in> set (to_string i) \<Longrightarrow> is_digit c \<or> c = CHR ''-''"
  by (auto simp: to_string_def dest: nat_to_string_digits split: if_splits)

lemma hd_in_set_nat_to_string: "is_digit (hd (nat_to_string n))"
  by (meson hd_in_set nat_to_string_digits nat_to_string_nonempty)

lemma takeWhile_digits [simp]:
  "(\<And>c. c \<in> set xs \<Longrightarrow> is_digit c) \<Longrightarrow> takeWhile (\<lambda>c. digit_val c < 10) xs = xs"
  by (simp add: takeWhile_eq_all_conv flip: is_digit_iff)

lemma NUL_notin_nat_to_string [simp]: "NUL \<notin> set (nat_to_string n)"
  using nat_to_string_digits is_digit_not(1) by blast

lemma dropWhile_nat_to_string [simp]: "dropWhile isspace (nat_to_string n) = nat_to_string n"
  by (metis dropWhile_eq_self_iff hd_in_set_nat_to_string is_digit_not_isspace)

lemma strtol_raw_to_string [roundtrip_simps]: "strtol_raw 10 (to_string i) = Some i"
proof (cases "i < 0")
  case True
  then have "strtol_parts 10 (to_string i) = (True, nat_to_string (nat (- i)))"
    by (simp add: strtol_parts_def to_string_def Let_def nat_to_string_digits isspace_def)
  with True show ?thesis by (simp add: strtol_raw_def roundtrip_simps)
next
  case False
  have "hd (nat_to_string (nat i)) \<noteq> CHR ''-''" "hd (nat_to_string (nat i)) \<noteq> CHR ''+''"
    using hd_in_set_nat_to_string [of "nat i"] by (auto simp: is_digit_def less_eq_char_def)
  then have "strtol_parts 10 (to_string i) = (False, nat_to_string (nat i))"
    using False by (simp add: strtol_parts_def to_string_def Let_def nat_to_string_digits)
  with False show ?thesis by (simp add: strtol_raw_def roundtrip_simps)
qed

lemma stol_to_string [roundtrip_simps]: "in_long i \<Longrightarrow> stol (to_string i) = Inr i"
  by (simp add: stol_def roundtrip_simps)

lemma stoi_to_string [roundtrip_simps]: "in_int i \<Longrightarrow> stoi (to_string i) = Inr i"
  by (simp add: stoi_def roundtrip_simps)

lemma strtol_to_string [roundtrip_simps]: "in_long i \<Longrightarrow> strtol 10 (to_string i) = i"
  by (simp add: strtol_def roundtrip_simps in_long_def)

lemma to_string_inj: "to_string i = to_string j \<longleftrightarrow> i = j"
  by (metis option.inject strtol_raw_to_string)

subsection \<open>Encodings\<close>

text \<open>
  The contract of an encoder and its decoder: decoding what was encoded returns the value.  Two
  consequences the components use: the encoding loses nothing, and a decoder reads the same value
  from equal texts.
\<close>

locale codec =
  fixes enc :: "'a \<Rightarrow> 'b" and dec :: "'b \<Rightarrow> 'e + 'a" and ok :: "'a \<Rightarrow> bool"
  assumes dec_enc: "ok x \<Longrightarrow> dec (enc x) = Inr x"
begin

lemma enc_inj: "ok x \<Longrightarrow> ok y \<Longrightarrow> enc x = enc y \<longleftrightarrow> x = y"
  using dec_enc by (metis sum.inject(2))

lemma map_enc_inj: "list_all ok xs \<Longrightarrow> list_all ok ys \<Longrightarrow> map enc xs = map enc ys \<longleftrightarrow> xs = ys"
proof (induction xs arbitrary: ys)
  case (Cons x xs)
  then show ?case by (cases ys) (simp_all add: enc_inj)
qed fastforce

end

subsection \<open>Tables of lists\<close>

text \<open>
  A \<open>std::unordered_map<K, vector<V>>\<close> is an association list; \<open>tbl_push\<close> is \<open>t[k].push_back(v)\<close>, which
  creates a missing entry, and \<open>tbl_get\<close> the list of a key.  \<open>multimap\<close> is the contract the clients of
  such a table use.
\<close>

fun tbl_push :: "'k \<Rightarrow> 'v \<Rightarrow> ('k \<times> 'v list) list \<Rightarrow> ('k \<times> 'v list) list" where
  "tbl_push k v [] = [(k, [v])]"
| "tbl_push k v ((k', vs) # t) =
     (if k = k' then (k', vs @ [v]) # t else (k', vs) # tbl_push k v t)"

definition tbl_get :: "'k \<Rightarrow> ('k \<times> 'v list) list \<Rightarrow> 'v list" where
  "tbl_get k t = (case map_of t k of None \<Rightarrow> [] | Some vs \<Rightarrow> vs)"

locale multimap =
  fixes empty :: "'t" and push :: "'k \<Rightarrow> 'v \<Rightarrow> 't \<Rightarrow> 't" and get :: "'k \<Rightarrow> 't \<Rightarrow> 'v list"
  assumes get_empty: "get k empty = []"
    and get_push: "get k (push k' v t) = (if k = k' then get k t @ [v] else get k t)"
begin

lemma get_fold_push:
  "get k (fold (\<lambda>(k', v). push k' v) kvs t) = get k t @ map snd (filter (\<lambda>(k', v). k' = k) kvs)"
  by (induction kvs arbitrary: t) (auto simp: get_push)

lemma get_build:
  "get k (fold (\<lambda>(k', v). push k' v) kvs empty) = map snd (filter (\<lambda>(k', v). k' = k) kvs)"
  by (simp add: get_fold_push get_empty)

end

interpretation tbl: multimap "[]" tbl_push tbl_get
proof
  show "tbl_get k [] = []" for k :: 'a by (simp add: tbl_get_def)
  show "tbl_get k (tbl_push k' v t) = (if k = k' then tbl_get k t @ [v] else tbl_get k t)"
    for k k' :: 'a and v :: 'b and t
  proof (induction k' v t rule: tbl_push.induct)
    case (2 k' v k'' vs t)
    then show ?case by (cases "k = k''") (auto simp: tbl_get_def)
  qed (simp add: tbl_get_def)
qed

lemma keys_tbl_push: "fst ` set (tbl_push k v t) = insert k (fst ` set t)"
  by (induction k v t rule: tbl_push.induct) (simp_all add: insert_commute)

lemma distinct_tbl_push: "distinct (map fst t) \<Longrightarrow> distinct (map fst (tbl_push k v t))"
proof (induction k v t rule: tbl_push.induct)
  case (2 k v k' vs t)
  then show ?case using keys_tbl_push [of k v t] by simp
qed simp

lemma tbl_get_Cons [simp]:
  "tbl_get k ((k', vs) # t) = (if k = k' then vs else tbl_get k t)"
  by (auto simp: tbl_get_def)

lemma tbl_get_notin: "k \<notin> fst ` set t \<Longrightarrow> tbl_get k t = []"
  using map_of_eq_None_iff [of t k] by (simp add: tbl_get_def)

text \<open>The order in which the C++ library walks an unordered container is not specified; a
  permutation of the entries leaves the lists of the table unchanged.\<close>

lemma tbl_get_perm:
  assumes "mset t = mset t'" "distinct (map fst t)"
  shows "tbl_get k t = tbl_get k t'"
proof -
  have "set t = set t'" using assms(1) by (rule mset_eq_setD)
  moreover have "distinct (map fst t')" using assms by (metis mset_eq_imp_distinct_iff mset_map)
  ultimately have "map_of t = map_of t'" using assms(2) map_of_inject_set by blast
  then show ?thesis by (simp add: tbl_get_def)
qed

end
