(* ===== verification/Json.thy ===== *)
theory Json
  imports Prelude
begin

text \<open>
  The JSON library of the executors, the manager and the client
  (\<open>executor/include/json.hpp\<close>, the same file as the other \<open>json.hpp\<close> copies): the value type,
  its accessors, \<open>dump\<close> and the recursive-descent parser behind \<open>JSON::Load\<close>.

  A \<open>std::map<string,JSON>\<close> is an association list kept strictly sorted by key, a
  \<open>std::deque<JSON>\<close> a list.  A \<open>double\<close> is its 64-bit pattern; the conversions between doubles and
  text are the fields of \<open>fp_lib\<close>, an argument of the routines that need them.
  Reading \<open>str[offset]\<close> at \<open>offset = size\<close> gives NUL, beyond it the access is undefined: the model
  returns \<open>Inl ReadPastEnd\<close>.  The parser is written with fuel; \<open>JSON_Load\<close> supplies an amount that
  \<open>parse_next_no_FuelOut\<close> shows to be enough for every input.
\<close>

subsection \<open>Values\<close>

datatype JSON =
    Null
  | Object "(string \<times> JSON) list"
  | Array "JSON list"
  | String string
  | Floating "64 word"
  | Integral int
  | Boolean bool

datatype json_error = ReadPastEnd | StoInvalid | StoRange | FuelOut

record fp_lib =
  fp_of_decimal :: "string \<Rightarrow> int \<Rightarrow> (num_error + 64 word)" \<comment> \<open>\<open>std::stod(val) * std::pow(10, exp)\<close>\<close>
  fp_of_long :: "int \<Rightarrow> int \<Rightarrow> 64 word"                  \<comment> \<open>\<open>long * std::pow(10, exp)\<close>\<close>
  fp_to_string :: "64 word \<Rightarrow> string"                    \<comment> \<open>\<open>std::to_string(double)\<close>\<close>

text \<open>An instance of the conversions with no floating-point support, for examples.\<close>

definition fp_example :: fp_lib where
  "fp_example = \<lparr>fp_of_decimal = \<lambda>_ _. Inl InvalidArgument, fp_of_long = \<lambda>_ _. 0,
     fp_to_string = \<lambda>_. ''0.000000''\<rparr>"

definition json_escape_char :: "char \<Rightarrow> string" where
  "json_escape_char c =
     (if c = CHR 0x22 then [CHR 0x5C, CHR 0x22]
      else if c = CHR 0x5C then [CHR 0x5C, CHR 0x5C]
      else if c = CHR 0x08 then [CHR 0x5C, CHR ''b'']
      else if c = CHR 0x0C then [CHR 0x5C, CHR ''f'']
      else if c = CHR 0x0A then [CHR 0x5C, CHR ''n'']
      else if c = CHR 0x0D then [CHR 0x5C, CHR ''r'']
      else if c = CHR 0x09 then [CHR 0x5C, CHR ''t'']
      else [c])"

definition json_escape :: "string \<Rightarrow> string" where
  "json_escape s = concat (map json_escape_char s)"

subsection \<open>The ordered map of an object\<close>

fun map_insert :: "string \<Rightarrow> JSON \<Rightarrow> (string \<times> JSON) list \<Rightarrow> (string \<times> JSON) list" where
  "map_insert k v [] = [(k, v)]"
| "map_insert k v ((k', v') # m) =
     (if k < k' then (k, v) # (k', v') # m
      else if k = k' then (k, v) # m
      else (k', v') # map_insert k v m)"

subsection \<open>Accessors\<close>

datatype Class = CNull | CObject | CArray | CString | CFloating | CIntegral | CBoolean

fun JSONType :: "JSON \<Rightarrow> Class" where
  "JSONType Null = CNull"
| "JSONType (Object m) = CObject"
| "JSONType (Array xs) = CArray"
| "JSONType (String s) = CString"
| "JSONType (Floating d) = CFloating"
| "JSONType (Integral i) = CIntegral"
| "JSONType (Boolean b) = CBoolean"

fun fresh :: "Class \<Rightarrow> JSON" where
  "fresh CNull = Null"
| "fresh CObject = Object []"
| "fresh CArray = Array []"
| "fresh CString = String []"
| "fresh CFloating = Floating 0"
| "fresh CIntegral = Integral 0"
| "fresh CBoolean = Boolean False"

definition SetType :: "Class \<Rightarrow> JSON \<Rightarrow> JSON" where
  "SetType t j = (if t = JSONType j then j else fresh t)"

definition Make :: "Class \<Rightarrow> JSON" where
  "Make t = SetType t Null"

fun members :: "JSON \<Rightarrow> (string \<times> JSON) list" where
  "members (Object m) = m"
| "members _ = []"

fun elements :: "JSON \<Rightarrow> JSON list" where
  "elements (Array xs) = xs"
| "elements _ = []"

text \<open>
  The non-const \<open>operator[](key)\<close> turns the value into an object and creates a missing member as
  null.  \<open>index_key\<close> is the value the reference denotes, \<open>index_key_state\<close> the container after the
  call, \<open>set_key\<close> the container after an assignment through the reference.
\<close>

definition index_key :: "string \<Rightarrow> JSON \<Rightarrow> JSON" where
  "index_key k j = (case map_of (members (SetType CObject j)) k of None \<Rightarrow> Null | Some v \<Rightarrow> v)"

definition set_key :: "string \<Rightarrow> JSON \<Rightarrow> JSON \<Rightarrow> JSON" where
  "set_key k v j = Object (map_insert k v (members (SetType CObject j)))"

definition index_key_state :: "string \<Rightarrow> JSON \<Rightarrow> JSON" where
  "index_key_state k j = set_key k (index_key k j) j"

text \<open>\<open>operator[](unsigned) = v\<close>: the array grows with nulls up to the index.\<close>

definition set_index :: "nat \<Rightarrow> JSON \<Rightarrow> JSON \<Rightarrow> JSON" where
  "set_index i v j =
     (let xs = elements (SetType CArray j);
          ys = (if i \<ge> length xs then xs @ replicate (i + 1 - length xs) Null else xs)
      in Array (ys[i := v]))"

definition json_append :: "JSON \<Rightarrow> JSON \<Rightarrow> JSON" where
  "json_append v j = Array (elements (SetType CArray j) @ [v])"

definition json_length :: "JSON \<Rightarrow> int" where
  "json_length j = (if JSONType j = CArray then int (length (elements j)) else - 1)"

definition hasKey :: "string \<Rightarrow> JSON \<Rightarrow> bool" where
  "hasKey k j = (JSONType j = CObject \<and> map_of (members j) k \<noteq> None)"

definition json_size :: "JSON \<Rightarrow> int" where
  "json_size j =
     (if JSONType j = CObject then int (length (members j))
      else if JSONType j = CArray then int (length (elements j)) else - 1)"

fun ToString :: "JSON \<Rightarrow> string" where
  "ToString (String s) = json_escape s"
| "ToString _ = []"

fun ToBool :: "JSON \<Rightarrow> bool" where
  "ToBool (Boolean b) = b"
| "ToBool _ = False"

fun ToInt :: "JSON \<Rightarrow> int" where
  "ToInt (Integral i) = i"
| "ToInt _ = 0"

definition ArrayRange :: "JSON \<Rightarrow> JSON list" where
  "ArrayRange j = elements j"

definition ObjectRange :: "JSON \<Rightarrow> (string \<times> JSON) list" where
  "ObjectRange j = members j"

subsection \<open>Printing\<close>

abbreviation DQ :: char where "DQ \<equiv> CHR 0x22"
abbreviation BSL :: char where "BSL \<equiv> CHR 0x5C"
abbreviation NL :: char where "NL \<equiv> CHR 0x0A"

text \<open>
  \<open>pad\<close> is \<open>depth\<close> copies of the tab, two blanks by default (no caller passes another one); the closing brace of
  an object is printed after \<open>pad.erase(0, 2)\<close>.
\<close>

definition dump_pad :: "nat \<Rightarrow> string" where
  "dump_pad depth = concat (replicate depth ''  '')"

lemma dump_pad_blanks [simp]: "dump_pad depth = replicate (2 * depth) CHR '' ''"
  by (induction depth) (simp_all add: dump_pad_def)

fun dump :: "fp_lib \<Rightarrow> nat \<Rightarrow> JSON \<Rightarrow> string"
  and dump_members :: "fp_lib \<Rightarrow> nat \<Rightarrow> bool \<Rightarrow> (string \<times> JSON) list \<Rightarrow> string"
  and dump_elements :: "fp_lib \<Rightarrow> nat \<Rightarrow> bool \<Rightarrow> JSON list \<Rightarrow> string" where
  "dump fp d Null = ''null''"
| "dump fp d (Object m) =
     [CHR ''{'', NL] @ dump_members fp d True m @
     [NL] @ drop 2 (dump_pad d) @ ''}''"
| "dump fp d (Array xs) = ''['' @ dump_elements fp d True xs @ '']''"
| "dump fp d (String s) = [DQ] @ json_escape s @ [DQ]"
| "dump fp d (Floating f) = fp_to_string fp f"
| "dump fp d (Integral i) = to_string i"
| "dump fp d (Boolean b) = (if b then ''true'' else ''false'')"
| "dump_members fp d skip [] = []"
| "dump_members fp d skip ((k, v) # m) =
     (if skip then [] else [CHR '','', NL]) @
     dump_pad d @ [DQ] @ k @ [DQ] @ '' : '' @ dump fp (d + 1) v @
     dump_members fp d False m"
| "dump_elements fp d skip [] = []"
| "dump_elements fp d skip (x # xs) =
     (if skip then [] else '', '') @ dump fp (d + 1) x @ dump_elements fp d False xs"

text \<open>\<open>dump()\<close> with its default arguments.\<close>

definition json_dump :: "fp_lib \<Rightarrow> JSON \<Rightarrow> string" where
  "json_dump fp j = dump fp 1 j"

subsection \<open>Parsing\<close>

definition str_at :: "string \<Rightarrow> nat \<Rightarrow> json_error + char" where
  "str_at s i = (if i < length s then Inr (s ! i) else if i = length s then Inr NUL
                 else Inl ReadPastEnd)"

lemma str_at_bound: "str_at s i = Inr c \<Longrightarrow> i \<le> length s"
  by (auto simp: str_at_def split: if_splits)

lemma str_at_nonNUL: "str_at s i = Inr c \<Longrightarrow> c \<noteq> NUL \<Longrightarrow> i < length s"
  by (auto simp: str_at_def split: if_splits)

function consume_ws :: "string \<Rightarrow> nat \<Rightarrow> json_error + nat" where
  "consume_ws s i =
     ebind (str_at s i) (\<lambda>c. if isspace c then consume_ws s (Suc i) else Inr i)"
  by pat_completeness auto
termination
  by (relation "measure (\<lambda>(s, i). Suc (length s) - i)") (auto dest: str_at_bound)

declare consume_ws.simps [simp del]

definition hex_char :: "char \<Rightarrow> bool" where
  "hex_char c \<longleftrightarrow> (CHR ''0'' \<le> c \<and> c \<le> CHR ''9'') \<or> (CHR ''a'' \<le> c \<and> c \<le> CHR ''f'') \<or>
                 (CHR ''A'' \<le> c \<and> c \<le> CHR ''F'')"

text \<open>
  The body of the \<open>\u\<close> escape: four hex digits after the \<open>u\<close> at \<open>i\<close>.  \<open>None\<close> is the early
  return with an empty string.
\<close>

fun parse_hex :: "string \<Rightarrow> nat \<Rightarrow> nat \<Rightarrow> string \<Rightarrow> json_error + string option" where
  "parse_hex s i 0 acc = Inr (Some acc)"
| "parse_hex s i (Suc n) acc =
     ebind (str_at s (i + 1)) (\<lambda>c.
       if hex_char c then parse_hex s (i + 1) n (acc @ [c]) else Inr None)"

definition simple_escape :: "char \<Rightarrow> char" where
  "simple_escape c =
     (if c = DQ then DQ else if c = BSL then BSL else if c = CHR ''/'' then CHR ''/''
      else if c = CHR ''b'' then CHR 0x08 else if c = CHR ''f'' then CHR 0x0C
      else if c = CHR ''n'' then CHR 0x0A else if c = CHR ''r'' then CHR 0x0D
      else if c = CHR ''t'' then CHR 0x09 else BSL)"

function parse_string_loop :: "string \<Rightarrow> nat \<Rightarrow> string \<Rightarrow> json_error + (JSON \<times> nat)" where
  "parse_string_loop s i val =
     ebind (str_at s i) (\<lambda>c.
       if c = DQ then Inr (String val, Suc i)
       else if c = BSL then
         ebind (str_at s (Suc i)) (\<lambda>e.
           if e = CHR ''u'' then
             ebind (parse_hex s (Suc i) 4 (val @ [BSL, CHR ''u''])) (\<lambda>r.
               case r of None \<Rightarrow> Inr (Make CString, Suc i)
               | Some val' \<Rightarrow> parse_string_loop s (i + 6) val')
           else parse_string_loop s (i + 2) (val @ [simple_escape e]))
       else parse_string_loop s (Suc i) (val @ [c]))"
  by pat_completeness auto
termination
  by (relation "measure (\<lambda>(s, i, val). Suc (length s) - i)") (auto dest: str_at_bound)

declare parse_string_loop.simps [simp del]

definition parse_string :: "string \<Rightarrow> nat \<Rightarrow> json_error + (JSON \<times> nat)" where
  "parse_string s i = parse_string_loop s (Suc i) []"

text \<open>The first loop of \<open>parse_number\<close>: the text read, whether a dot occurred, the stopping
  character and the offset behind it.\<close>

function parse_number_chars ::
    "string \<Rightarrow> nat \<Rightarrow> string \<Rightarrow> bool \<Rightarrow> json_error + (string \<times> bool \<times> char \<times> nat)" where
  "parse_number_chars s i val dbl =
     ebind (str_at s i) (\<lambda>c.
       if c = CHR ''-'' \<or> is_digit c then parse_number_chars s (Suc i) (val @ [c]) dbl
       else if c = CHR ''.'' then parse_number_chars s (Suc i) (val @ [c]) True
       else Inr (val, dbl, c, Suc i))"
  by pat_completeness auto
termination
  by (relation "measure (\<lambda>(s, i, val, dbl). Suc (length s) - i)") (auto dest: str_at_bound)

declare parse_number_chars.simps [simp del]

definition number_end :: "char \<Rightarrow> bool" where
  "number_end c \<longleftrightarrow> isspace c \<or> c = CHR '','' \<or> c = CHR '']'' \<or> c = CHR ''}''"

text \<open>The exponent loop; \<open>None\<close> is the early return of null (with the offset reached).\<close>

function parse_exp_chars ::
    "string \<Rightarrow> nat \<Rightarrow> string \<Rightarrow> json_error + (string option \<times> nat)" where
  "parse_exp_chars s i ex =
     ebind (str_at s i) (\<lambda>c.
       if is_digit c then parse_exp_chars s (Suc i) (ex @ [c])
       else if \<not> number_end c then Inr (None, Suc i)
       else Inr (Some ex, Suc i))"
  by pat_completeness auto
termination
  by (relation "measure (\<lambda>(s, i, ex). Suc (length s) - i)") (auto dest: str_at_bound)

declare parse_exp_chars.simps [simp del]

definition num_err :: "num_error \<Rightarrow> json_error" where
  "num_err e = (case e of InvalidArgument \<Rightarrow> StoInvalid | OutOfRange \<Rightarrow> StoRange)"

definition lift_num :: "num_error + 'a \<Rightarrow> json_error + 'a" where
  "lift_num r = (case r of Inl e \<Rightarrow> Inl (num_err e) | Inr x \<Rightarrow> Inr x)"

definition number_value :: "fp_lib \<Rightarrow> string \<Rightarrow> bool \<Rightarrow> string \<Rightarrow> int \<Rightarrow> json_error + JSON" where
  "number_value fp val dbl ex e =
     (if dbl then ebind (lift_num (fp_of_decimal fp val e)) (\<lambda>d. Inr (Floating d))
      else if ex \<noteq> [] then ebind (lift_num (stol val)) (\<lambda>n. Inr (Floating (fp_of_long fp n e)))
      else ebind (lift_num (stol val)) (\<lambda>n. Inr (Integral n)))"

definition parse_number :: "fp_lib \<Rightarrow> string \<Rightarrow> nat \<Rightarrow> json_error + (JSON \<times> nat)" where
  "parse_number fp s i =
     ebind (parse_number_chars s i [] False) (\<lambda>(val, dbl, c, i1).
       if c = CHR ''E'' \<or> c = CHR ''e'' then
         ebind (str_at s i1) (\<lambda>c1.
           let i2 = (if c1 = CHR ''-'' then i1 + 2 else i1 + 1);
               ex0 = (if c1 = CHR ''-'' then ''-'' else [])
           in ebind (parse_exp_chars s i2 ex0) (\<lambda>(r, i3).
             case r of None \<Rightarrow> Inr (Make CNull, i3)
             | Some ex \<Rightarrow>
                 ebind (lift_num (stol ex)) (\<lambda>e.
                   ebind (number_value fp val dbl ex e) (\<lambda>j. Inr (j, i3 - 1)))))
       else if \<not> number_end c then Inr (Make CNull, i1)
       else ebind (number_value fp val dbl [] 0) (\<lambda>j. Inr (j, i1 - 1)))"

definition parse_bool :: "string \<Rightarrow> nat \<Rightarrow> JSON \<times> nat" where
  "parse_bool s i =
     (if take 4 (drop i s) = ''true'' then (Boolean True, i + 4)
      else if take 5 (drop i s) = ''false'' then (Boolean False, i + 5)
      else (Make CNull, i))"

definition parse_null :: "string \<Rightarrow> nat \<Rightarrow> JSON \<times> nat" where
  "parse_null s i = (if take 4 (drop i s) = ''null'' then (Null, i + 4) else (Make CNull, i))"

text \<open>
  \<open>parse_next\<close>, \<open>parse_object\<close> and \<open>parse_array\<close>; their \<open>while(true)\<close> loops are the functions
  with suffix \<open>_loop\<close>.  Every call spends one unit of fuel.
\<close>

function (sequential) parse_next :: "fp_lib \<Rightarrow> nat \<Rightarrow> string \<Rightarrow> nat \<Rightarrow> json_error + (JSON \<times> nat)"
  and parse_object :: "fp_lib \<Rightarrow> nat \<Rightarrow> string \<Rightarrow> nat \<Rightarrow> json_error + (JSON \<times> nat)"
  and parse_object_loop ::
    "fp_lib \<Rightarrow> nat \<Rightarrow> string \<Rightarrow> nat \<Rightarrow> (string \<times> JSON) list \<Rightarrow> json_error + (JSON \<times> nat)"
  and parse_array :: "fp_lib \<Rightarrow> nat \<Rightarrow> string \<Rightarrow> nat \<Rightarrow> json_error + (JSON \<times> nat)"
  and parse_array_loop :: "fp_lib \<Rightarrow> nat \<Rightarrow> string \<Rightarrow> nat \<Rightarrow> JSON list \<Rightarrow> json_error + (JSON \<times> nat)"
where
  "parse_next fp 0 s i = Inl FuelOut"
| "parse_next fp (Suc n) s i =
     ebind (consume_ws s i) (\<lambda>i.
       ebind (str_at s i) (\<lambda>c.
         if c = CHR ''['' then parse_array fp n s i
         else if c = CHR ''{'' then parse_object fp n s i
         else if c = DQ then parse_string s i
         else if c = CHR ''t'' \<or> c = CHR ''f'' then Inr (parse_bool s i)
         else if c = CHR ''n'' then Inr (parse_null s i)
         else if is_digit c \<or> c = CHR ''-'' then parse_number fp s i
         else Inr (Null, i)))"
| "parse_object fp 0 s i = Inl FuelOut"
| "parse_object fp (Suc n) s i =
     ebind (consume_ws s (Suc i)) (\<lambda>i1.
       ebind (str_at s i1) (\<lambda>c.
         if c = CHR ''}'' then Inr (Make CObject, Suc i1) else parse_object_loop fp n s i1 []))"
| "parse_object_loop fp 0 s i m = Inl FuelOut"
| "parse_object_loop fp (Suc n) s i m =
     ebind (parse_next fp n s i) (\<lambda>(Key, i1).
       ebind (consume_ws s i1) (\<lambda>i2.
         ebind (str_at s i2) (\<lambda>c.
           if c \<noteq> CHR '':'' then Inr (Object m, i2)
           else ebind (consume_ws s (Suc i2)) (\<lambda>i3.
             ebind (parse_next fp n s i3) (\<lambda>(Value, i4).
               ebind (consume_ws s i4) (\<lambda>i5.
                 ebind (str_at s i5) (\<lambda>c.
                   let m' = map_insert (ToString Key) Value m in
                   if c = CHR '','' then parse_object_loop fp n s (Suc i5) m'
                   else if c = CHR ''}'' then Inr (Object m', Suc i5)
                   else Inr (Object m', i5))))))))"
| "parse_array fp 0 s i = Inl FuelOut"
| "parse_array fp (Suc n) s i =
     ebind (consume_ws s (Suc i)) (\<lambda>i1.
       ebind (str_at s i1) (\<lambda>c.
         if c = CHR '']'' then Inr (Make CArray, Suc i1) else parse_array_loop fp n s i1 []))"
| "parse_array_loop fp 0 s i xs = Inl FuelOut"
| "parse_array_loop fp (Suc n) s i xs =
     ebind (parse_next fp n s i) (\<lambda>(v, i1).
       ebind (consume_ws s i1) (\<lambda>i2.
         ebind (str_at s i2) (\<lambda>c.
           if c = CHR '','' then parse_array_loop fp n s (Suc i2) (xs @ [v])
           else if c = CHR '']'' then Inr (Array (xs @ [v]), Suc i2)
           else Inr (Make CArray, i2))))"
  by pat_completeness auto
termination
  by (relation "measure (\<lambda>x. case x of
        Inl (Inl (fp, n, s, i)) \<Rightarrow> n
      | Inl (Inr (fp, n, s, i)) \<Rightarrow> n
      | Inr (Inl (fp, n, s, i, m)) \<Rightarrow> n
      | Inr (Inr (Inl (fp, n, s, i))) \<Rightarrow> n
      | Inr (Inr (Inr (fp, n, s, i, xs))) \<Rightarrow> n)") simp_all

definition load_fuel :: "string \<Rightarrow> nat" where
  "load_fuel s = 3 * length s + 4"

definition JSON_Load :: "fp_lib \<Rightarrow> string \<Rightarrow> json_error + JSON" where
  "JSON_Load fp s = ebind (parse_next fp (load_fuel s) s 0) (\<lambda>(j, i). Inr j)"

subsection \<open>Every parse advances and never runs out of fuel\<close>

lemma str_at_not_FuelOut [simp]: "str_at s i \<noteq> Inl FuelOut"
  by (simp add: str_at_def)

lemma consume_ws_post: "\<forall>j. consume_ws s i = Inr j \<longrightarrow> i \<le> j \<and> j \<le> length s"
proof (induction s i rule: consume_ws.induct)
  case (1 s i)
  show ?case
    by (subst consume_ws.simps, intro post_intros) (use "1.IH" in \<open>fastforce dest: str_at_bound\<close>)+
qed

lemmas consume_ws_bounds = consume_ws_post [rule_format]
lemmas consume_ws_le = consume_ws_bounds [THEN conjunct1]

lemma consume_ws_not_FuelOut [simp]: "consume_ws s i \<noteq> Inl FuelOut"
proof (induction s i rule: consume_ws.induct)
  case (1 s i)
  show ?case by (subst consume_ws.simps, intro neq_intros) (use "1.IH" in auto)
qed

lemma parse_hex_not_FuelOut [simp]: "parse_hex s i n acc \<noteq> Inl FuelOut"
proof (induction n arbitrary: i acc)
  case (Suc n)
  then show ?case by (unfold parse_hex.simps, intro neq_intros) auto
qed simp

lemma parse_string_loop_bounds: "\<forall>z. parse_string_loop s i v = Inr z \<longrightarrow> i < snd z"
proof (induction s i v rule: parse_string_loop.induct)
  case (1 s i v)
  show ?case
    by (subst parse_string_loop.simps, intro post_intros) (use "1.IH" in \<open>fastforce\<close>)+
qed

lemma parse_string_loop_not_FuelOut [simp]: "parse_string_loop s i v \<noteq> Inl FuelOut"
proof (induction s i v rule: parse_string_loop.induct)
  case (1 s i v)
  show ?case by (subst parse_string_loop.simps, intro neq_intros) (use "1.IH" in auto)
qed

lemma parse_number_chars_bounds:
  "\<forall>z. parse_number_chars s i v d = Inr z \<longrightarrow> i < snd (snd (snd z))"
proof (induction s i v d rule: parse_number_chars.induct)
  case (1 s i v d)
  show ?case
    by (subst parse_number_chars.simps, intro post_intros) (use "1.IH" in \<open>fastforce\<close>)+
qed

lemma parse_number_chars_not_FuelOut [simp]: "parse_number_chars s i v d \<noteq> Inl FuelOut"
proof (induction s i v d rule: parse_number_chars.induct)
  case (1 s i v d)
  show ?case by (subst parse_number_chars.simps, intro neq_intros) (use "1.IH" in auto)
qed

lemma parse_exp_chars_bounds: "\<forall>z. parse_exp_chars s i v = Inr z \<longrightarrow> i < snd z"
proof (induction s i v rule: parse_exp_chars.induct)
  case (1 s i v)
  show ?case by (subst parse_exp_chars.simps, intro post_intros) (use "1.IH" in \<open>fastforce\<close>)+
qed

lemma parse_exp_chars_not_FuelOut [simp]: "parse_exp_chars s i v \<noteq> Inl FuelOut"
proof (induction s i v rule: parse_exp_chars.induct)
  case (1 s i v)
  show ?case by (subst parse_exp_chars.simps, intro neq_intros) (use "1.IH" in auto)
qed

lemma lift_num_not_FuelOut [simp]: "lift_num r \<noteq> Inl FuelOut"
  by (auto simp: lift_num_def num_err_def split: sum.splits num_error.splits)

lemma number_value_not_FuelOut [simp]: "number_value fp v d e x \<noteq> Inl FuelOut"
  unfolding number_value_def by (intro neq_intros) auto

lemma parse_number_not_FuelOut [simp]: "parse_number fp s i \<noteq> Inl FuelOut"
  unfolding parse_number_def Let_def by (intro neq_intros) auto

lemma parse_number_bounds: "\<forall>z. parse_number fp s i = Inr z \<longrightarrow> i \<le> snd z"
  unfolding parse_number_def Let_def
  by (intro post_intros; clarsimp)
    (fastforce dest!: parse_number_chars_bounds [rule_format] parse_exp_chars_bounds [rule_format]
      split: if_splits)+

lemma parse_scalar_bounds:
  "\<forall>z. Inr (parse_bool s i) = Inr z \<longrightarrow> i \<le> snd z" "\<forall>z. Inr (parse_null s i) = Inr z \<longrightarrow> i \<le> snd z"
  by (auto simp: parse_bool_def parse_null_def)

lemma parse_string_bounds: "\<forall>z. parse_string s i = Inr z \<longrightarrow> i \<le> snd z"
  using parse_string_loop_bounds [of s "Suc i"] by (fastforce simp: parse_string_def)

lemma post_le: "k \<le> i \<Longrightarrow> \<forall>z. X = Inr z \<longrightarrow> i \<le> snd z \<Longrightarrow> \<forall>z. X = Inr z \<longrightarrow> k \<le> (snd z :: nat)"
  by fastforce

lemma post_refl: "\<forall>z. Inr (x, i) = Inr z \<longrightarrow> i \<le> (snd z :: nat)"
  by simp

lemma parse_bounds:
  "\<forall>z. parse_next fp n s i = Inr z \<longrightarrow> i \<le> snd z"
  "\<forall>z. parse_object fp n s i = Inr z \<longrightarrow> i \<le> snd z"
  "\<forall>z. parse_object_loop fp n s i m = Inr z \<longrightarrow> i \<le> snd z"
  "\<forall>z. parse_array fp n s i = Inr z \<longrightarrow> i \<le> snd z"
  "\<forall>z. parse_array_loop fp n s i xs = Inr z \<longrightarrow> i \<le> snd z"
proof (induction n arbitrary: i m xs)
  case (Suc n)
  note IH = Suc.IH [rule_format]
  {
    case 1
    show ?case unfolding parse_next.simps
      by (intro post_intros; rule post_le, erule consume_ws_le,
          rule Suc.IH parse_string_bounds parse_number_bounds parse_scalar_bounds post_refl)
  next
    case 2
    show ?case unfolding parse_object.simps by (intro post_intros) (auto dest!: IH consume_ws_le)
  next
    case 3
    show ?case unfolding parse_object_loop.simps Let_def
      by (intro post_intros) (auto dest!: IH consume_ws_le)
  next
    case 4
    show ?case unfolding parse_array.simps by (intro post_intros) (auto dest!: IH consume_ws_le)
  next
    case 5
    show ?case unfolding parse_array_loop.simps
      by (intro post_intros) (auto dest!: IH consume_ws_le)
  }
qed simp_all

lemma parse_no_FuelOut:
  "n > 3 * (length s - i) \<Longrightarrow> parse_next fp n s i \<noteq> Inl FuelOut"
  "i < length s \<Longrightarrow> n \<ge> 3 * (length s - i) \<Longrightarrow> parse_object fp n s i \<noteq> Inl FuelOut"
  "n > 3 * (length s - i) + 1 \<Longrightarrow> parse_object_loop fp n s i m \<noteq> Inl FuelOut"
  "i < length s \<Longrightarrow> n \<ge> 3 * (length s - i) \<Longrightarrow> parse_array fp n s i \<noteq> Inl FuelOut"
  "n > 3 * (length s - i) + 1 \<Longrightarrow> parse_array_loop fp n s i xs \<noteq> Inl FuelOut"
proof (induction n arbitrary: i m xs)
  case (Suc n)
  have enter: "n > 3 * (length s - k) + 1"
    if "Suc n \<ge> 3 * (length s - i)" "i < length s" "consume_ws s (Suc i) = Inr k" for i k
    using that consume_ws_bounds [of s "Suc i" k] by auto
  have again: "n > 3 * (length s - Suc k) + 1"
    if "Suc n > 3 * (length s - i) + 1" "str_at s k = Inr CHR '',''" "i \<le> k" for i k
    using that str_at_nonNUL [of s k "CHR '',''"] by simp
  have here: "k < length s" "n \<ge> 3 * (length s - k)"
    if "Suc n > 3 * (length s - i)" "consume_ws s i = Inr k" "str_at s k = Inr c" "c \<noteq> NUL" for i k c
    using that str_at_nonNUL [of s k c] consume_ws_le [of s i k] by simp_all
  have later: "n > 3 * (length s - k)" if "Suc n > 3 * (length s - i) + 1" "i \<le> k" for i k
    using that by simp
  {
    case 1
    then show ?case unfolding parse_next.simps
      by (intro neq_intros)
        ((rule Suc.IH; (rule here, assumption, assumption, assumption, simp)) |
          simp add: parse_string_def)+
  next
    case 2
    then show ?case unfolding parse_object.simps
      by (intro neq_intros) ((rule Suc.IH, rule enter, assumption+) | simp)+
  next
    case 3
    then show ?case unfolding parse_object_loop.simps Let_def
      by (intro neq_intros)
        ((rule Suc.IH, rule again later, assumption)?,
          fastforce dest!: parse_bounds [rule_format] consume_ws_le)+
  next
    case 4
    then show ?case unfolding parse_array.simps
      by (intro neq_intros) ((rule Suc.IH, rule enter, assumption+) | simp)+
  next
    case 5
    then show ?case unfolding parse_array_loop.simps
      by (intro neq_intros)
        ((rule Suc.IH, rule again later, assumption)?,
          fastforce dest!: parse_bounds [rule_format] consume_ws_le)+
  }
qed simp_all

lemma JSON_Load_no_FuelOut: "JSON_Load fp s \<noteq> Inl FuelOut"
  unfolding JSON_Load_def by (intro neq_intros parse_no_FuelOut) (simp_all add: load_fuel_def)

subsection \<open>Printing and parsing are inverse\<close>

lemma drop_add: "drop i s = a @ q \<Longrightarrow> drop (i + length a) s = q"
  by (metis add.commute append_eq_conv_conj drop_drop)

lemma drop_Suc_Cons: "drop i s = c # q \<Longrightarrow> drop (Suc i) s = q"
  using drop_add [of i s "[c]" q] by simp

lemma str_at_drop: "drop i s = c # q \<Longrightarrow> str_at s i = Inr c"
  unfolding str_at_def by (metis drop_eq_Nil hd_drop_conv_nth leI list.discI list.sel(1))

lemma consume_ws_drop:
  "drop i s = ws @ c # q \<Longrightarrow> list_all isspace ws \<Longrightarrow> \<not> isspace c \<Longrightarrow>
   consume_ws s i = Inr (i + length ws)"
proof (induction ws arbitrary: i)
  case Nil
  then show ?case by (subst consume_ws.simps) (simp add: str_at_drop)
next
  case (Cons w ws)
  have "drop (Suc i) s = ws @ c # q" using Cons.prems(1) drop_Suc_Cons by fastforce
  with Cons show ?case by (subst consume_ws.simps) (simp add: str_at_drop)
qed

lemma parse_string_loop_plain:
  "drop i s = c # q \<Longrightarrow> c \<noteq> DQ \<Longrightarrow> c \<noteq> BSL \<Longrightarrow>
   parse_string_loop s i v = parse_string_loop s (Suc i) (v @ [c])"
  by (subst parse_string_loop.simps) (simp add: str_at_drop)

lemma parse_string_loop_escape:
  "drop i s = BSL # e # q \<Longrightarrow> e \<noteq> CHR ''u'' \<Longrightarrow>
   parse_string_loop s i v = parse_string_loop s (i + 2) (v @ [simple_escape e])"
  by (subst parse_string_loop.simps) (simp add: str_at_drop [of i] str_at_drop [OF drop_Suc_Cons])

lemma parse_string_loop_char:
  assumes "drop i s = json_escape_char c @ q"
  shows "parse_string_loop s i v = parse_string_loop s (i + length (json_escape_char c)) (v @ [c])"
proof (cases "json_escape_char c = [c]")
  case True
  then have "c \<noteq> DQ" "c \<noteq> BSL" by (auto simp: json_escape_char_def split: if_splits)
  with True assms show ?thesis by (simp add: parse_string_loop_plain)
next
  case False
  then obtain e where e: "json_escape_char c = [BSL, e]" "e \<noteq> CHR ''u''" "simple_escape e = c"
    by (auto simp: json_escape_char_def simple_escape_def split: if_splits)
  with assms show ?thesis by (simp add: parse_string_loop_escape)
qed

lemma parse_string_loop_drop:
  "drop i s = json_escape t @ DQ # q \<Longrightarrow>
   parse_string_loop s i v = Inr (String (v @ t), Suc (i + length (json_escape t)))"
proof (induction t arbitrary: i v)
  case Nil
  then show ?case
    by (subst parse_string_loop.simps) (simp add: json_escape_def str_at_drop)
next
  case (Cons c t)
  from Cons.prems have d: "drop i s = json_escape_char c @ json_escape t @ DQ # q"
    by (simp add: json_escape_def)
  show ?case
    using Cons.IH [OF drop_add [OF d]] parse_string_loop_char [OF d]
    by (simp add: json_escape_def)
qed

lemma parse_number_chars_drop:
  "drop i s = t @ c # q \<Longrightarrow> list_all (\<lambda>c. c = CHR ''-'' \<or> is_digit c) t \<Longrightarrow>
   \<not> is_digit c \<Longrightarrow> c \<noteq> CHR ''-'' \<Longrightarrow> c \<noteq> CHR ''.'' \<Longrightarrow>
   parse_number_chars s i v d = Inr (v @ t, d, c, Suc (i + length t))"
proof (induction t arbitrary: i v)
  case Nil
  then show ?case by (subst parse_number_chars.simps) (simp add: str_at_drop)
next
  case (Cons x t)
  have "drop (Suc i) s = t @ c # q" using Cons.prems(1) drop_Suc_Cons by fastforce
  with Cons show ?case by (subst parse_number_chars.simps) (simp add: str_at_drop)
qed

lemma number_end_not:
  "number_end c \<Longrightarrow> \<not> is_digit c \<and> c \<notin> {CHR ''-'', CHR ''.'', CHR ''e'', CHR ''E''}"
  by (auto simp: number_end_def isspace_def is_digit_def)

lemma to_string_number_chars: "list_all (\<lambda>c. c = CHR ''-'' \<or> is_digit c) (to_string n)"
  by (auto simp: list_all_iff dest: to_string_chars)

lemma parse_number_drop:
  assumes "drop i s = to_string n @ c # q" "number_end c" "in_long n"
  shows "parse_number fp s i = Inr (Integral n, i + length (to_string n))"
proof -
  have "parse_number_chars s i [] False = Inr (to_string n, False, c, Suc (i + length (to_string n)))"
    using parse_number_chars_drop [OF assms(1) to_string_number_chars] number_end_not [OF assms(2)] by simp
  with assms(2,3) number_end_not [OF assms(2)] show ?thesis
    by (simp add: parse_number_def number_value_def lift_num_def stol_to_string)
qed

lemma map_insert_last:
  "sorted_wrt (<) (map fst acc @ [k]) \<Longrightarrow> map_insert k v acc = acc @ [(k, v)]"
  by (induction acc) (auto simp: sorted_wrt_append)


lemma isspace_simps [simp]:
  "isspace CHR '' ''" "isspace NL" "\<not> isspace CHR '',''" "\<not> isspace CHR ''}''" "\<not> isspace CHR '']''"
  "\<not> isspace CHR '':''" "\<not> isspace CHR ''-''" "\<not> isspace CHR ''{''" "\<not> isspace CHR ''[''" "\<not> isspace DQ"
  "\<not> isspace CHR ''n''" "\<not> isspace CHR ''t''" "\<not> isspace CHR ''f''"
  by (simp_all add: isspace_def)

definition parses :: "fp_lib \<Rightarrow> JSON \<Rightarrow> bool" where
  "parses fp v \<longleftrightarrow> (\<forall>d s i n ws q. drop i s = ws @ dump fp d v @ q \<longrightarrow> list_all isspace ws \<longrightarrow>
     (JSONType v = CIntegral \<longrightarrow> q \<noteq> [] \<and> number_end (hd q)) \<longrightarrow> n > 3 * (length s - i) \<longrightarrow>
     parse_next fp n s i = Inr (v, i + length ws + length (dump fp d v)))"

lemma parsesD:
  "parses fp v \<Longrightarrow> drop i s = ws @ dump fp d v @ c # q \<Longrightarrow> list_all isspace ws \<Longrightarrow> number_end c \<Longrightarrow>
   n > 3 * (length s - i) \<Longrightarrow> parse_next fp n s i = Inr (v, i + length ws + length (dump fp d v))"
  unfolding parses_def by (metis list.distinct(1) list.sel(1))

lemma dump_elements_False:
  "dump_elements fp d False (x # xs) = '', '' @ dump_elements fp d True (x # xs)"
  by simp

lemma dump_members_False:
  "dump_members fp d False (x # m) = [CHR '','', NL] @ dump_members fp d True (x # m)"
  by (cases x) simp

lemma number_end_simps [simp]: "number_end CHR '',''" "number_end CHR '']''" "number_end NL"
  by (simp_all add: number_end_def)

lemma length_drop_bound: "drop i s = a @ q \<Longrightarrow> length s - i = length a + length q"
  by (metis length_append length_drop)

lemma parse_array_loop_dump:
  assumes "\<And>v. v \<in> set xs \<Longrightarrow> parses fp v" "xs \<noteq> []"
    and "drop i s = ws @ dump_elements fp d True xs @ CHR '']'' # q" "list_all isspace ws"
    and "n > 3 * (length s - i) + 1"
  shows "parse_array_loop fp n s i acc =
    Inr (Array (acc @ xs), Suc (i + length ws + length (dump_elements fp d True xs)))"
  using assms
proof (induction xs arbitrary: i acc ws n)
  case (Cons x xs)
  obtain n' where n: "n = Suc n'" "n' > 3 * (length s - i)" using Cons.prems(5) by (cases n) auto
  let ?tail = "dump_elements fp d False xs @ CHR '']'' # q"
  let ?i = "i + length ws + length (dump fp (d + 1) x)"
  have d: "drop i s = ws @ dump fp (d + 1) x @ ?tail" using Cons.prems(3) by simp
  have d': "drop ?i s = ?tail" using drop_add [OF drop_add [OF d]] by (simp add: add.assoc)
  obtain c t where tl: "?tail = c # t" "number_end c" "\<not> isspace c"
    by (cases xs) auto
  have nx: "parse_next fp n' s i = Inr (x, ?i)"
    by (rule parsesD) (use Cons.prems(1,4) d tl n in auto)
  have ws: "consume_ws s ?i = Inr ?i"
    using consume_ws_drop [of ?i s "[]" c t] d' tl by simp
  show ?case
  proof (cases xs)
    case Nil
    then show ?thesis using d' nx ws by (simp add: n str_at_drop)
  next
    case (Cons y ys)
    have "drop (Suc ?i) s = '' '' @ dump_elements fp d True xs @ CHR '']'' # q"
      using d' unfolding Cons dump_elements_False by (auto dest!: drop_Suc_Cons)
    moreover have "str_at s ?i = Inr CHR '',''"
      using d' unfolding Cons dump_elements_False by (auto intro: str_at_drop)
    moreover have "n' > 3 * (length s - Suc ?i) + 1"
      using n(2) length_drop_bound [OF d] tl by simp
    ultimately show ?thesis
      using Cons.IH [of "Suc ?i" "'' ''" n' "acc @ [x]"] Cons.prems(1) nx ws Cons
      by (simp add: n del: dump_elements.simps) (simp add: algebra_simps)
  qed
qed simp

lemma parse_next_string:
  assumes "drop i s = ws @ DQ # json_escape t @ DQ # q" "list_all isspace ws"
  shows "parse_next fp (Suc n) s i = Inr (String t, i + length ws + length (json_escape t) + 2)"
proof -
  let ?i = "i + length ws"
  have d: "drop ?i s = DQ # json_escape t @ DQ # q" using drop_add assms(1) by blast
  have "consume_ws s i = Inr ?i" using assms by (intro consume_ws_drop) auto
  with d parse_string_loop_drop [OF drop_Suc_Cons [OF d]] show ?thesis
    by (simp add: str_at_drop parse_string_def)
qed

lemma member_layout:
  assumes "drop i s = w @ DQ # k @ DQ # '' : '' @ t"
  shows "drop (i + length w + length k + 2) s = '' : '' @ t"
    "drop (i + length w + length k + 3) s = CHR '':'' # CHR '' '' # t"
    "drop (i + length w + length k + 4) s = CHR '' '' # t"
    "drop (i + length w + length k + 5) s = t"
proof -
  show 1: "drop (i + length w + length k + 2) s = '' : '' @ t"
    using drop_add [of i s "w @ DQ # k @ [DQ]"] assms by (simp add: add.assoc)
  show 2: "drop (i + length w + length k + 3) s = CHR '':'' # CHR '' '' # t"
    using drop_Suc_Cons [OF 1 [simplified]] by (simp add: eval_nat_numeral)
  show 3: "drop (i + length w + length k + 4) s = CHR '' '' # t"
    using drop_Suc_Cons [OF 2] by (simp add: eval_nat_numeral)
  show "drop (i + length w + length k + 5) s = t"
    using drop_Suc_Cons [OF 3] by (simp add: eval_nat_numeral)
qed

lemma to_string_nonempty [simp]: "to_string n \<noteq> []"
  by (simp add: to_string_def)

lemma to_string_hd:
  obtains c t where "to_string n = c # t" "is_digit c \<or> c = CHR ''-''"
proof (cases "to_string n")
  case (Cons c t)
  then have "c \<in> set (to_string n)" by simp
  with Cons that show thesis using to_string_chars by blast
qed simp

lemma dump_hd:
  assumes "JSONType j \<noteq> CFloating"
  shows "\<exists>c t. dump fp d j = c # t \<and> \<not> isspace c \<and> c \<noteq> CHR '']''"
proof (cases j)
  case (Integral n)
  obtain c t where "to_string n = c # t" "is_digit c \<or> c = CHR ''-''" by (rule to_string_hd)
  then show ?thesis using Integral is_digit_not_isspace by auto
qed (use assms in \<open>simp_all add: isspace_def\<close>)

lemma parse_object_loop_member:
  assumes d: "drop i s = w @ DQ # k @ DQ # '' : '' @ dump fp d v @ ws @ c # t"
    and sp: "list_all isspace w" "list_all isspace ws" "\<not> isspace c" "number_end (hd (ws @ [c]))"
    and k: "json_escape k = k" and ok: "JSONType v \<noteq> CFloating" and v: "parses fp v" and n: "n > 3 * (length s - i)"
    and p: "p = i + length w + length k + 5 + length (dump fp d v) + length ws"
  shows "parse_object_loop fp (Suc n) s i acc =
    (let m = map_insert k v acc in
     if c = CHR '','' then parse_object_loop fp n s (Suc p) m
     else if c = CHR ''}'' then Inr (Object m, Suc p) else Inr (Object m, p))"
proof -
  let ?k = "i + length w + length k"
  note lay = member_layout [OF d]
  obtain n' where n': "n = Suc n'" using n by (cases n) auto
  obtain c1 t1 where tl: "ws @ c # t = c1 # t1" "number_end c1" using sp(4) by (cases ws) auto
  obtain c0 t0 where hd: "dump fp d v = c0 # t0" "\<not> isspace c0"
    using dump_hd [OF ok] by blast
  have "parse_next fp n s i = Inr (String k, ?k + 2)"
    using parse_next_string [of i s w k _ fp n'] d sp(1) k n' by simp
  moreover have "consume_ws s (?k + 2) = Inr (?k + 3)"
    using consume_ws_drop [of "?k + 2" s "'' ''" "CHR '':''"] lay(1) by simp
  moreover have "str_at s (?k + 3) = Inr CHR '':''" by (rule str_at_drop [OF lay(2)])
  moreover have "consume_ws s (Suc (?k + 3)) = Inr (?k + 5)"
    using consume_ws_drop [of "?k + 4" s "'' ''" c0] lay(3) hd by (simp add: eval_nat_numeral)
  moreover have "parse_next fp n s (?k + 5) = Inr (v, ?k + 5 + length (dump fp d v))"
    using parsesD [OF v, of "?k + 5" s "[]" d c1 t1 n] lay(4) tl n by simp
  moreover have "consume_ws s (?k + 5 + length (dump fp d v)) = Inr p"
    unfolding p by (rule consume_ws_drop [OF drop_add [OF lay(4)] sp(2,3)])
  moreover have "str_at s p = Inr c"
    unfolding p by (rule str_at_drop [OF drop_add [OF drop_add [OF lay(4)]]])
  ultimately show ?thesis using k by (simp only: parse_object_loop.simps ebind_simps prod.case ToString.simps not_True_eq_False if_False simp_thms Let_def)
qed


text \<open>\<open>member_body\<close> is the text of the members without the padding of the first one.\<close>

definition member_body :: "fp_lib \<Rightarrow> nat \<Rightarrow> (string \<times> JSON) list \<Rightarrow> string" where
  "member_body fp d m = drop (2 * d) (dump_members fp d True m)"

lemma member_body_Cons:
  "member_body fp d ((k, v) # m) =
   DQ # k @ DQ # '' : '' @ dump fp (d + 1) v @ dump_members fp d False m"
  by (simp add: member_body_def)

lemma dump_members_body:
  "dump_members fp d True (x # m) = replicate (2 * d) CHR '' '' @ member_body fp d (x # m)"
  "dump_members fp d False (x # m) =
   CHR '','' # (NL # replicate (2 * d) CHR '' '') @ member_body fp d (x # m)"
  by (cases x; simp add: member_body_def)+

lemma parse_object_loop_dump:
  assumes "\<And>k v. (k, v) \<in> set m \<Longrightarrow> parses fp v \<and> JSONType v \<noteq> CFloating \<and> json_escape k = k"
    and "m \<noteq> []" and "sorted_wrt (<) (map fst (acc @ m))"
    and "drop i s = ws @ member_body fp d m @ NL # pad @ CHR ''}'' # q"
    and "list_all isspace ws" "list_all isspace pad"
    and "n > 3 * (length s - i) + 1"
  shows "parse_object_loop fp n s i acc =
    Inr (Object (acc @ m), i + length ws + length (member_body fp d m) + length pad + 2)"
  using assms
proof (induction m arbitrary: i acc ws n)
  case (Cons x m)
  obtain k v where x: "x = (k, v)" by force
  obtain n' where n: "n = Suc n'" "n' > 3 * (length s - i)" using Cons.prems(7) by (cases n) auto
  let ?V = "dump fp (d + 1) v"
  have hyps: "JSONType v \<noteq> CFloating" "json_escape k = k" "parses fp v"
    using Cons.prems(1) [of k v] x by simp_all
  have ins: "map_insert k v acc = acc @ [(k, v)]"
    using Cons.prems(3) x by (intro map_insert_last) (simp add: sorted_wrt_append)
  show ?case
  proof (cases m)
    case Nil
    have "drop i s = ws @ DQ # k @ DQ # '' : '' @ ?V @ (NL # pad) @ CHR ''}'' # q"
      using Cons.prems(4) x Nil by (simp add: member_body_Cons)
    from parse_object_loop_member [OF this Cons.prems(5) _ _ _ hyps(2,1,3) n(2) refl, of acc]
    show ?thesis using Cons.prems(6) ins x Nil
      by (simp add: n Let_def member_body_Cons del: parse_object_loop.simps)
  next
    case (Cons y ys)
    let ?ws = "NL # replicate (2 * d) CHR '' ''"
    let ?t = "?ws @ member_body fp d m @ NL # pad @ CHR ''}'' # q"
    let ?p = "i + length ws + length k + 5 + length ?V + length ([] :: string)"
    have d: "drop i s = ws @ DQ # k @ DQ # '' : '' @ ?V @ [] @ CHR '','' # ?t"
      using Cons.prems(4) x Cons by (simp add: member_body_Cons dump_members_body(2))
    have t: "drop (Suc ?p) s = ?t"
      using drop_Suc_Cons [OF drop_add [OF member_layout(4) [OF d], simplified]] by simp
    have fuel: "n' > 3 * (length s - Suc ?p) + 1"
      using n(2) length_drop_bound [OF d] by simp
    have sub: "parses fp v \<and> JSONType v \<noteq> CFloating \<and> json_escape k = k" if "(k, v) \<in> set m" for k v
      using that Cons.prems(1) [of k v] by simp
    have "parse_object_loop fp n' s (Suc ?p) (acc @ [(k, v)]) = Inr (Object ((acc @ [(k, v)]) @ m),
        Suc ?p + length ?ws + length (member_body fp d m) + length pad + 2)"
      by (rule Cons.IH [OF sub _ _ t _ _ fuel])
        (use Cons.prems(3,6) x Cons in \<open>auto simp: list_all_iff\<close>)
    with parse_object_loop_member [OF d Cons.prems(5) _ _ _ hyps(2,1,3) n(2) refl, of acc]
    show ?thesis using ins x Cons
      by (simp add: n Let_def member_body_Cons dump_members_body(2) del: parse_object_loop.simps)
  qed
qed simp

fun json_ok :: "JSON \<Rightarrow> bool" where
  "json_ok (Object m) \<longleftrightarrow> sorted_wrt (<) (map fst m) \<and>
     (\<forall>x \<in> set m. json_escape (fst x) = fst x \<and> json_ok (snd x))"
| "json_ok (Array xs) \<longleftrightarrow> (\<forall>x \<in> set xs. json_ok x)"
| "json_ok (Floating d) \<longleftrightarrow> False"
| "json_ok (Integral i) \<longleftrightarrow> in_long i"
| "json_ok _ \<longleftrightarrow> True"

lemma json_ok_not_Floating: "json_ok j \<Longrightarrow> JSONType j \<noteq> CFloating"
  by (cases j) auto

lemma parse_next_hd:
  assumes "drop i s = ws @ c # t" "list_all isspace ws" "\<not> isspace c" "n > 0"
  shows "parse_next fp n s i =
   (let i = i + length ws; n = n - 1 in if c = CHR ''['' then parse_array fp n s i
         else if c = CHR ''{'' then parse_object fp n s i
         else if c = DQ then parse_string s i
         else if c = CHR ''t'' \<or> c = CHR ''f'' then Inr (parse_bool s i)
         else if c = CHR ''n'' then Inr (parse_null s i)
         else if is_digit c \<or> c = CHR ''-'' then parse_number fp s i
         else Inr (Null, i))"
  using consume_ws_drop [OF assms(1-3)] str_at_drop [OF drop_add [OF assms(1)]] assms(4)
  by (cases n) (simp_all add: Let_def)

lemma parsesI:
  assumes "\<And>d s i n ws q. \<lbrakk>drop i s = ws @ dump fp d v @ q; drop (i + length ws) s = dump fp d v @ q;
      list_all isspace ws; JSONType v = CIntegral \<Longrightarrow> q \<noteq> [] \<and> number_end (hd q); n > 3 * (length s - i)\<rbrakk>
    \<Longrightarrow> parse_next fp n s i = Inr (v, i + length ws + length (dump fp d v))"
  shows "parses fp v"
  unfolding parses_def using assms drop_add by blast

lemma parses_Object:
  assumes "sorted_wrt (<) (map fst m)"
    and "\<And>k v. (k, v) \<in> set m \<Longrightarrow> parses fp v \<and> JSONType v \<noteq> CFloating \<and> json_escape k = k"
  shows "parses fp (Object m)"
proof (rule parsesI, goal_cases)
  case (1 d s i n ws q)
  let ?pad = "drop 2 (replicate (2 * d) CHR '' '')" and ?i = "i + length ws"
  obtain n' where n: "n = Suc n'" "n' \<ge> 3 * (length s - i)" using 1(5) by (cases n) auto
  have len: "length s - i \<ge> length ws + 2" using length_drop_bound [OF 1(1)] by simp
  then obtain n'' where n'': "n' = Suc n''" using n by (cases n') auto
  have sp: "list_all isspace (NL # ?pad)" by (auto simp: list_all_iff)
  have d: "drop (Suc ?i) s = NL # dump_members fp d True m @ NL # ?pad @ CHR ''}'' # q"
    using 1(2) drop_Suc_Cons [of ?i s "CHR ''{''"] by simp
  have "parse_object fp n' s ?i =
      Inr (Object m, i + length ws + length (dump fp d (Object m)))"
  proof (cases m)
    case Nil
    then have "drop (Suc ?i) s = (NL # NL # ?pad) @ CHR ''}'' # q" using d by simp
    from consume_ws_drop [OF this] str_at_drop [OF drop_add [OF this]] sp Nil show ?thesis
      by (simp add: n'' Make_def SetType_def del: parse_object_loop.simps)
  next
    case (Cons x m')
    let ?w = "NL # replicate (2 * d) CHR '' ''"
    have w: "list_all isspace ?w" by (auto simp: list_all_iff)
    have "drop (Suc ?i) s = ?w @ member_body fp d m @ NL # ?pad @ CHR ''}'' # q"
      using d Cons by (simp add: dump_members_body(1))
    moreover obtain r where "member_body fp d m = DQ # r"
      using Cons by (cases x) (simp add: member_body_Cons)
    ultimately have at: "consume_ws s (Suc ?i) = Inr (Suc ?i + length ?w)"
        "str_at s (Suc ?i + length ?w) = Inr DQ"
      and d': "drop (Suc ?i + length ?w) s = [] @ member_body fp d m @ NL # ?pad @ CHR ''}'' # q"
      using consume_ws_drop [of "Suc ?i" s ?w DQ] w drop_add [of "Suc ?i" s ?w]
      by (auto intro: str_at_drop)
    have "parse_object_loop fp n'' s (Suc ?i + length ?w) [] = Inr (Object ([] @ m),
        Suc ?i + length ?w + length ([] :: string) + length (member_body fp d m) + length ?pad + 2)"
    proof (rule parse_object_loop_dump [OF _ _ _ d'])
      show "parses fp v \<and> JSONType v \<noteq> CFloating \<and> json_escape k = k" if "(k, v) \<in> set m" for k v
        using that assms(2) by auto
      show "n'' > 3 * (length s - (Suc ?i + length ?w)) + 1" using n n'' len by simp
    qed (use assms(1) sp Cons in simp_all)
    with at show ?thesis using Cons
      by (simp add: n'' dump_members_body(1) del: parse_object_loop.simps)
  qed
  then show ?case using 1(1,3) parse_next_hd [of i s ws _ _ n fp]
    by (simp add: Let_def n del: parse_next.simps parse_object.simps parse_array.simps)
qed

lemma parses_Array:
  assumes "\<And>x. x \<in> set xs \<Longrightarrow> parses fp x \<and> JSONType x \<noteq> CFloating"
  shows "parses fp (Array xs)"
proof (rule parsesI, goal_cases)
  case (1 d s i n ws q)
  let ?i = "i + length ws"
  obtain n' where n: "n = Suc n'" "n' \<ge> 3 * (length s - i)" using 1(5) by (cases n) auto
  have len: "length s - i \<ge> length ws + 2" using length_drop_bound [OF 1(1)] by simp
  then obtain n'' where n'': "n' = Suc n''" using n by (cases n') auto
  have d: "drop (Suc ?i) s = [] @ dump_elements fp d True xs @ CHR '']'' # q"
    using 1(2) drop_Suc_Cons [of ?i s "CHR ''[''"] by simp
  have "parse_array fp n' s ?i = Inr (Array xs, i + length ws + length (dump fp d (Array xs)))"
  proof (cases xs)
    case Nil
    with d consume_ws_drop [of "Suc ?i" s "[]" "CHR '']''" q] show ?thesis
      by (simp add: n'' Make_def SetType_def str_at_drop del: parse_array_loop.simps)
  next
    case (Cons x xs')
    then obtain c t where c: "dump fp (d + 1) x = c # t" "\<not> isspace c" "c \<noteq> CHR '']''"
      using dump_hd [of x fp "d + 1"] assms by auto
    with d Cons consume_ws_drop [of "Suc ?i" s "[]" c] have at: "consume_ws s (Suc ?i) = Inr (Suc ?i)"
      "str_at s (Suc ?i) = Inr c" by (auto intro: str_at_drop)
    have "parse_array_loop fp n'' s (Suc ?i) [] = Inr (Array ([] @ xs),
        Suc (Suc ?i + length ([] :: string) + length (dump_elements fp d True xs)))"
      by (rule parse_array_loop_dump [OF _ _ d]) (use assms Cons n n'' len in auto)
    with at c(3) show ?thesis by (simp add: n'' del: parse_array_loop.simps)
  qed
  then show ?case using 1(1,3) parse_next_hd [of i s ws _ _ n fp]
    by (simp add: Let_def n del: parse_next.simps parse_object.simps parse_array.simps)
qed

lemma parses_Integral:
  assumes "in_long k"
  shows "parses fp (Integral k)"
proof (rule parsesI, goal_cases)
  case (1 d s i n ws q)
  obtain c t where c: "to_string k = c # t" "is_digit c \<or> c = CHR ''-''" by (rule to_string_hd)
  have "parse_number fp s (i + length ws) = Inr (Integral k, i + length ws + length (to_string k))"
    using assms 1 by (cases q) (auto intro!: parse_number_drop)
  moreover have "c \<notin> {CHR ''['', CHR ''{'', DQ, CHR ''t'', CHR ''f'', CHR ''n''} \<and> \<not> isspace c"
    using c(2) by (auto simp: is_digit_def less_eq_char_def)
  ultimately show ?case using 1 c parse_next_hd [of i s ws c "t @ q" n fp] by (simp add: Let_def)
qed

lemma json_ok_parses: "json_ok j \<Longrightarrow> parses fp j"
proof (induction j)
  case Null
  show ?case by (rule parsesI) (simp add: parse_next_hd Let_def parse_null_def)
next
  case (Object m)
  then show ?case using json_ok_not_Floating by (intro parses_Object) fastforce+
next
  case (Array xs)
  then show ?case using json_ok_not_Floating by (intro parses_Array) auto
next
  case (String t)
  show ?case
  proof (rule parsesI, goal_cases)
    case (1 d s i n ws q)
    with parse_next_string [of i s ws t q fp "n - 1"] show ?case by simp
  qed
next
  case (Integral k)
  then show ?case by (intro parses_Integral) simp
next
  case (Boolean b)
  show ?case by (rule parsesI) (cases b; simp add: parse_next_hd Let_def parse_bool_def)
qed simp

subsection \<open>Object access\<close>

lemma map_of_map_insert:
  "sorted_wrt (<) (map fst m) \<Longrightarrow>
   map_of (map_insert k v m) k' = (if k' = k then Some v else map_of m k')"
  by (induction m) (auto simp: map_of_eq_None_iff dest!: map_of_SomeD)

lemma set_map_insert: "set (map_insert k v m) \<subseteq> insert (k, v) (set m)"
  by (induction k v m rule: map_insert.induct) (simp_all, blast+)

lemma keys_map_insert: "fst ` set (map_insert k v m) = insert k (fst ` set m)"
  by (induction k v m rule: map_insert.induct) (simp_all add: insert_commute)

lemma sorted_map_insert:
  "sorted_wrt (<) (map fst m) \<Longrightarrow> sorted_wrt (<) (map fst (map_insert k v m))"
proof (induction k v m rule: map_insert.induct)
  case (2 k v k' v' m)
  have above: "\<forall>y \<in> fst ` set (map_insert k v m). k' < y" if "k' < k"
    unfolding keys_map_insert using "2.prems" that by simp
  show ?case
  proof (cases k k' rule: linorder_cases)
    case less
    then show ?thesis using "2.prems" by (auto intro: less_trans)
  next
    case equal
    then show ?thesis using "2.prems" by simp
  next
    case greater
    then have "sorted_wrt (<) (map fst (map_insert k v m))" using 2 by simp
    with greater above show ?thesis by (auto dest: less_asym)
  qed
qed simp

lemma object_access_simps [simp]:
  "set_key k v (Object m) = Object (map_insert k v m)" "set_key k v Null = Object [(k, v)]"
  "index_key k (Object m) = (case map_of m k of None \<Rightarrow> Null | Some v \<Rightarrow> v)"
  "json_append v (Array xs) = Array (xs @ [v])" "Make CArray = Array []" "Make CObject = Object []"
  by (simp_all add: set_key_def index_key_def json_append_def SetType_def Make_def)

lemma index_key_set_key:
  "json_ok j \<Longrightarrow> index_key k (set_key k' v j) = (if k = k' then v else index_key k j)"
  by (cases j) (auto simp: index_key_def set_key_def SetType_def map_of_map_insert)

lemma json_ok_set_key:
  assumes "json_ok j" "json_ok v" "json_escape k = k"
  shows "json_ok (set_key k v j)"
proof -
  let ?m = "members (SetType CObject j)"
  have "json_ok (Object ?m)" using assms(1) by (cases j) (simp_all add: SetType_def)
  with assms(2,3) set_map_insert [of k v ?m] show ?thesis
    unfolding set_key_def by (auto simp: sorted_map_insert)
qed

lemma json_ok_append: "json_ok j \<Longrightarrow> json_ok v \<Longrightarrow> json_ok (json_append v j)"
  by (cases j) (auto simp: json_append_def SetType_def)

subsection \<open>Properties\<close>

text \<open>Whatever follows the value is not read.\<close>

lemma Load_dump_append:
  assumes "json_ok j" "JSONType j \<noteq> CIntegral"
  shows "JSON_Load fp (json_dump fp j @ q) = Inr j"
proof -
  have "parse_next fp (load_fuel (json_dump fp j @ q)) (json_dump fp j @ q) 0 = Inr (j, length (json_dump fp j))"
    using json_ok_parses [OF assms(1), of fp, unfolded parses_def, rule_format,
        of 0 "json_dump fp j @ q" "[]" 1 q "load_fuel (json_dump fp j @ q)"] assms(2)
    by (simp add: json_dump_def load_fuel_def)
  then show ?thesis by (simp add: JSON_Load_def)
qed

lemma Load_dump: "json_ok j \<Longrightarrow> JSONType j \<noteq> CIntegral \<Longrightarrow> JSON_Load fp (json_dump fp j) = Inr j"
  using Load_dump_append [of j fp "[]"] by simp

lemma json_dump_inj:
  assumes "json_dump fp j = json_dump fp j'" "json_ok j" "json_ok j'"
    and "JSONType j \<noteq> CIntegral" "JSONType j' \<noteq> CIntegral"
  shows "j = j'"
proof -
  have "Inr j = JSON_Load fp (json_dump fp j)" by (simp add: Load_dump assms(2,4))
  also have "\<dots> = Inr j'" unfolding assms(1) by (simp add: Load_dump assms(3,5))
  finally show ?thesis by simp
qed

lemma stol_Nil [simp]: "stol [] = Inl InvalidArgument"
  by code_simp

lemma parse_exp_chars_drop:
  "drop i s = t @ z # q \<Longrightarrow> list_all is_digit t \<Longrightarrow> number_end z \<Longrightarrow>
   parse_exp_chars s i v = Inr (Some (v @ t), Suc (i + length t))"
proof (induction t arbitrary: i v)
  case Nil
  then show ?case using number_end_not [of z] by (subst parse_exp_chars.simps) (simp add: str_at_drop)
next
  case (Cons x t)
  have "drop (Suc i) s = t @ z # q" using Cons.prems(1) drop_Suc_Cons by fastforce
  with Cons show ?case by (subst parse_exp_chars.simps) (simp add: str_at_drop)
qed

text \<open>A text that starts with a number is handed to \<open>parse_number\<close>.\<close>

lemma JSON_Load_is_number:
  "JSON_Load fp (to_string n @ q) = ebind (parse_number fp (to_string n @ q) 0) (\<lambda>(j, i). Inr j)"
proof -
  obtain c t where c: "to_string n = c # t" "is_digit c \<or> c = CHR ''-''" by (rule to_string_hd)
  then have "c \<notin> {CHR ''['', CHR ''{'', DQ, CHR ''t'', CHR ''f'', CHR ''n''} \<and> \<not> isspace c"
    by (auto simp: is_digit_def less_eq_char_def)
  with c parse_next_hd [of 0 "to_string n @ q" "[]" c "t @ q" "load_fuel (to_string n @ q)" fp] show ?thesis
    by (simp add: JSON_Load_def load_fuel_def Let_def del: parse_next.simps)
qed

text \<open>The exponent \<open>c # cs\<close> is read as \<open>cs\<close>.\<close>

lemma JSON_Load_number:
  assumes "list_all is_digit cs" "in_long n" "is_digit c" "e \<in> {CHR ''e'', CHR ''E''}" "number_end z"
  shows "JSON_Load fp (to_string n @ e # c # cs @ z # q) =
    ebind (lift_num (stol cs)) (\<lambda>k. Inr (if cs = [] then Integral n else Floating (fp_of_long fp n k)))"
proof -
  let ?s = "to_string n @ e # c # cs @ z # q" and ?l = "length (to_string n)"
  have e: "\<not> is_digit e" "e \<noteq> CHR ''-''" "e \<noteq> CHR ''.''" using assms(4) by (auto simp: is_digit_def less_eq_char_def)
  have 1: "parse_number_chars ?s 0 [] False = Inr (to_string n, False, e, Suc ?l)"
    using parse_number_chars_drop [of 0 ?s "to_string n" e "c # cs @ z # q" "[]" False] e to_string_number_chars by simp
  have 2: "str_at ?s (Suc ?l) = Inr c" by (rule str_at_drop [where q = "cs @ z # q"]) simp
  have 3: "parse_exp_chars ?s (Suc (Suc ?l)) [] = Inr (Some cs, Suc (Suc (Suc ?l) + length cs))"
    using parse_exp_chars_drop [of "Suc (Suc ?l)" ?s cs z q "[]"] assms(1,5) by simp
  have "c \<noteq> CHR ''-''" using assms(3) by auto
  with 1 2 3 assms(2,4) show ?thesis
    unfolding JSON_Load_is_number parse_number_def
    by (cases "lift_num (stol cs)") (auto simp: Let_def number_value_def lift_num_def stol_to_string)
qed

lemma JSON_Load_bare_number: "JSON_Load fp (to_string n) = Inr Null"
proof -
  have stop: "parse_number_chars s i v d = Inr (v @ t, d, NUL, Suc (i + length t))"
    if "drop i s = t" "i \<le> length s" "list_all (\<lambda>c. c = CHR ''-'' \<or> is_digit c) t" for s i v d t
    using that
  proof (induction t arbitrary: i v)
    case Nil
    then have "str_at s i = Inr NUL" by (simp add: str_at_def)
    then show ?case by (subst parse_number_chars.simps) simp
  next
    case (Cons x t)
    have "drop (Suc i) s = t" "Suc i \<le> length s"
      using Cons.prems(1,2) drop_Suc_Cons by (fastforce, metis Suc_leI drop_all leI list.distinct(1))
    with Cons show ?case by (subst parse_number_chars.simps) (simp add: str_at_drop)
  qed
  have "parse_number_chars (to_string n) 0 [] False = Inr (to_string n, False, NUL, Suc (length (to_string n)))"
    using stop [of 0 "to_string n"] to_string_number_chars by simp
  then show ?thesis
    using JSON_Load_is_number [of fp n "[]"]
    by (simp add: parse_number_def number_end_def isspace_def Make_def SetType_def)
qed

lemma to_string_digits_nonneg: "list_all is_digit (to_string (int k))"
  by (auto simp: list_all_iff to_string_def dest: nat_to_string_digits)

text \<open>
  C16.  \<open>JSON::Load\<close> reads back what \<open>dump\<close> printed: for every value without floating-point members whose
  integers fit a \<open>long\<close> and whose keys need no escaping, other than a bare integer, parsing the printed
  text returns the same value.
\<close>

theorem json_roundtrip:
  "json_ok j \<Longrightarrow> JSONType j \<noteq> CIntegral \<Longrightarrow> JSON_Load fp (json_dump fp j) = Inr j"
  by (rule Load_dump)

theorem json_roundtrip_witness:
  "JSON_Load fp_example (json_dump fp_example (Object [(''ID'', Integral (- 7)), (''INPUT'', Array [String [DQ, NL], Boolean True])]))
     = Inr (Object [(''ID'', Integral (- 7)), (''INPUT'', Array [String [DQ, NL], Boolean True])])"
  by (rule json_roundtrip) (simp_all add: json_escape_def json_escape_char_def in_long_def LONG_MAX_def LONG_MIN_def)

text \<open>
  C17.  The parser terminates on every text: with the fuel \<open>JSON_Load\<close> supplies, the only possible
  failures are the ones of the code, a read behind the terminator or a number \<open>std::stol\<close> refuses.
\<close>

theorem json_load_total:
  "(\<exists>j. JSON_Load fp s = Inr j) \<or> JSON_Load fp s \<in> {Inl ReadPastEnd, Inl StoInvalid, Inl StoRange}"
  using JSON_Load_no_FuelOut [of fp s] json_error.exhaust by (cases "JSON_Load fp s") auto

text \<open>
  C22.  How a number with an exponent is read: the loop of \<open>parse_number\<close> takes one character after the
  \<open>e\<close> and drops it before it collects the digits.  For every mantissa \<open>n\<close> and digit \<open>c\<close>, an exponent
  that is the single digit \<open>c\<close> raises \<open>invalid_argument\<close>, and the exponent \<open>c\<close> followed by the digits of
  \<open>k\<close> is read as \<open>k\<close>.  Every integer that ends the text is read as null.
\<close>

theorem json_number_exponent:
  assumes "in_long n" "in_long (int k)" "is_digit c" "e \<in> {CHR ''e'', CHR ''E''}" "number_end z"
  shows "JSON_Load fp (to_string n @ e # c # z # q) = Inl StoInvalid \<and>
    JSON_Load fp (to_string n @ e # c # to_string (int k) @ z # q) = Inr (Floating (fp_of_long fp n (int k))) \<and>
    JSON_Load fp (to_string n) = Inr Null"
proof (intro conjI)
  note num = JSON_Load_number [OF _ assms(1,3,4,5), of _ fp]
  show "JSON_Load fp (to_string n @ e # c # z # q) = Inl StoInvalid"
    using num [of "[]" q] by (simp add: lift_num_def num_err_def)
  show "JSON_Load fp (to_string n @ e # c # to_string (int k) @ z # q) = Inr (Floating (fp_of_long fp n (int k)))"
    using num [of "to_string (int k)" q] to_string_digits_nonneg [of k] assms(2)
    by (simp add: lift_num_def stol_to_string)
  show "JSON_Load fp (to_string n) = Inr Null"
    by (rule JSON_Load_bare_number)
qed

theorem json_number_exponent_witness:
  "JSON_Load fp_example ''3e5]'' = Inl StoInvalid \<and>
    JSON_Load fp_example ''3e52]'' = Inr (Floating (fp_of_long fp_example 3 2)) \<and>
    JSON_Load fp_example ''3'' = Inr Null"
proof -
  have "to_string 3 = ''3''" "to_string 2 = ''2''" by code_simp+
  with json_number_exponent [of 3 2 "CHR ''5''" "CHR ''e''" "CHR '']''" fp_example "[]"] show ?thesis
    by (simp add: in_long_def LONG_MAX_def LONG_MIN_def is_digit_def less_eq_char_def number_end_def)
qed

end
