(* ===== verification/Codec.thy ===== *)
theory Codec
  imports Json
begin

text \<open>
  The binary formats that the enclaves exchange (\<open>executor/Utility.hpp\<close>): a vector of strings as
  NUL-terminated pieces, an inverted index as a sequence of 32-bit words with 0 as delimiter, and
  the file that joins both behind a length field.  A \<open>char\<close> buffer with its length is a
  \<^typ>\<open>string\<close>.  Sizes are \<open>int\<close>s of 32 bits: a total is reduced by \<open>c_int\<close> where the code stores it, an
  array of negative size is refused, and a copy into an array that became too small is a fault.

  The iteration order of an \<open>unordered_map\<close> is not specified; \<open>Index2Binary\<close> and its callers take it
  as the argument \<open>ord\<close>, a function that permutes the entries (\<open>is_order\<close>).
\<close>

subsection \<open>Faults\<close>

text \<open>
  What stops an operation: an exception of the C++ library, or an access outside an object.
\<close>

datatype fault =
    FJson json_error  \<comment> \<open>raised or hit by the JSON parser\<close>
  | FNum num_error    \<comment> \<open>\<open>std::invalid_argument\<close>, \<open>std::out_of_range\<close> of the number parsers\<close>
  | FSubstr           \<comment> \<open>\<open>std::out_of_range\<close> of \<open>string::substr\<close>\<close>
  | FAlloc            \<comment> \<open>\<open>std::length_error\<close> or \<open>std::bad_alloc\<close>\<close>
  | FWrite            \<comment> \<open>a write behind a buffer\<close>
  | FRead             \<comment> \<open>a read outside an object\<close>
  | FIndet            \<comment> \<open>use of an indeterminate value\<close>
  | FReply            \<comment> \<open>an error reply of the Kanban server\<close>
  | FExit             \<comment> \<open>the process exits\<close>

definition lift_json :: "json_error + 'a \<Rightarrow> fault + 'a" where
  "lift_json r = (case r of Inl e \<Rightarrow> Inl (FJson e) | Inr x \<Rightarrow> Inr x)"

lemma lift_json_Inr [simp]: "lift_json (Inr x) = Inr x"
  by (simp add: lift_json_def)

subsection \<open>32-bit values in memory\<close>

definition dword_chars :: "DWORD \<Rightarrow> string" where
  "dword_chars w = (let n = unat w in
     [char_of n, char_of (n div 2 ^ 8), char_of (n div 2 ^ 16), char_of (n div 2 ^ 24)])"

fun chars_dword :: "string \<Rightarrow> DWORD" where
  "chars_dword [a, b, c, d] =
     word_of_nat (of_char a + 2 ^ 8 * of_char b + 2 ^ 16 * of_char c + 2 ^ 24 * of_char d)"
| "chars_dword _ = 0"

fun chars_dwords :: "string \<Rightarrow> DWORD list" where
  "chars_dwords (a # b # c # d # cs) = chars_dword [a, b, c, d] # chars_dwords cs"
| "chars_dwords _ = []"

subsection \<open>Strings\<close>

text \<open>The second loop: \<open>bin\<close> is the offset of the pointer into \<open>ret\<close>.  Writing no byte is always allowed.\<close>

fun Digest2Binary_copy :: "string \<Rightarrow> nat \<Rightarrow> string list \<Rightarrow> fault + string" where
  "Digest2Binary_copy ret bin [] = Inr ret"
| "Digest2Binary_copy ret bin (di # digest) =
     (if di \<noteq> [] \<and> bin + length di > length ret then Inl FWrite
      else Digest2Binary_copy (take bin ret @ strncpy di (length di) @ drop (bin + length di) ret)
        (bin + length di + 1) digest)"

definition Digest2Binary :: "string list \<Rightarrow> fault + string" where
  "Digest2Binary digest =
     (let sum_size = fold (\<lambda>di sum_size. c_int (sum_size + int (length di) + 1)) digest 0
      in if sum_size < 0 then Inl FAlloc
         else Digest2Binary_copy (replicate (nat sum_size) NUL) 0 digest)"

definition TEMP_DIGEST_LEN :: nat where
  "TEMP_DIGEST_LEN = 64 * 1024"

text \<open>
  The loop over the input: \<open>acc\<close> is the content of \<open>c_digest\<close> before \<open>pos\<close>, followed by zeros up to
  the size of the buffer.  Storing at \<open>pos = TEMP_DIGEST_LEN\<close> writes behind the buffer, and
  \<open>digest = c_digest\<close> on a full buffer has no terminator to find.
\<close>

fun Binary2Digest_loop :: "string \<Rightarrow> string list \<Rightarrow> string \<Rightarrow> fault + string list" where
  "Binary2Digest_loop acc tbl [] = Inr tbl"
| "Binary2Digest_loop acc tbl (c # cs) =
     (if c \<noteq> NUL then
        if length acc < TEMP_DIGEST_LEN then Binary2Digest_loop (acc @ [c]) tbl cs else Inl FWrite
      else
        if length acc < TEMP_DIGEST_LEN then Binary2Digest_loop [] (tbl @ [acc]) cs else Inl FRead)"

text \<open>\<open>digest_bin\<close> is everything from the pointer to the end of its buffer; a size that is not positive reads nothing.\<close>

definition Binary2Digest :: "string \<Rightarrow> int \<Rightarrow> string list \<Rightarrow> fault + string list" where
  "Binary2Digest digest_bin digest_size digest_tbl =
     ebind (Binary2Digest_loop [] digest_tbl (take (nat digest_size) digest_bin)) (\<lambda>digest_tbl.
       if nat digest_size > length digest_bin then Inl FRead else Inr digest_tbl)"

subsection \<open>The index\<close>

type_synonym index_table = "(DWORD \<times> DWORD list) list"

definition is_order :: "(index_table \<Rightarrow> index_table) \<Rightarrow> bool" where
  "is_order ord \<longleftrightarrow> (\<forall>t. mset (ord t) = mset t)"

definition flatten_index :: "index_table \<Rightarrow> DWORD list" where
  "flatten_index t = concat (map (\<lambda>(k, vs). k # vs @ [0]) t)"

definition Index2Binary :: "(index_table \<Rightarrow> index_table) \<Rightarrow> index_table \<Rightarrow> fault + string" where
  "Index2Binary ord index =
     (let src = concat (map dword_chars (flatten_index (ord index)));
          new_size = c_int (int (length (flatten_index (ord index))) * 4)
      in if new_size < 0 then Inl FAlloc else Inr (take (nat new_size) src))"

fun Binary2Index_loop :: "bool \<Rightarrow> DWORD \<Rightarrow> index_table \<Rightarrow> DWORD list \<Rightarrow> index_table" where
  "Binary2Index_loop is_first key tbl [] = tbl"
| "Binary2Index_loop is_first key tbl (i # is) =
     (if is_first then Binary2Index_loop False i tbl is
      else if i = 0 then Binary2Index_loop True key tbl is
      else Binary2Index_loop False key (tbl_push key i tbl) is)"

text \<open>
  \<open>index_bin\<close> is everything from the pointer to the end of its buffer.  A negative size becomes a
  huge \<open>size_t\<close> in the division; the vector has room for the whole words only, and \<open>memcpy\<close> copies
  all bytes.
\<close>

definition Binary2Index :: "string \<Rightarrow> int \<Rightarrow> index_table \<Rightarrow> fault + index_table" where
  "Binary2Index index_bin index_size index_tbl =
     (if index_size < 0 then Inl FAlloc
      else if nat index_size > length index_bin then Inl FRead
      else if nat index_size mod 4 \<noteq> 0 then Inl FWrite
      else Inr (Binary2Index_loop True 0 index_tbl
             (chars_dwords (take (nat index_size) index_bin))))"

subsection \<open>The joined file\<close>

definition Merge2Binary :: "(index_table \<Rightarrow> index_table) \<Rightarrow> string list \<Rightarrow> index_table \<Rightarrow> fault + string" where
  "Merge2Binary ord digest_tbl index_tbl =
     ebind (Digest2Binary digest_tbl) (\<lambda>b_digest.
       ebind (Index2Binary ord index_tbl) (\<lambda>b_index.
         let b_output_size = c_int (4 + int (length b_index) + int (length b_digest)) in
         if b_output_size < 0 then Inl FAlloc
         else if nat b_output_size < 4 + length b_index + length b_digest then Inl FWrite
         else Inr (dword_chars (word_of_nat (length b_index)) @ b_index @ b_digest)))"

text \<open>
  The opposite direction is written out in \<open>ecall_querier_setup\<close> and twice in \<open>ecall_do_merge\<close>: the
  length field, the index behind it, and the digests in the rest of the size the caller gives as an \<open>int\<close>.
\<close>

definition digest_rest :: "string \<Rightarrow> int \<Rightarrow> int" where
  "digest_rest b b_index_size = c_int (c_int (int (length b)) - (4 + b_index_size))"

definition split_file :: "string \<Rightarrow> fault + (index_table \<times> string list)" where
  "split_file b =
     (if length b < 4 then Inl FRead
      else let b_index_size = sint (chars_dword (take 4 b)) in
        ebind (Binary2Index (drop 4 b) b_index_size []) (\<lambda>index_tbl.
          ebind (Binary2Digest (drop (4 + nat b_index_size) b) (digest_rest b b_index_size) []) (\<lambda>digest_tbl.
            Inr (index_tbl, digest_tbl))))"

subsection \<open>Lemmas on words\<close>

lemma length_dword_chars [simp]: "length (dword_chars w) = 4"
  by (simp add: dword_chars_def Let_def)

lemma base256:
  fixes n :: nat
  assumes "n < 2 ^ 32"
  shows "n mod 256 + 256 * (n div 256 mod 256) + 65536 * (n div 65536 mod 256) +
    16777216 * (n div 16777216 mod 256) = n"
proof -
  define q where "q = n div 256"
  define r where "r = q div 256"
  define u where "u = r div 256"
  have d: "n div 65536 = r" "n div 16777216 = u"
    unfolding q_def r_def u_def by (simp_all flip: div_mult2_eq)
  have "u < 256" using assms unfolding d(2) [symmetric] by (simp add: less_mult_imp_div_less)
  moreover have "n = 256 * q + n mod 256" "q = 256 * r + q mod 256" "r = 256 * u + r mod 256"
    unfolding q_def r_def u_def by simp_all
  ultimately show ?thesis unfolding d q_def [symmetric] by (simp only: mod_less)
qed

lemma chars_dword_dword_chars [roundtrip_simps]: "chars_dword (dword_chars w) = w"
proof -
  have "unat w < 2 ^ LENGTH(32)" by (rule unsigned_less)
  then show ?thesis using base256 [of "unat w"] by (simp add: dword_chars_def Let_def of_char_of)
qed

lemma chars_dwords_concat:
  "length cs < 4 \<Longrightarrow> chars_dwords (concat (map dword_chars ws) @ cs) = ws"
proof (induction ws)
  case Nil
  then show ?case by (cases cs rule: chars_dwords.cases) auto
next
  case (Cons w ws)
  obtain a b c d where w: "dword_chars w = [a, b, c, d]"
    by (simp add: dword_chars_def Let_def)
  then have "chars_dword [a, b, c, d] = w" using chars_dword_dword_chars by metis
  with Cons w show ?case by simp
qed

subsection \<open>Strings and back\<close>

lemma Binary2Digest_loop_piece:
  "NUL \<notin> set d \<Longrightarrow> length acc + length d < TEMP_DIGEST_LEN \<Longrightarrow>
   Binary2Digest_loop acc tbl (d @ NUL # cs) = Binary2Digest_loop [] (tbl @ [acc @ d]) cs"
  by (induction d arbitrary: acc) auto

lemma Binary2Digest_loop_long:
  "NUL \<notin> set d \<Longrightarrow> length acc \<le> TEMP_DIGEST_LEN \<Longrightarrow> length acc + length d \<ge> TEMP_DIGEST_LEN \<Longrightarrow>
   Binary2Digest_loop acc tbl (d @ NUL # cs) \<in> {Inl FWrite, Inl FRead}"
  by (induction d arbitrary: acc) auto

text \<open>The bytes that \<open>Digest2Binary\<close> lays out and their number.\<close>

definition digest_bytes :: "string list \<Rightarrow> string" where
  "digest_bytes digest = concat (map (\<lambda>di. strncpy di (length di) @ [NUL]) digest)"

definition digest_total :: "string list \<Rightarrow> nat" where
  "digest_total digest = sum_list (map (\<lambda>di. length di + 1) digest)"

lemma digest_simps [simp]:
  "digest_bytes [] = []" "digest_bytes (d # ds) = strncpy d (length d) @ NUL # digest_bytes ds"
  "digest_total [] = 0" "digest_total (d # ds) = length d + 1 + digest_total ds"
  by (simp_all add: digest_bytes_def digest_total_def)

lemma length_digest_bytes [simp]: "length (digest_bytes ds) = digest_total ds"
  by (induction ds) auto

lemma digest_total_append [simp]: "digest_total (ds @ ds') = digest_total ds + digest_total ds'"
  by (simp add: digest_total_def)

lemma digest_sum_size:
  "in_int n \<Longrightarrow> fold (\<lambda>di n. c_int (n + int (length di) + 1)) ds n = c_int (n + int (digest_total ds))"
proof (induction ds arbitrary: n)
  case (Cons d ds)
  have "fold (\<lambda>di n. c_int (n + int (length di) + 1)) ds (c_int (n + int (length d) + 1)) =
      c_int (c_int (n + int (length d) + 1) + int (digest_total ds))" by (rule Cons.IH [OF c_int_range])
  also have "\<dots> = c_int (n + int (length d) + 1 + int (digest_total ds))" by (rule c_int_add)
  finally show ?case by (simp add: add.assoc add.left_commute)
qed simp

lemma Digest2Binary_copy_fits:
  "Digest2Binary_copy (pre @ replicate (digest_total ds) NUL) (length pre) ds = Inr (pre @ digest_bytes ds)"
proof (induction ds arbitrary: pre)
  case (Cons d ds)
  let ?pre = "pre @ strncpy d (length d) @ [NUL]"
  have "replicate (digest_total (d # ds)) NUL = replicate (length d) NUL @ NUL # replicate (digest_total ds) NUL"
    by (simp only: digest_simps add.assoc replicate_add) simp
  with Cons.IH [of ?pre] show ?case by (simp del: digest_simps(4))
qed simp

lemma Digest2Binary_copy_room:
  "Digest2Binary_copy ret bin ds = Inr b \<Longrightarrow> bin + digest_total ds \<le> max bin (length ret) + length ds"
proof (induction ret bin ds rule: Digest2Binary_copy.induct)
  case (2 ret bin d ds)
  let ?ret = "take bin ret @ strncpy d (length d) @ drop (bin + length d) ret"
  have c: "\<not> (d \<noteq> [] \<and> bin + length d > length ret)" using "2.prems" by (auto split: if_splits)
  then have l: "length ?ret = length ret" by (cases "d = []") auto
  from "2.IH" [OF c] "2.prems" c have "bin + length d + 1 + digest_total ds \<le> max (bin + length d + 1) (length ret) + length ds"
    unfolding l by simp
  moreover have "max (bin + length d + 1) (length ret) \<le> max bin (length ret) + 1"
    using c by (cases "d = []") auto
  ultimately show ?case by (simp only: digest_simps list.size)
qed simp

lemma Digest2Binary_fits: "digest_total ds < 2 ^ 31 \<Longrightarrow> Digest2Binary ds = Inr (digest_bytes ds)"
  using Digest2Binary_copy_fits [of "[]" ds] by (simp add: Digest2Binary_def Let_def digest_sum_size in_int_def)

text \<open>With fewer than \<open>2 ^ 31\<close> strings a total of \<open>2 ^ 31\<close> bytes or more never succeeds.\<close>

lemma Digest2Binary_overflows:
  assumes "digest_total ds \<ge> 2 ^ 31" "digest_total ds < 2 ^ 32 \<or> length ds < 2 ^ 31"
  shows "Digest2Binary ds = Inl FAlloc \<or> digest_total ds \<ge> 2 ^ 32 \<and> Digest2Binary ds = Inl FWrite"
proof (cases "digest_total ds < 2 ^ 32")
  case True
  then have "c_int (int (digest_total ds)) < 0" using assms(1) by (intro c_int_upper) simp_all
  then show ?thesis by (simp add: Digest2Binary_def Let_def digest_sum_size in_int_def)
next
  case False
  let ?n = "c_int (int (digest_total ds))"
  have n: "?n < 2 ^ 31" using c_int_range [of "int (digest_total ds)"] by (simp add: in_int_def)
  have e: "Digest2Binary_copy ret bin ds \<in> {Inl FWrite} \<union> range Inr" for ret bin
    by (induction ret bin ds rule: Digest2Binary_copy.induct) auto
  have "Digest2Binary_copy (replicate (nat ?n) NUL) 0 ds \<noteq> Inr b" for b
    using Digest2Binary_copy_room [of "replicate (nat ?n) NUL" 0 ds b] assms(2) False n by auto
  with e have "Digest2Binary_copy (replicate (nat ?n) NUL) 0 ds = Inl FWrite" by blast
  then show ?thesis using False by (auto simp: Digest2Binary_def Let_def digest_sum_size in_int_def)
qed

lemma Digest2Binary_Inr:
  assumes "Digest2Binary ds = Inr b" "length ds < 2 ^ 31"
  shows "digest_total ds < 2 ^ 31" "b = digest_bytes ds"
proof -
  show *: "digest_total ds < 2 ^ 31" using Digest2Binary_overflows [of ds] assms by (cases "digest_total ds < 2 ^ 31") auto
  from Digest2Binary_fits [OF *] assms(1) show "b = digest_bytes ds" by simp
qed

lemma Binary2Digest_loop_bytes:
  "\<forall>d \<in> set ds. NUL \<notin> set d \<and> length d < TEMP_DIGEST_LEN \<Longrightarrow>
   Binary2Digest_loop [] tbl (digest_bytes ds @ cs) = Binary2Digest_loop [] (tbl @ ds) cs"
  by (induction ds arbitrary: tbl) (auto simp: Binary2Digest_loop_piece)

lemma Binary2Digest_loop_too_long:
  assumes "list_all (\<lambda>d. NUL \<notin> set d) ds" "\<not> list_all (\<lambda>d. length d < TEMP_DIGEST_LEN) ds"
  shows "Binary2Digest_loop [] [] (digest_bytes ds) \<in> {Inl FWrite, Inl FRead}"
proof -
  from assms(2) have "\<exists>d \<in> set ds. \<not> length d < TEMP_DIGEST_LEN" by (simp add: list_all_iff)
  then obtain ds1 d ds2 where ds: "ds = ds1 @ d # ds2" "\<not> length d < TEMP_DIGEST_LEN"
    "\<forall>x \<in> set ds1. length x < TEMP_DIGEST_LEN"
    using split_list_first_prop [of ds "\<lambda>d. \<not> length d < TEMP_DIGEST_LEN"] by blast
  then have e: "digest_bytes ds = digest_bytes ds1 @ d @ NUL # digest_bytes ds2"
    using assms(1) by (simp add: digest_bytes_def)
  have "\<forall>x \<in> set ds1. NUL \<notin> set x \<and> length x < TEMP_DIGEST_LEN" "NUL \<notin> set d"
    using assms(1) ds by (auto simp: list_all_iff)
  then show ?thesis
    using e ds(2) Binary2Digest_loop_long [of d "[]" "[] @ ds1" "digest_bytes ds2"] by (simp add: Binary2Digest_loop_bytes)
qed

definition digests_ok :: "string list \<Rightarrow> bool" where
  "digests_ok ds \<longleftrightarrow> list_all (\<lambda>d. NUL \<notin> set d \<and> length d < TEMP_DIGEST_LEN) ds"

lemma Binary2Digest_bytes:
  "digests_ok ds \<Longrightarrow> Binary2Digest (digest_bytes ds) (int (digest_total ds)) tbl = Inr (tbl @ ds)"
  using Binary2Digest_loop_bytes [of ds tbl "[]"] by (simp add: Binary2Digest_def digests_ok_def list_all_iff)

text \<open>A buffer whose length is passed as an \<open>int\<close>.\<close>

lemma Binary2Digest_input:
  "digests_ok ds \<Longrightarrow> digest_total ds < 2 ^ 31 \<Longrightarrow>
   Binary2Digest (digest_bytes ds) (c_int (int (length (digest_bytes ds)))) tbl = Inr (tbl @ ds)"
  by (simp add: Binary2Digest_bytes in_int_def)

lemma digest_total_le: "digests_ok ds \<Longrightarrow> digest_total ds \<le> length ds * TEMP_DIGEST_LEN"
  by (induction ds) (auto simp: digests_ok_def)

interpretation digest_codec: codec digest_bytes "\<lambda>b. Binary2Digest b (int (length b)) []" digests_ok
  by unfold_locales (simp add: Binary2Digest_bytes)

subsection \<open>The index and back\<close>

lemma Binary2Index_loop_postings:
  "0 \<notin> set vs \<Longrightarrow> Binary2Index_loop False k t (vs @ 0 # ws) =
     Binary2Index_loop True k (fold (\<lambda>(k, v). tbl_push k v) (map (Pair k) vs) t) ws"
  by (induction vs arbitrary: t) auto

definition index_pairs :: "index_table \<Rightarrow> (DWORD \<times> DWORD) list" where
  "index_pairs t = concat (map (\<lambda>(k, vs). map (Pair k) vs) t)"

definition index_ok :: "index_table \<Rightarrow> bool" where
  "index_ok t \<longleftrightarrow> distinct (map fst t) \<and> (\<forall>x \<in> set t. 0 \<notin> set (snd x))"

text \<open>Reading a flattened index pushes its postings one after the other.\<close>

lemma Binary2Index_loop_flatten:
  "\<forall>x \<in> set t. 0 \<notin> set (snd x) \<Longrightarrow>
   Binary2Index_loop True k t0 (flatten_index t) =
     fold (\<lambda>(k, v). tbl_push k v) (index_pairs t) t0"
proof (induction t arbitrary: t0 k)
  case (Cons x t)
  then show ?case
    by (cases x) (simp add: flatten_index_def index_pairs_def Binary2Index_loop_postings)
qed (simp add: flatten_index_def index_pairs_def)

lemma index_pairs_of_key:
  "distinct (map fst t) \<Longrightarrow> map snd (filter (\<lambda>(k', v). k' = k) (index_pairs t)) = tbl_get k t"
proof (induction t)
  case (Cons x t)
  obtain k' vs where x: "x = (k', vs)" by force
  have "filter (\<lambda>(k', v). k' = k) (map (Pair k') vs) = (if k' = k then map (Pair k') vs else [])"
    by (induction vs) auto
  with Cons x show ?case by (auto simp: index_pairs_def tbl_get_notin comp_def)
qed (simp add: index_pairs_def tbl_get_def)

lemma index_ok_order:
  assumes "is_order ord" "index_ok t"
  shows "index_ok (ord t)" "tbl_get k (ord t) = tbl_get k t"
proof -
  have m: "mset (ord t) = mset t" using assms(1) by (simp add: is_order_def)
  then have "distinct (map fst (ord t)) = distinct (map fst t)"
    by (metis mset_eq_imp_distinct_iff mset_map)
  with assms(2) mset_eq_setD [OF m] show "index_ok (ord t)" by (simp add: index_ok_def)
  then show "tbl_get k (ord t) = tbl_get k t"
    using tbl_get_perm [OF m] by (simp add: index_ok_def)
qed

lemma length_concat_dwords: "length (concat (map dword_chars ws)) = 4 * length ws"
  by (induction ws) auto

definition index_bytes :: "index_table \<Rightarrow> nat" where
  "index_bytes t = 4 * sum_list (map (\<lambda>x. length (snd x) + 2) t)"

lemma length_flatten: "4 * length (flatten_index t) = index_bytes t"
  by (induction t) (auto simp: flatten_index_def index_bytes_def)

text \<open>The bytes of an index and of a file, and the size of a file.\<close>

definition index_chars :: "(index_table \<Rightarrow> index_table) \<Rightarrow> index_table \<Rightarrow> string" where
  "index_chars ord t = concat (map dword_chars (flatten_index (ord t)))"

definition file_bytes :: "string list \<Rightarrow> index_table \<Rightarrow> nat" where
  "file_bytes ds t = 4 + index_bytes t + digest_total ds"

definition file_chars :: "(index_table \<Rightarrow> index_table) \<Rightarrow> string list \<Rightarrow> index_table \<Rightarrow> string" where
  "file_chars ord ds t = dword_chars (word_of_nat (index_bytes t)) @ index_chars ord t @ digest_bytes ds"

lemma flatten_order:
  assumes "is_order ord"
  shows "4 * length (flatten_index (ord t)) = index_bytes t"
proof -
  from assms have "mset (map (\<lambda>x. length (snd x) + 2) (ord t)) = mset (map (\<lambda>x. length (snd x) + 2) t)"
    by (simp add: is_order_def)
  then show ?thesis unfolding length_flatten index_bytes_def by (metis sum_mset_sum_list)
qed

lemma length_index_chars: "is_order ord \<Longrightarrow> length (index_chars ord t) = index_bytes t"
  by (simp add: index_chars_def length_concat_dwords flatten_order)

lemma length_file_chars: "is_order ord \<Longrightarrow> length (file_chars ord ds t) = file_bytes ds t"
  by (simp add: file_chars_def file_bytes_def length_index_chars)

lemma Index2Binary_size:
  "is_order ord \<Longrightarrow> Index2Binary ord t =
     (if c_int (int (index_bytes t)) < 0 then Inl FAlloc
      else Inr (take (nat (c_int (int (index_bytes t)))) (index_chars ord t)))"
  using flatten_order [of ord t, THEN arg_cong [where f = int]]
  by (simp add: Index2Binary_def Let_def index_chars_def mult.commute)

text \<open>A file of less than \<open>2 ^ 31\<close> bytes is written as it should be; a longer one, below \<open>2 ^ 32\<close>, is refused.\<close>

lemma Merge2Binary_fits:
  assumes "is_order ord" "file_bytes ds t < 2 ^ 31"
  shows "Merge2Binary ord ds t = Inr (file_chars ord ds t)"
proof -
  have "Digest2Binary ds = Inr (digest_bytes ds)" "in_int (int (index_bytes t))" "in_int (4 + int (index_bytes t) + int (digest_total ds))"
    using assms(2) by (auto simp: file_bytes_def in_int_def intro: Digest2Binary_fits)
  with assms(1) show ?thesis
    by (simp add: Merge2Binary_def Index2Binary_size length_index_chars file_chars_def Let_def)
qed

lemma Merge2Binary_overflows:
  assumes "is_order ord" "2 ^ 31 \<le> file_bytes ds t" "file_bytes ds t < 2 ^ 32"
  shows "Merge2Binary ord ds t = Inl FAlloc"
proof (cases "digest_total ds < 2 ^ 31 \<and> index_bytes t < 2 ^ 31")
  case True
  then have d: "Digest2Binary ds = Inr (digest_bytes ds)" "in_int (int (index_bytes t))"
    by (auto simp: in_int_def intro: Digest2Binary_fits)
  have "c_int (4 + int (index_bytes t) + int (digest_total ds)) < 0"
    using assms(2,3) by (intro c_int_upper) (simp_all add: file_bytes_def)
  with d assms(1) show ?thesis by (simp add: Merge2Binary_def Index2Binary_size length_index_chars Let_def)
next
  case False
  have "Digest2Binary ds = Inl FAlloc" if "\<not> digest_total ds < 2 ^ 31"
    using Digest2Binary_overflows [of ds] that assms(3) by (auto simp: file_bytes_def)
  moreover have "Index2Binary ord t = Inl FAlloc" if "\<not> index_bytes t < 2 ^ 31"
    using c_int_upper [of "int (index_bytes t)"] that assms(1,3) by (simp add: Index2Binary_size file_bytes_def)
  moreover have "Digest2Binary ds = Inr (digest_bytes ds)" if "digest_total ds < 2 ^ 31"
    using that by (rule Digest2Binary_fits)
  ultimately show ?thesis using False by (cases "digest_total ds < 2 ^ 31") (simp_all add: Merge2Binary_def)
qed

lemma Binary2Index_chars:
  assumes "is_order ord" "index_ok t"
  obtains t' where
    "Binary2Index (index_chars ord t @ cs) (int (index_bytes t)) t0 = Inr t'"
    "\<And>k. tbl_get k t' = tbl_get k t0 @ tbl_get k t"
proof
  let ?t' = "fold (\<lambda>(k, v). tbl_push k v) (index_pairs (ord t)) t0"
  have bytes: "index_bytes t mod 4 = 0" by (simp add: index_bytes_def)
  have "chars_dwords (take (index_bytes t) (index_chars ord t @ cs)) = flatten_index (ord t)"
    using chars_dwords_concat [of "[]" "flatten_index (ord t)"] length_index_chars [OF assms(1), of t]
    by (simp add: index_chars_def)
  then show "Binary2Index (index_chars ord t @ cs) (int (index_bytes t)) t0 = Inr ?t'"
    using index_ok_order(1) [OF assms] length_index_chars [OF assms(1), of t] bytes
    by (simp add: Binary2Index_def index_ok_def Binary2Index_loop_flatten)
  show "tbl_get k ?t' = tbl_get k t0 @ tbl_get k t" for k
    using index_ok_order [OF assms] by (simp add: tbl.get_fold_push index_pairs_of_key index_ok_def)
qed

lemma split_file_chars:
  assumes "is_order ord" "index_ok t" "digests_ok ds" "file_bytes ds t < 2 ^ 31"
  obtains t' where "split_file (file_chars ord ds t) = Inr (t', ds)" "\<And>k. tbl_get k t' = tbl_get k t"
proof -
  obtain t' where t': "Binary2Index (index_chars ord t @ digest_bytes ds) (int (index_bytes t)) [] = Inr t'"
    "\<And>k. tbl_get k t' = tbl_get k [] @ tbl_get k t"
    using Binary2Index_chars [OF assms(1,2)] by blast
  let ?f = "file_chars ord ds t"
  have len: "length (index_chars ord t) = index_bytes t" "length ?f = file_bytes ds t"
    using assms(1) by (simp_all add: length_index_chars length_file_chars)
  have "sint (word_of_nat (index_bytes t) :: DWORD) = int (index_bytes t)"
    using assms(4) by (subst signed_of_nat) (simp add: signed_take_bit_int_eq_self file_bytes_def)
  then have h: "sint (chars_dword (take 4 ?f)) = int (index_bytes t)" "drop 4 ?f = index_chars ord t @ digest_bytes ds"
    "drop (4 + index_bytes t) ?f = digest_bytes ds"
    by (simp_all add: file_chars_def roundtrip_simps len)
  have "digest_rest ?f (int (index_bytes t)) = int (digest_total ds)"
    using assms(4) by (simp add: digest_rest_def len in_int_def file_bytes_def)
  then have "split_file ?f = Inr (t', ds)"
    using t'(1) Binary2Digest_bytes [OF assms(3), of "[]"] h len(2) by (simp add: split_file_def Let_def file_bytes_def)
  with t'(2) show thesis using that by (simp add: tbl.get_empty)
qed

subsection \<open>Properties\<close>

text \<open>
  C19.  \<open>Digest2Binary\<close> and \<open>Binary2Digest\<close> on strings without NUL, fewer than \<open>2 ^ 31\<close> of them: when the strings and
  their terminators have less than \<open>2 ^ 31\<close> bytes together, the first one writes that many bytes and the second one
  reads back exactly the strings if each is shorter than the 64 KiB scratch buffer, and otherwise runs over the end of
  that buffer; with \<open>2 ^ 31\<close> bytes or more the \<open>int\<close> total overflows and \<open>Digest2Binary\<close> fails.
\<close>

theorem digest_binary_exact:
  assumes "list_all (\<lambda>d. NUL \<notin> set d) ds" "length ds < 2 ^ 31"
  shows "if digest_total ds \<ge> 2 ^ 31 then Digest2Binary ds \<in> {Inl FAlloc, Inl FWrite}
    else \<exists>b. Digest2Binary ds = Inr b \<and> length b = digest_total ds \<and>
      (if list_all (\<lambda>d. length d < TEMP_DIGEST_LEN) ds
       then Binary2Digest b (int (length b)) [] = Inr ds
       else Binary2Digest b (int (length b)) [] \<in> {Inl FWrite, Inl FRead})"
proof (cases "digest_total ds \<ge> 2 ^ 31")
  case True
  then show ?thesis using Digest2Binary_overflows [of ds] assms(2) by auto
next
  case False
  then have b: "Digest2Binary ds = Inr (digest_bytes ds)" by (simp add: Digest2Binary_fits)
  show ?thesis
  proof (cases "list_all (\<lambda>d. length d < TEMP_DIGEST_LEN) ds")
    case True
    with assms have "digests_ok ds" by (simp add: digests_ok_def list_all_iff)
    with b False True show ?thesis by (simp add: Binary2Digest_bytes)
  next
    case long: False
    then have "Binary2Digest_loop [] [] (digest_bytes ds) \<in> {Inl FWrite, Inl FRead}"
      by (rule Binary2Digest_loop_too_long [OF assms(1)])
    then have "Binary2Digest (digest_bytes ds) (int (digest_total ds)) [] \<in> {Inl FWrite, Inl FRead}"
      by (auto simp: Binary2Digest_def)
    with b False long show ?thesis by simp
  qed
qed

theorem digest_binary_exact_witness:
  "\<exists>b. Digest2Binary [''ab'', [], ''c''] = Inr b \<and> length b = 6 \<and> Binary2Digest b 6 [] = Inr [''ab'', [], ''c'']"
  using digest_binary_exact [of "[''ab'', [], ''c'']"] by (auto simp: TEMP_DIGEST_LEN_def)

text \<open>
  C18.  \<open>Merge2Binary\<close> and the code that splits a file again, in any iteration order of the hash table: a file of less
  than \<open>2 ^ 31\<close> bytes, the largest an \<open>int\<close> counts, is written and is split into the same digests and an index that
  gives every word the same list of documents; for a size from \<open>2 ^ 31\<close> up to \<open>2 ^ 32\<close> the size is negative and
  \<open>Merge2Binary\<close> fails.
\<close>

theorem index_file_roundtrip:
  assumes "is_order ord" "index_ok t" "digests_ok ds" "file_bytes ds t < 2 ^ 32"
  shows "if file_bytes ds t < 2 ^ 31
    then \<exists>b t'. Merge2Binary ord ds t = Inr b \<and> length b = file_bytes ds t \<and> split_file b = Inr (t', ds) \<and>
      (\<forall>k. tbl_get k t' = tbl_get k t)
    else Merge2Binary ord ds t = Inl FAlloc"
proof (cases "file_bytes ds t < 2 ^ 31")
  case True
  obtain t' where "split_file (file_chars ord ds t) = Inr (t', ds)" "\<And>k. tbl_get k t' = tbl_get k t"
    using split_file_chars [OF assms(1-3) True] by blast
  with True show ?thesis using Merge2Binary_fits [OF assms(1)] length_file_chars [OF assms(1)] by auto
next
  case False
  with assms show ?thesis using Merge2Binary_overflows [OF assms(1)] by simp
qed

theorem index_file_roundtrip_witness:
  "\<exists>b t'. Merge2Binary rev [''doc one'', ''two''] [(7, [1, 2]), (0, [2])] = Inr b \<and> length b = 44 \<and>
     split_file b = Inr (t', [''doc one'', ''two'']) \<and> tbl_get 7 t' = [1, 2] \<and> tbl_get 0 t' = [2]"
proof -
  let ?t = "[(7, [1, 2]), (0, [2])] :: index_table"
  have f: "file_bytes [''doc one'', ''two''] ?t = 44" by (simp add: file_bytes_def index_bytes_def)
  have "tbl_get 7 ?t = [1, 2]" "tbl_get 0 ?t = [2]" by (simp_all add: tbl_get_def)
  with index_file_roundtrip [of rev ?t "[''doc one'', ''two'']"] f show ?thesis
    by (auto simp: is_order_def index_ok_def digests_ok_def TEMP_DIGEST_LEN_def)
qed

end
