(* ===== verification/Vlb.thy ===== *)
theory Vlb
  imports Codec
begin

unbundle bit_operations_syntax

text \<open>
  The variable-length byte encoding of posting lists (\<open>executor/Enclave/enclave_common.hpp\<close>, and the
  marshalling of \<open>sgx-executor/Enclave2/enclave_common.hpp\<close>): every value is stored as its difference
  to the previous one, seven bits per byte, low bits first, with the top bit as continuation mark.

  A read pointer into the byte vector is its offset; \<open>PIndet\<close> is the pointer that the copy
  constructor leaves uninitialised.  The copy constructor leaves \<open>m_bInit\<close> uninitialised too: the
  value it happens to have is the argument \<open>g\<close> of \<open>VLB_copy\<close>.
\<close>

subsection \<open>Values\<close>

function ZipDword :: "DWORD \<Rightarrow> byte list" where
  "ZipDword uValue =
     (let bOut = ucast (uValue AND 0x7f); uValue' = drop_bit 7 uValue in
      if uValue' \<noteq> 0 then (bOut OR 0x80) # ZipDword uValue' else [bOut])"
  by pat_completeness auto
termination
proof (relation "measure unat", goal_cases)
  case (2 w x xa)
  then have "drop_bit 7 w \<noteq> 0" by simp
  then have "w \<noteq> 0" by auto
  then have "unat w \<noteq> 0" using unat_eq_0 by blast
  then show ?case using 2 by (simp add: drop_bit_eq_div unat_div_distrib)
qed simp

declare ZipDword.simps [simp del]

text \<open>
  \<open>UnzipDword\<close>: the bytes from the pointer on, the sum so far and the shift.  Shifting a 32-bit value
  by 32 or more is undefined.
\<close>

fun UnzipDword_loop :: "DWORD \<Rightarrow> nat \<Rightarrow> byte list \<Rightarrow> fault + (DWORD \<times> byte list)" where
  "UnzipDword_loop uValue iOff [] = Inl FRead"
| "UnzipDword_loop uValue iOff (bIn # pIn) =
     (if iOff \<ge> 32 then Inl FIndet
      else let uValue' = uValue + push_bit iOff (ucast (bIn AND 0x7f)) in
        if bIn AND 0x80 \<noteq> 0 then UnzipDword_loop uValue' (iOff + 7) pIn else Inr (uValue', pIn))"

definition UnzipDword :: "byte list \<Rightarrow> fault + (DWORD \<times> byte list)" where
  "UnzipDword pIn = UnzipDword_loop 0 0 pIn"

subsection \<open>The coder\<close>

datatype vlb_ptr = PNull | PHit nat | PIndet

record VLB_coder =
  m_pHits :: "byte list"
  m_uLastHit :: DWORD
  m_iLeft :: DWORD
  m_uLast :: DWORD
  m_pCur :: vlb_ptr
  m_bInit :: bool

definition VLB_new :: VLB_coder where
  "VLB_new = \<lparr>m_pHits = [], m_uLastHit = 0, m_iLeft = 0, m_uLast = 0, m_pCur = PNull, m_bInit = False\<rparr>"

definition VLB_copy :: "bool \<Rightarrow> VLB_coder \<Rightarrow> VLB_coder" where
  "VLB_copy g src = \<lparr>m_pHits = m_pHits src, m_uLastHit = m_uLastHit src, m_iLeft = m_iLeft src,
     m_uLast = m_uLast src, m_pCur = PIndet, m_bInit = g\<rparr>"

definition Zip :: "DWORD \<Rightarrow> VLB_coder \<Rightarrow> VLB_coder" where
  "Zip uValue c =
     (if uValue - m_uLastHit c = 0 then c
      else let c' = c\<lparr>m_pHits := m_pHits c @ ZipDword (uValue - m_uLastHit c),
                      m_uLastHit := uValue, m_iLeft := m_iLeft c + 1\<rparr>
        in if \<not> m_bInit c' then c'\<lparr>m_pCur := PHit 0, m_bInit := True\<rparr> else c')"

definition Unzip :: "VLB_coder \<Rightarrow> fault + (DWORD \<times> VLB_coder)" where
  "Unzip c =
     (if m_iLeft c = 0 then Inr (0, c)
      else let c = (if \<not> m_bInit c then c\<lparr>m_pCur := PHit 0, m_bInit := True\<rparr> else c) in
        case m_pCur c of
          PHit off \<Rightarrow>
            ebind (UnzipDword (drop off (m_pHits c))) (\<lambda>(uValue, pIn).
              let c' = c\<lparr>m_pCur := PHit (length (m_pHits c) - length pIn),
                         m_uLast := m_uLast c + uValue, m_iLeft := m_iLeft c - 1\<rparr>
              in Inr (m_uLast c', c'))
        | _ \<Rightarrow> Inl FIndet)"

definition Length :: "VLB_coder \<Rightarrow> DWORD" where
  "Length c = m_iLeft c"

text \<open>\<open>for (uValue = tmp.Unzip(); uValue; uValue = tmp.Unzip())\<close>; every round but the last decrements \<open>m_iLeft\<close>.\<close>

lemma Unzip_decreases:
  assumes "Unzip c = Inr (v, c')" "v \<noteq> 0"
  shows "unat (m_iLeft c') < unat (m_iLeft c)"
proof -
  from assms have nz: "m_iLeft c \<noteq> 0" by (auto simp: Unzip_def)
  have "\<forall>z. Unzip c = Inr z \<longrightarrow> m_iLeft (snd z) = m_iLeft c - 1"
    unfolding Unzip_def using nz
    by (auto simp: Let_def split: vlb_ptr.splits if_splits)
  with assms have "m_iLeft c' = m_iLeft c - 1" by fastforce
  with nz show ?thesis by (simp add: unat_minus_one unat_gt_0)
qed

function Unzip_all :: "VLB_coder \<Rightarrow> fault + DWORD list" where
  "Unzip_all c =
     ebind (Unzip c) (\<lambda>(uValue, c').
       if uValue = 0 then Inr [] else ebind (Unzip_all c') (\<lambda>rest. Inr (uValue # rest)))"
  by pat_completeness auto
termination
  by (relation "measure (\<lambda>c. unat (m_iLeft c))") (auto dest: Unzip_decreases)

declare Unzip_all.simps [simp del]

definition Dump_VLB :: "bool \<Rightarrow> VLB_coder \<Rightarrow> fault + DWORD list" where
  "Dump_VLB g src = Unzip_all (VLB_copy g src)"

definition Load_VLB :: "DWORD list \<Rightarrow> VLB_coder \<Rightarrow> VLB_coder" where
  "Load_VLB src dest = fold Zip src dest"

text \<open>The scan of \<open>ConstantTime_Dump_VLB\<close>; \<open>src = i.second\<close> is the implicit assignment, which copies
  every field.\<close>

definition ConstantTime_Dump_VLB ::
    "bool \<Rightarrow> DWORD \<Rightarrow> (DWORD \<times> VLB_coder) list \<Rightarrow> fault + DWORD list" where
  "ConstantTime_Dump_VLB g wordID table =
     (let src = fold (\<lambda>(k, c) src. if wordID = k then c else src) table VLB_new
      in Unzip_all (VLB_copy g src))"

subsection \<open>Marshalling\<close>

definition dword_bytes :: "DWORD \<Rightarrow> byte list" where
  "dword_bytes w = map (\<lambda>c. of_char c) (dword_chars w)"

definition bytes_dword :: "byte list \<Rightarrow> DWORD" where
  "bytes_dword bs = chars_dword (map (\<lambda>b. char_of (unat b)) bs)"

definition marshall_VLB_to_buffer :: "VLB_coder \<Rightarrow> byte list" where
  "marshall_VLB_to_buffer src =
     m_pHits src @ dword_bytes (m_uLastHit src) @ dword_bytes (m_iLeft src) @
     dword_bytes (m_uLast src) @ dword_bytes (if m_bInit src then 1 else 0)"

text \<open>\<open>src\<close> is the coder the caller passes; its pointer is not touched.\<close>

definition unmarshall_buffer_VLB :: "byte list \<Rightarrow> VLB_coder \<Rightarrow> fault + VLB_coder" where
  "unmarshall_buffer_VLB buffer src =
     (if length buffer < 16 then Inl FAlloc
      else let vec_size = length buffer - 16; p1 = (\<lambda>i. bytes_dword (take 4 (drop (vec_size + 4 * i) buffer)))
        in Inr (src\<lparr>m_pHits := take vec_size buffer, m_uLastHit := p1 0, m_iLeft := p1 1,
                   m_uLast := p1 2, m_bInit := p1 3 \<noteq> 0\<rparr>))"

subsection \<open>One value and back\<close>

lemma low_bits:
  fixes w :: DWORD
  shows "ucast (ucast (w AND 0x7f) AND 0x7f :: byte) = w AND 0x7f"
    "ucast ((ucast (w AND 0x7f) OR 0x80) AND 0x7f :: byte) = w AND 0x7f"
    "ucast (w AND 0x7f) AND 0x80 = (0 :: byte)" "(ucast (w AND 0x7f) OR 0x80) AND 0x80 \<noteq> (0 :: byte)"
proof -
  have m: "0x7f = (mask 7 :: DWORD)" "0x7f = (mask 7 :: byte)" by (simp_all add: mask_eq_exp_minus_1)
  define h :: byte where "h = 0x80"
  have b: "bit h n \<longleftrightarrow> n = 7" for n
    unfolding h_def using bit_exp_iff [of 7 n, where ?'a = byte] by auto
  show "ucast (ucast (w AND 0x7f) AND 0x7f :: byte) = w AND 0x7f"
    "ucast ((ucast (w AND 0x7f) OR 0x80) AND 0x7f :: byte) = w AND 0x7f"
    "ucast (w AND 0x7f) AND 0x80 = (0 :: byte)"
    unfolding m h_def [symmetric] by (rule bit_word_eqI; auto simp: bit_simps b)+
  have "bit ((ucast (w AND 0x7f) OR h) AND h :: byte) 7"
    unfolding m by (simp add: bit_simps b)
  then show "(ucast (w AND 0x7f) OR 0x80) AND 0x80 \<noteq> (0 :: byte)" by (auto simp: h_def)
qed

lemma push_bit_split:
  fixes w :: DWORD
  shows "push_bit i (w AND 0x7f) + push_bit (i + 7) (drop_bit 7 w) = push_bit i w"
proof -
  have "w AND 0x7f = take_bit 7 w" by (simp add: take_bit_eq_mask mask_eq_exp_minus_1)
  then have "w = push_bit 7 (drop_bit 7 w) + (w AND 0x7f)"
    by (simp add: bits_ident)
  then have "push_bit i w = push_bit i (push_bit 7 (drop_bit 7 w)) + push_bit i (w AND 0x7f)"
    by (metis push_bit_add)
  then show ?thesis by (simp add: add.commute)
qed

lemma UnzipDword_loop_ZipDword:
  "iOff < 32 \<Longrightarrow> unat w < 2 ^ (32 - iOff) \<Longrightarrow>
   UnzipDword_loop u iOff (ZipDword w @ rest) = Inr (u + push_bit iOff w, rest)"
proof (induction w arbitrary: u iOff rule: ZipDword.induct)
  case (1 w)
  show ?case
  proof (cases "drop_bit 7 w = 0")
    case True
    then have "push_bit iOff (w AND 0x7f) = push_bit iOff w" using push_bit_split [of iOff w] by simp
    with True 1 show ?thesis by (subst ZipDword.simps) (simp add: Let_def low_bits)
  next
    case False
    then have "unat (drop_bit 7 w) \<noteq> 0" using unat_eq_0 by blast
    then have big: "unat w \<ge> 2 ^ 7" by (simp add: drop_bit_eq_div unat_div_distrib)
    have small: "iOff + 7 < 32"
    proof (rule ccontr)
      assume "\<not> iOff + 7 < 32"
      then have "(2 :: nat) ^ (32 - iOff) \<le> 2 ^ 7" by (intro power_increasing) auto
      with big "1.prems" show False by simp
    qed
    then have "32 - iOff = (32 - (iOff + 7)) + 7" by simp
    then have "(2 :: nat) ^ (32 - iOff) = 2 ^ (32 - (iOff + 7)) * 2 ^ 7"
      by (metis power_add)
    then have "unat (drop_bit 7 w) < 2 ^ (32 - (iOff + 7))"
      using "1.prems"(2) by (simp add: drop_bit_eq_div unat_div_distrib less_mult_imp_div_less)
    from "1.IH" [OF refl refl False small this, of "u + push_bit iOff (w AND 0x7f)"]
    show ?thesis using False "1.prems"(1) push_bit_split [of iOff w]
      by (subst ZipDword.simps) (simp add: Let_def low_bits add.assoc)
  qed
qed

lemma UnzipDword_ZipDword: "UnzipDword (ZipDword w @ rest) = Inr (w, rest)"
proof -
  have "unat w < 2 ^ LENGTH(32)" by (rule unsigned_less)
  then show ?thesis by (simp add: UnzipDword_def UnzipDword_loop_ZipDword)
qed

interpretation dword_vlb: codec ZipDword "\<lambda>bs. case UnzipDword bs of Inl e \<Rightarrow> Inl e | Inr (w, _) \<Rightarrow> Inr w" "\<lambda>_. True"
  using UnzipDword_ZipDword [of _ "[]"] by unfold_locales simp

subsection \<open>Lists and back\<close>

text \<open>\<open>vlb_keep l xs\<close> are the values \<open>Zip\<close> does not drop when \<open>l\<close> is the last one stored.\<close>

fun vlb_keep :: "DWORD \<Rightarrow> DWORD list \<Rightarrow> DWORD list" where
  "vlb_keep l [] = []"
| "vlb_keep l (x # xs) = (if x = l then vlb_keep l xs else x # vlb_keep x xs)"

fun vlb_bytes :: "DWORD \<Rightarrow> DWORD list \<Rightarrow> byte list" where
  "vlb_bytes l [] = []"
| "vlb_bytes l (x # xs) = ZipDword (x - l) @ vlb_bytes x xs"

lemma length_vlb_keep: "length (vlb_keep l xs) \<le> length xs"
  by (induction l xs rule: vlb_keep.induct) auto

lemma Load_VLB_fields:
  "m_pHits (Load_VLB xs c) = m_pHits c @ vlb_bytes (m_uLastHit c) (vlb_keep (m_uLastHit c) xs)"
  "m_iLeft (Load_VLB xs c) = m_iLeft c + of_nat (length (vlb_keep (m_uLastHit c) xs))"
  "m_uLast (Load_VLB xs c) = m_uLast c"
  unfolding Load_VLB_def
  by (induction xs arbitrary: c) (auto simp: Zip_def Let_def)

lemma of_nat_dword_nonzero: "0 < n \<Longrightarrow> n < 2 ^ 32 \<Longrightarrow> (of_nat n :: DWORD) \<noteq> 0"
  by (auto simp: word_of_nat_eq_0_iff dest: dvd_imp_le)

lemma Unzip_all_hits:
  assumes "m_bInit c" "m_pCur c = PHit off" "drop off (m_pHits c) = vlb_bytes (m_uLast c) ks @ r"
    and "off \<le> length (m_pHits c)" "m_iLeft c = of_nat (length ks)" "length ks < 2 ^ 32"
  shows "Unzip_all c = Inr (takeWhile (\<lambda>x. x \<noteq> 0) ks)"
  using assms
proof (induction ks arbitrary: c off)
  case Nil
  then show ?case by (subst Unzip_all.simps) (simp add: Unzip_def)
next
  case (Cons k ks)
  have nz: "m_iLeft c \<noteq> 0"
    unfolding Cons.prems(5) using Cons.prems(6) by (intro of_nat_dword_nonzero) simp_all
  let ?pIn = "vlb_bytes k ks @ r"
  let ?c = "c\<lparr>m_pCur := PHit (length (m_pHits c) - length ?pIn), m_uLast := k, m_iLeft := of_nat (length ks)\<rparr>"
  have un: "UnzipDword (drop off (m_pHits c)) = Inr (k - m_uLast c, ?pIn)"
    using Cons.prems(3) by (simp add: UnzipDword_ZipDword)
  then have "Unzip c = Inr (k, ?c)"
    using nz Cons.prems(1,2,5) by (simp add: Unzip_def Let_def)
  moreover have "Unzip_all ?c = Inr (takeWhile (\<lambda>x. x \<noteq> 0) ks)" if "k \<noteq> 0"
  proof (rule Cons.IH [where off = "length (m_pHits c) - length ?pIn"])
    have "length (drop off (m_pHits c)) = length (ZipDword (k - m_uLast c) @ ?pIn)"
      using Cons.prems(3) by simp
    then have "length (m_pHits c) - length ?pIn = off + length (ZipDword (k - m_uLast c))"
      using Cons.prems(4) by simp
    then show "drop (length (m_pHits c) - length ?pIn) (m_pHits ?c) = vlb_bytes (m_uLast ?c) ks @ r"
      using Cons.prems(3) by (simp add: drop_add)
  qed (use Cons.prems in simp_all)
  ultimately show ?case by (subst Unzip_all.simps) simp
qed

lemma Dump_VLB_Load_VLB:
  assumes "length xs < 2 ^ 32"
  shows "Dump_VLB False (Load_VLB xs VLB_new) = Inr (takeWhile (\<lambda>x. x \<noteq> 0) (vlb_keep 0 xs))"
proof -
  let ?src = "Load_VLB xs VLB_new" and ?ks = "vlb_keep 0 xs"
  let ?c = "VLB_copy False ?src"
  show ?thesis
  proof (cases "?ks = []")
    case True
    then have "m_iLeft ?c = 0" by (simp add: VLB_copy_def Load_VLB_fields VLB_new_def)
    with True show ?thesis unfolding Dump_VLB_def by (subst Unzip_all.simps) (simp add: Unzip_def)
  next
    case False
    let ?i = "?c\<lparr>m_pCur := PHit 0, m_bInit := True\<rparr>"
    have len: "length ?ks < 2 ^ 32" using assms length_vlb_keep [of 0 xs] by simp
    with False have "m_iLeft ?c \<noteq> 0"
      by (simp add: VLB_copy_def Load_VLB_fields VLB_new_def of_nat_dword_nonzero)
    then have "Unzip ?c = Unzip ?i" by (simp add: Unzip_def VLB_copy_def Let_def)
    then have "Unzip_all ?c = Unzip_all ?i" by (subst (1 2) Unzip_all.simps) simp
    also have "\<dots> = Inr (takeWhile (\<lambda>x. x \<noteq> 0) ?ks)"
      by (rule Unzip_all_hits [where off = 0 and r = "[]"])
        (use len in \<open>simp_all add: VLB_copy_def Load_VLB_fields VLB_new_def\<close>)
    finally show ?thesis by (simp add: Dump_VLB_def)
  qed
qed

text \<open>The scan keeps the last coder with the key.\<close>

lemma scan_finds:
  assumes "distinct (map fst tbl)"
  shows "fold (\<lambda>(k, c) src. if w = k then c else src) (map (\<lambda>(k, ys). (k, Load_VLB ys VLB_new)) tbl) src =
    (case map_of tbl w of None \<Rightarrow> src | Some ys \<Rightarrow> Load_VLB ys VLB_new)"
  using assms
proof (induction tbl arbitrary: src)
  case (Cons x tbl)
  obtain k ys where x: "x = (k, ys)" by force
  with Cons.prems have "w = k \<Longrightarrow> map_of tbl w = None" by (simp add: map_of_eq_None_iff)
  with Cons x show ?case by (cases "w = k") simp_all
qed simp

lemma vlb_keep_ascending: "sorted_wrt (<) (l # xs) \<Longrightarrow> vlb_keep l xs = xs"
  by (induction xs arbitrary: l) auto

lemma length_dword_bytes [simp]: "length (dword_bytes w) = 4"
  by (simp add: dword_bytes_def)

lemma unat_of_char_byte: "unat (of_char c :: byte) = of_char c"
proof -
  have "of_char c < (256 :: nat)" by (rule nat_of_char_less_256)
  then have "unat (word_of_nat (of_char c) :: byte) = of_char c"
    by (simp add: unsigned_of_nat take_bit_nat_eq_self)
  then show ?thesis by (metis of_nat_of_char)
qed

lemma bytes_dword_dword_bytes [roundtrip_simps]: "bytes_dword (dword_bytes w) = w"
  by (simp add: bytes_dword_def dword_bytes_def comp_def unat_of_char_byte roundtrip_simps)

lemma unmarshall_marshall:
  "unmarshall_buffer_VLB (marshall_VLB_to_buffer c) d = Inr (c\<lparr>m_pCur := m_pCur d\<rparr>)"
  by (cases c) (simp add: unmarshall_buffer_VLB_def marshall_VLB_to_buffer_def Let_def roundtrip_simps)

subsection \<open>Properties\<close>

text \<open>
  C20.  What the dump functions return after \<open>Load_VLB\<close>, provided the flag \<open>m_bInit\<close> that the copy constructor leaves
  uninitialised happens to be false in the copy: the stored values without repetitions of the previous one, up to the
  first zero.  Differences wrap around, so the values need not ascend.  The constant-time scan returns the list stored
  under the word, and the empty list for a word that is not in the table.
\<close>

theorem vlb_roundtrip:
  assumes "\<not> g" "length xs < 2 ^ 32" "distinct (map fst tbl)" "list_all (\<lambda>(k, ys). length ys < 2 ^ 32) tbl"
  shows "Dump_VLB g (Load_VLB xs VLB_new) = Inr (takeWhile (\<lambda>x. x \<noteq> 0) (vlb_keep 0 xs)) \<and>
    ConstantTime_Dump_VLB g w (map (\<lambda>(k, ys). (k, Load_VLB ys VLB_new)) tbl) =
      Inr (takeWhile (\<lambda>x. x \<noteq> 0) (vlb_keep 0 (case map_of tbl w of None \<Rightarrow> [] | Some ys \<Rightarrow> ys)))"
proof
  show "Dump_VLB g (Load_VLB xs VLB_new) = Inr (takeWhile (\<lambda>x. x \<noteq> 0) (vlb_keep 0 xs))"
    using Dump_VLB_Load_VLB [OF assms(2)] assms(1) by simp
  let ?ys = "case map_of tbl w of None \<Rightarrow> [] | Some ys \<Rightarrow> ys"
  have "length ?ys < 2 ^ 32"
    using assms(4) by (auto simp: list_all_iff dest!: map_of_SomeD split: option.splits)
  moreover have "ConstantTime_Dump_VLB g w (map (\<lambda>(k, ys). (k, Load_VLB ys VLB_new)) tbl) = Dump_VLB g (Load_VLB ?ys VLB_new)"
    using scan_finds [OF assms(3), of w VLB_new]
    by (simp add: ConstantTime_Dump_VLB_def Dump_VLB_def Let_def Load_VLB_def [of "[]"] split: option.splits)
  ultimately show "ConstantTime_Dump_VLB g w (map (\<lambda>(k, ys). (k, Load_VLB ys VLB_new)) tbl) =
      Inr (takeWhile (\<lambda>x. x \<noteq> 0) (vlb_keep 0 ?ys))"
    using Dump_VLB_Load_VLB [of ?ys] assms(1) by simp
qed

theorem vlb_roundtrip_witness:
  "Dump_VLB False (Load_VLB [3, 300, 300, 2, 4000000000] VLB_new) = Inr [3, 300, 2, 4000000000] \<and>
    ConstantTime_Dump_VLB False 7 [(5, Load_VLB [1] VLB_new), (7, Load_VLB [2, 9] VLB_new)] = Inr [2, 9]"
  using vlb_roundtrip [of False "[3, 300, 300, 2, 4000000000]" "[(5, [1]), (7, [2, 9])]" 7] by simp

text \<open>
  C21.  The copy constructor of \<open>VLB_coder\<close> does not initialise \<open>m_bInit\<close>: when the indeterminate flag
  happens to be set, the first \<open>Unzip\<close> of the copy reads through an indeterminate pointer.
\<close>

theorem vlb_copy_uninitialised:
  assumes "x \<noteq> 0" "length xs < 2 ^ 32 - 1"
  shows "Dump_VLB True (Load_VLB (x # xs) VLB_new) = Inl FIndet"
proof -
  have "length (vlb_keep x xs) < 2 ^ 32 - 1" using assms(2) length_vlb_keep [of x xs] by simp
  then have "m_iLeft (Load_VLB (x # xs) VLB_new) \<noteq> 0"
    using assms(1) of_nat_dword_nonzero [of "length (x # vlb_keep x xs)"]
    unfolding Load_VLB_fields by (simp add: VLB_new_def)
  then show ?thesis
    unfolding Dump_VLB_def by (subst Unzip_all.simps) (simp add: Unzip_def VLB_copy_def)
qed

theorem vlb_copy_uninitialised_witness: "Dump_VLB True (Load_VLB [5, 9] VLB_new) = Inl FIndet"
  using vlb_copy_uninitialised [of 5 "[9]"] by simp

end
