(* ===== verification/Intset.thy ===== *)
theory Intset
  imports Prelude
begin

text \<open>
  The integer sets of the Kanban server (\<open>kanban/src/intset.c\<close>): a sorted array of integers, all
  stored with the same width of 2, 4 or 8 bytes, which grows when a value does not fit.

  The model keeps the bytes: \<open>is_contents\<close> is the flexible array, values are read and written at
  byte positions in little-endian two's complement.  Fresh bytes of \<open>zrealloc\<close> are indeterminate:
  \<open>intsetResize\<close> and its callers take them as the argument \<open>junk\<close>.  The 32-bit byte count of
  \<open>intsetMoveTail\<close> is reduced modulo \<open>2 ^ 32\<close>.  \<open>elems\<close> is the abstraction to a list of integers.
  \<open>intsetValidateIntegrity\<close> works on the raw bytes of a buffer, header included, and gives \<open>None\<close> for a read outside it.
\<close>

subsection \<open>Layout\<close>

record intset =
  is_encoding :: nat
  is_length :: nat
  is_contents :: "byte list"

definition intsetValueEncoding :: "int \<Rightarrow> nat" where
  "intsetValueEncoding v =
     (if v < - (2 ^ 31) \<or> v > 2 ^ 31 - 1 then 8
      else if v < - (2 ^ 15) \<or> v > 2 ^ 15 - 1 then 4 else 2)"

definition le_bytes :: "nat \<Rightarrow> int \<Rightarrow> byte list" where
  "le_bytes n v = map (\<lambda>k. word_of_int (v div 256 ^ k)) [0..<n]"

definition le_int :: "nat \<Rightarrow> byte list \<Rightarrow> int" where
  "le_int n bs = signed_take_bit (8 * n - 1) (horner_sum uint 256 bs)"

definition get_at :: "nat \<Rightarrow> byte list \<Rightarrow> nat \<Rightarrow> int" where
  "get_at enc c pos = le_int enc (take enc (drop (pos * enc) c))"

definition put_at :: "nat \<Rightarrow> byte list \<Rightarrow> nat \<Rightarrow> int \<Rightarrow> byte list" where
  "put_at enc c pos v = take (pos * enc) c @ le_bytes enc v @ drop (pos * enc + enc) c"

definition intsetGetEncoded :: "intset \<Rightarrow> nat \<Rightarrow> nat \<Rightarrow> int" where
  "intsetGetEncoded is pos enc = get_at enc (is_contents is) pos"

definition intset_get :: "intset \<Rightarrow> nat \<Rightarrow> int" where
  "intset_get is pos = intsetGetEncoded is pos (is_encoding is)"

definition intset_set :: "intset \<Rightarrow> nat \<Rightarrow> int \<Rightarrow> intset" where
  "intset_set is pos v = is\<lparr>is_contents := put_at (is_encoding is) (is_contents is) pos v\<rparr>"

definition intsetNew :: intset where
  "intsetNew = \<lparr>is_encoding = 2, is_length = 0, is_contents = []\<rparr>"

definition intsetResize :: "byte \<Rightarrow> intset \<Rightarrow> nat \<Rightarrow> intset" where
  "intsetResize junk is len =
     (let size = len * is_encoding is; c = is_contents is
      in is\<lparr>is_contents := take size c @ replicate (size - length c) junk\<rparr>)"

subsection \<open>Search\<close>

text \<open>\<open>lo\<close> and \<open>hi\<close> are the variables \<open>min\<close> and \<open>max\<close> of the source.\<close>

function intsetSearch_loop :: "intset \<Rightarrow> int \<Rightarrow> int \<Rightarrow> int \<Rightarrow> int \<Rightarrow> int \<Rightarrow> int \<times> int \<times> int" where
  "intsetSearch_loop is value lo hi mid cur =
     (if hi \<ge> lo then
        let mid = (lo + hi) div 2; cur = intset_get is (nat mid) in
        if value > cur then intsetSearch_loop is value (mid + 1) hi mid cur
        else if value < cur then intsetSearch_loop is value lo (mid - 1) mid cur
        else (lo, mid, cur)
      else (lo, mid, cur))"
  by pat_completeness auto
termination
  by (relation "measure (\<lambda>(is, value, lo, hi, mid, cur). nat (hi - lo + 1))") auto

declare intsetSearch_loop.simps [simp del]

definition intsetSearch :: "intset \<Rightarrow> int \<Rightarrow> bool \<times> nat" where
  "intsetSearch is value =
     (if is_length is = 0 then (False, 0)
      else if value > intset_get is (is_length is - 1) then (False, is_length is)
      else if value < intset_get is 0 then (False, 0)
      else case intsetSearch_loop is value 0 (int (is_length is) - 1) (- 1) (- 1) of
        (lo, mid, cur) \<Rightarrow> if value = cur then (True, nat mid) else (False, nat lo))"

subsection \<open>Insertion and removal\<close>

text \<open>\<open>while(length--) _intsetSet(is, length+prepend, _intsetGetEncoded(is, length, curenc))\<close>\<close>

fun intsetUpgrade_loop :: "nat \<Rightarrow> nat \<Rightarrow> nat \<Rightarrow> intset \<Rightarrow> intset" where
  "intsetUpgrade_loop curenc prepend 0 is = is"
| "intsetUpgrade_loop curenc prepend (Suc n) is =
     intsetUpgrade_loop curenc prepend n
       (intset_set is (n + prepend) (intsetGetEncoded is n curenc))"

definition intsetUpgradeAndAdd :: "byte \<Rightarrow> intset \<Rightarrow> int \<Rightarrow> intset" where
  "intsetUpgradeAndAdd junk is value =
     (let curenc = is_encoding is; newenc = intsetValueEncoding value; length' = is_length is;
          prepend = (if value < 0 then 1 else 0);
          is = intsetResize junk (is\<lparr>is_encoding := newenc\<rparr>) (length' + 1);
          is = intsetUpgrade_loop curenc prepend length' is;
          is = (if prepend = 1 then intset_set is 0 value else intset_set is (is_length is) value)
      in is\<lparr>is_length := is_length is + 1\<rparr>)"

definition memmove :: "byte list \<Rightarrow> nat \<Rightarrow> nat \<Rightarrow> nat \<Rightarrow> byte list" where
  "memmove c dst src bytes = take dst c @ take bytes (drop src c) @ drop (dst + bytes) c"

definition intsetMoveTail :: "intset \<Rightarrow> nat \<Rightarrow> nat \<Rightarrow> intset" where
  "intsetMoveTail is from to =
     (let enc = is_encoding is; bytes = ((is_length is - from) * enc) mod 2 ^ 32
      in is\<lparr>is_contents := memmove (is_contents is) (to * enc) (from * enc) bytes\<rparr>)"

definition intsetAdd :: "byte \<Rightarrow> intset \<Rightarrow> int \<Rightarrow> intset \<times> bool" where
  "intsetAdd junk is value =
     (if intsetValueEncoding value > is_encoding is then (intsetUpgradeAndAdd junk is value, True)
      else case intsetSearch is value of
        (True, _) \<Rightarrow> (is, False)
      | (False, pos) \<Rightarrow>
          let is = intsetResize junk is (is_length is + 1);
              is = (if pos < is_length is then intsetMoveTail is pos (pos + 1) else is);
              is = intset_set is pos value
          in (is\<lparr>is_length := is_length is + 1\<rparr>, True))"

definition intsetRemove :: "byte \<Rightarrow> intset \<Rightarrow> int \<Rightarrow> intset \<times> bool" where
  "intsetRemove junk is value =
     (if intsetValueEncoding value \<le> is_encoding is then
        case intsetSearch is value of
          (True, pos) \<Rightarrow>
            let len = is_length is;
                is = (if pos < len - 1 then intsetMoveTail is (pos + 1) pos else is);
                is = intsetResize junk is (len - 1)
            in (is\<lparr>is_length := len - 1\<rparr>, True)
        | (False, _) \<Rightarrow> (is, False)
      else (is, False))"

definition intsetFind :: "intset \<Rightarrow> int \<Rightarrow> bool" where
  "intsetFind is value \<longleftrightarrow> intsetValueEncoding value \<le> is_encoding is \<and> fst (intsetSearch is value)"

definition intsetGet :: "intset \<Rightarrow> nat \<Rightarrow> int option" where
  "intsetGet is pos = (if pos < is_length is then Some (intset_get is pos) else None)"

definition intsetRandom :: "nat \<Rightarrow> intset \<Rightarrow> int option" where
  "intsetRandom r is = (if is_length is = 0 then None else Some (intset_get is (r mod is_length is)))"

definition intsetLen :: "intset \<Rightarrow> nat" where
  "intsetLen is = is_length is"

definition intsetBlobLen :: "intset \<Rightarrow> nat" where
  "intsetBlobLen is = 8 + is_length is * is_encoding is"





subsection \<open>Integers in memory\<close>

definition fits :: "nat \<Rightarrow> int \<Rightarrow> bool" where
  "fits enc v \<longleftrightarrow> - (2 ^ (8 * enc - 1)) \<le> v \<and> v < 2 ^ (8 * enc - 1)"

lemma length_le_bytes [simp]: "length (le_bytes n v) = n"
  by (simp add: le_bytes_def)

lemma le_bytes_Suc: "le_bytes (Suc n) v = word_of_int v # le_bytes n (v div 256)"
  unfolding le_bytes_def
  by (simp add: upt_conv_Cons map_Suc_upt [symmetric] zdiv_zmult2_eq [symmetric] comp_def del: upt_Suc)

lemma horner_le_bytes: "horner_sum uint 256 (le_bytes n v) = v mod 256 ^ n"
proof (induction n arbitrary: v)
  case (Suc n)
  have "v mod 256 + 256 * (v div 256 mod 256 ^ n) = v mod (256 * 256 ^ n)"
    by (simp add: zmod_zmult2_eq)
  moreover have "uint (word_of_int v :: byte) = v mod 256"
    by (simp add: unsigned_of_int take_bit_eq_mod)
  ultimately show ?case using Suc.IH by (simp add: le_bytes_Suc)
qed (simp add: le_bytes_def)

lemma le_int_le_bytes: "0 < n \<Longrightarrow> fits n v \<Longrightarrow> le_int n (le_bytes n v) = v"
proof -
  assume n: "0 < n" and v: "fits n v"
  have "v mod 256 ^ n = take_bit (8 * n) v" by (simp add: take_bit_eq_mod power_mult)
  moreover have "\<not> 8 * n \<le> 8 * n - 1" using n by linarith
  ultimately have "le_int n (le_bytes n v) = signed_take_bit (8 * n - 1) v"
    by (simp add: le_int_def horner_le_bytes signed_take_bit_take_bit)
  also have "\<dots> = v" using v by (simp add: fits_def signed_take_bit_int_eq_self)
  finally show ?thesis .
qed

lemma intsetValueEncoding_range: "intsetValueEncoding v \<in> {2, 4, 8}"
  by (simp add: intsetValueEncoding_def)

lemma fits_encoding:
  assumes "- (2 ^ 63) \<le> v" "v < 2 ^ 63" "enc \<in> {2, 4, 8}"
  shows "fits enc v \<longleftrightarrow> intsetValueEncoding v \<le> enc"
  using assms by (auto simp: fits_def intsetValueEncoding_def)

lemma in_range: "p < n \<Longrightarrow> p * enc + enc \<le> n * (enc :: nat)"
  using mult_le_mono1 [of "p + 1" n enc] by simp

lemma length_put_at: "pos * enc + enc \<le> length c \<Longrightarrow> length (put_at enc c pos v) = length c"
  by (simp add: put_at_def)

lemma fits_mono:
  assumes "fits e v" "e \<le> e'"
  shows "fits e' v"
proof -
  have "(2 :: int) ^ (8 * e - 1) \<le> 2 ^ (8 * e' - 1)" using assms(2) by (intro power_increasing) auto
  with assms(1) show ?thesis unfolding fits_def by linarith
qed

subsection \<open>Arrays of integers in memory\<close>

definition enc_list :: "nat \<Rightarrow> int list \<Rightarrow> byte list" where
  "enc_list e xs = concat (map (le_bytes e) xs)"

lemma enc_list_simps [simp]:
  "enc_list e [] = []" "enc_list e (x # xs) = le_bytes e x @ enc_list e xs"
  "enc_list e (xs @ ys) = enc_list e xs @ enc_list e ys"
  by (simp_all add: enc_list_def)

lemma length_enc_list [simp]: "length (enc_list e xs) = length xs * e"
  by (induction xs) auto

lemma take_enc_list [simp]: "take (k * e) (enc_list e xs) = enc_list e (take k xs)"
proof (induction xs arbitrary: k)
  case (Cons x xs)
  then show ?case by (cases k) simp_all
qed simp

lemma drop_enc_list [simp]: "drop (k * e) (enc_list e xs) = enc_list e (drop k xs)"
proof (induction xs arbitrary: k)
  case (Cons x xs)
  then show ?case by (cases k) simp_all
qed simp

lemma get_enc_list:
  assumes "take (k * e) c = enc_list e (take k xs)" "i < k" "k \<le> length xs"
    and "fits e (xs ! i)" "0 < e"
  shows "get_at e c i = xs ! i"
proof -
  have "i * e + e \<le> k * e" using mult_le_mono1 [of "Suc i" k e] assms(2) by simp
  then have "take e (drop (i * e) c) = take e (drop (i * e) (take (k * e) c))"
    by (simp add: drop_take)
  also have "\<dots> = take e (enc_list e (drop i (take k xs)))" by (simp only: assms(1) drop_enc_list)
  also have "drop i (take k xs) = xs ! i # drop (Suc i) (take k xs)"
    using assms(2,3) by (simp add: Cons_nth_drop_Suc [symmetric])
  also have "take e (enc_list e (xs ! i # drop (Suc i) (take k xs))) = le_bytes e (xs ! i)" by simp
  finally show ?thesis using assms(4,5) by (simp add: get_at_def le_int_le_bytes)
qed

text \<open>\<open>rep is xs\<close>: the set stores exactly the list \<open>xs\<close>.\<close>

definition rep :: "intset \<Rightarrow> int list \<Rightarrow> bool" where
  "rep is xs \<longleftrightarrow> is_encoding is \<in> {2, 4, 8} \<and> is_length is = length xs \<and>
     is_contents is = enc_list (is_encoding is) xs \<and> (\<forall>x \<in> set xs. fits (is_encoding is) x)"

lemma rep_get: "rep is xs \<Longrightarrow> i < length xs \<Longrightarrow> intset_get is i = xs ! i"
  unfolding rep_def intset_get_def intsetGetEncoded_def
  by (intro get_enc_list [where k = "length xs"]) (auto simp: take_enc_list [of "length xs", simplified])

lemma rep_unique:
  assumes "rep is xs" "rep is ys"
  shows "xs = ys"
proof (rule nth_equalityI)
  show "length xs = length ys" using assms by (simp add: rep_def)
  then show "xs ! i = ys ! i" if "i < length xs" for i
    using rep_get [OF assms(1), of i] rep_get [OF assms(2), of i] that by simp
qed

lemma rep_New: "rep intsetNew []"
  by (simp add: rep_def intsetNew_def)

subsection \<open>Search is correct\<close>

text \<open>What one comparison in a sorted list says about the others.\<close>

lemma sorted_below:
  assumes "sorted_wrt (<) xs" "nat m < length xs" "xs ! nat m < (v :: int)" "0 \<le> m"
  shows "\<forall>i < nat (m + 1). xs ! i < v"
proof (intro allI impI)
  fix i assume "i < nat (m + 1)"
  then have "i < nat m \<or> i = nat m" by linarith
  then show "xs ! i < v" using sorted_wrt_nth_less [OF assms(1), of i "nat m"] assms(2,3) by auto
qed

lemma sorted_above:
  assumes "sorted_wrt (<) xs" "(v :: int) < xs ! nat m" "0 \<le> m"
  shows "\<forall>i < length xs. m - 1 < int i \<longrightarrow> v < xs ! i"
proof (intro allI impI)
  fix i assume i: "i < length xs" "m - 1 < int i"
  then have "nat m < i \<or> i = nat m" by linarith
  then show "v < xs ! i" using sorted_wrt_nth_less [OF assms(1), of "nat m" i] i assms(2) by auto
qed

lemma intsetSearch_loop_correct:
  assumes "rep is xs" "sorted_wrt (<) xs"
    and "0 \<le> lo" "lo \<le> hi + 1" "hi < int (length xs)"
    and "\<forall>i < nat lo. xs ! i < v" "\<forall>i < length xs. hi < int i \<longrightarrow> v < xs ! i"
    and "lo > hi \<longrightarrow> cur \<noteq> v"
    and "intsetSearch_loop is v lo hi mid cur = (lo', mid', cur')"
  shows "cur' = v \<and> 0 \<le> mid' \<and> nat mid' < length xs \<and> xs ! nat mid' = v \<or>
    cur' \<noteq> v \<and> 0 \<le> lo' \<and> nat lo' \<le> length xs \<and> (\<forall>i < nat lo'. xs ! i < v) \<and>
      (\<forall>i < length xs. nat lo' \<le> i \<longrightarrow> v < xs ! i)"
  using assms(3-)
proof (induction "nat (hi - lo + 1)" arbitrary: lo hi mid cur rule: less_induct)
  case less
  show ?case
  proof (cases "lo \<le> hi")
    case False
    then have "intsetSearch_loop is v lo hi mid cur = (lo, mid, cur)"
      by (subst intsetSearch_loop.simps) simp
    then show ?thesis using less.prems False by auto
  next
    case True
    define m where "m = (lo + hi) div 2"
    have m: "lo \<le> m" "m \<le> hi" using True by (simp_all add: m_def)
    have n: "nat m < length xs" using m less.prems(1,3) by simp
    have g: "intset_get is (nat m) = xs ! nat m" using rep_get [OF assms(1) n] .
    have unf: "intsetSearch_loop is v lo hi mid cur =
        (if v > xs ! nat m then intsetSearch_loop is v (m + 1) hi m (xs ! nat m)
         else if v < xs ! nat m then intsetSearch_loop is v lo (m - 1) m (xs ! nat m)
         else (lo, m, xs ! nat m))"
      using True by (subst intsetSearch_loop.simps) (simp add: Let_def g flip: m_def)
    consider "v > xs ! nat m" | "v < xs ! nat m" | "v = xs ! nat m" by linarith
    then show ?thesis
    proof cases
      case 1
      have "\<forall>i < nat (m + 1). xs ! i < v" using sorted_below [OF assms(2) n 1] m less.prems(1) by simp
      moreover have "intsetSearch_loop is v (m + 1) hi m (xs ! nat m) = (lo', mid', cur')"
        using unf 1 less.prems(7) by simp
      moreover have "xs ! nat m \<noteq> v" using 1 by simp
      ultimately show ?thesis using less.prems m
        by (intro less.hyps [of hi "m + 1"]) auto
    next
      case 2
      have "\<forall>i < length xs. m - 1 < int i \<longrightarrow> v < xs ! i" using sorted_above [OF assms(2) 2] m less.prems(1) by simp
      moreover have "intsetSearch_loop is v lo (m - 1) m (xs ! nat m) = (lo', mid', cur')"
        using unf 2 less.prems(7) by simp
      moreover have "xs ! nat m \<noteq> v" using 2 by simp
      ultimately show ?thesis using less.prems m
        by (intro less.hyps [of "m - 1" lo]) auto
    next
      case 3
      then show ?thesis using unf less.prems m n by auto
    qed
  qed
qed

lemma insort_split:
  "p \<le> length xs \<Longrightarrow> \<forall>i < p. xs ! i < v \<Longrightarrow> \<forall>i < length xs. p \<le> i \<longrightarrow> v < xs ! i \<Longrightarrow>
   insort v xs = take p xs @ v # drop p (xs :: int list)"
proof (induction xs arbitrary: p)
  case (Cons x xs)
  show ?case
  proof (cases p)
    case 0
    then have "v < x" using Cons.prems(3) by force
    with 0 show ?thesis by simp
  next
    case (Suc q)
    have "x < v" using Cons.prems(2) Suc by force
    moreover have "insort v xs = take q xs @ v # drop q xs"
      using Cons.prems Suc by (intro Cons.IH) force+
    ultimately show ?thesis using Suc by simp
  qed
qed simp


definition split_at :: "int list \<Rightarrow> int \<Rightarrow> nat \<Rightarrow> bool" where
  "split_at xs v p \<longleftrightarrow> p \<le> length xs \<and> (\<forall>i < p. xs ! i < v) \<and> (\<forall>i < length xs. p \<le> i \<longrightarrow> v < xs ! i)"

lemma split_at_notin: "split_at xs v p \<Longrightarrow> v \<notin> set xs"
  unfolding split_at_def in_set_conv_nth by (metis less_irrefl linorder_not_le)

lemma intsetSearch_correct:
  assumes "rep is xs" "sorted_wrt (<) xs"
  shows "case intsetSearch is v of
    (True, p) \<Rightarrow> p < length xs \<and> xs ! p = v | (False, p) \<Rightarrow> split_at xs v p"
proof -
  have mono: "xs ! i \<le> xs ! j" if "i \<le> j" "j < length xs" for i j
    using assms(2) that by (cases "i = j") (auto simp: sorted_wrt_iff_nth_less intro: less_imp_le)
  have len: "is_length is = length xs" using assms(1) by (simp add: rep_def)
  show ?thesis
  proof (cases "xs = [] \<or> v > xs ! (length xs - 1) \<or> v < xs ! 0")
    case True
    have "v > xs ! i" if "v > xs ! (length xs - 1)" "i < length xs" for i
      using mono [of i "length xs - 1"] that by force
    moreover have "v < xs ! i" if "v < xs ! 0" "i < length xs" for i
      using mono [of 0 i] that by force
    ultimately show ?thesis using True len rep_get [OF assms(1), of "length xs - 1"] rep_get [OF assms(1), of 0]
      by (auto simp: intsetSearch_def split_at_def)
  next
    case False
    obtain lo' mid' cur' where r: "intsetSearch_loop is v 0 (int (length xs) - 1) (- 1) (- 1) = (lo', mid', cur')"
      by (metis prod_cases3)
    have "intsetSearch is v = (if v = cur' then (True, nat mid') else (False, nat lo'))"
      using False r len rep_get [OF assms(1), of "length xs - 1"] rep_get [OF assms(1), of 0]
      by (simp add: intsetSearch_def)
    with intsetSearch_loop_correct [OF assms _ _ _ _ _ _ r] False show ?thesis
      by (auto simp: split_at_def Suc_le_eq)
  qed
qed

lemma insort_split_at: "split_at xs v p \<Longrightarrow> insort v xs = take p xs @ v # drop p xs"
  unfolding split_at_def by (intro insort_split) auto

subsection \<open>Insertion is correct\<close>

lemma enc_list_split: "p \<le> length xs \<Longrightarrow> enc_list e xs = enc_list e (take p xs) @ enc_list e (drop p xs)"
  by (metis append_take_drop_id enc_list_simps(3))

lemma memmove_up:
  assumes "length a = d" "length j = e" "length b = n"
  shows "memmove (a @ b @ j) (d + e) d n = a @ take e (b @ j) @ b"
  using assms by (simp add: memmove_def)

lemma memmove_down:
  assumes "length a = d" "length x = e" "length b = n"
  shows "memmove (a @ x @ b) d (d + e) n = a @ b @ drop n (x @ b)"
  using assms by (simp add: memmove_def)

lemma insert_bytes:
  fixes e :: nat
  assumes "p \<le> length xs" "length j = e"
  shows "put_at e (if p < length xs then memmove (enc_list e xs @ j) (e + p * e) (p * e) ((length xs - p) * e)
      else enc_list e xs @ j) p v = enc_list e (take p xs @ v # drop p xs)"
proof (cases "p < length xs")
  case True
  have "memmove (enc_list e (take p xs) @ enc_list e (drop p xs) @ j) (p * e + e) (p * e) ((length xs - p) * e) =
      enc_list e (take p xs) @ take e (enc_list e (drop p xs) @ j) @ enc_list e (drop p xs)"
    by (rule memmove_up) (use assms in simp_all)
  with True assms show ?thesis
    by (simp add: enc_list_split [OF assms(1)] put_at_def add.commute)
next
  case False
  with assms show ?thesis by (simp add: put_at_def)
qed

lemma resize_up:
  "rep is xs \<Longrightarrow> intsetResize j is (Suc (length xs)) =
     is\<lparr>is_contents := enc_list (is_encoding is) xs @ replicate (is_encoding is) j\<rparr>"
  by (simp add: intsetResize_def rep_def Let_def)

text \<open>The largest array whose tail can be moved: the byte count is a 32-bit number.\<close>

definition small :: "intset \<Rightarrow> bool" where
  "small is \<longleftrightarrow> is_length is * is_encoding is < 2 ^ 32"

lemma small_le: "small is \<Longrightarrow> n \<le> is_length is \<Longrightarrow> n * is_encoding is < 2 ^ 32"
  unfolding small_def by (meson le_less_trans mult_le_mono1)

lemma rep_insert:
  assumes "rep is xs" "small is" "split_at xs v p" "fits (is_encoding is) v"
  shows "rep (let is = intsetResize j is (is_length is + 1);
        is = (if p < is_length is then intsetMoveTail is p (p + 1) else is);
        is = intset_set is p v in is\<lparr>is_length := is_length is + 1\<rparr>) (insort v xs)"
proof -
  let ?e = "is_encoding is"
  have p: "p \<le> length xs" and len: "is_length is = length xs"
    using assms(1,3) by (simp_all add: rep_def split_at_def)
  have small: "(length xs - p) * ?e mod 2 ^ 32 = (length xs - p) * ?e"
    using assms(2) len by (intro mod_less small_le) simp_all
  have "is_contents (let is = intsetResize j is (is_length is + 1);
        is = (if p < is_length is then intsetMoveTail is p (p + 1) else is);
        is = intset_set is p v in is\<lparr>is_length := is_length is + 1\<rparr>) =
    enc_list ?e (take p xs @ v # drop p xs)"
    using insert_bytes [OF p, of "replicate ?e j" ?e v] small
    by (cases "p < length xs")
      (simp_all add: Let_def len resize_up [OF assms(1)] intsetMoveTail_def intset_set_def)
  then show ?thesis
    using assms(1,4) p unfolding insort_split_at [OF assms(3)]
    by (auto simp: rep_def Let_def intsetResize_def intsetMoveTail_def intset_set_def
        dest: in_set_takeD in_set_dropD)
qed

subsection \<open>Removal is correct\<close>

lemma rep_remove:
  assumes "rep is xs" "small is" "p < length xs"
  shows "rep (let len = is_length is;
        is = (if p < len - 1 then intsetMoveTail is (p + 1) p else is);
        is = intsetResize j is (len - 1) in is\<lparr>is_length := len - 1\<rparr>) (take p xs @ drop (Suc p) xs)"
proof -
  let ?e = "is_encoding is"
  let ?a = "enc_list ?e (take p xs)" and ?x = "le_bytes ?e (xs ! p)" and ?b = "enc_list ?e (drop (Suc p) xs)"
  have len: "is_length is = length xs" and c: "is_contents is = enc_list ?e xs"
    using assms(1) by (simp_all add: rep_def)
  have split: "enc_list ?e xs = ?a @ ?x @ ?b"
    by (metis append_take_drop_id Cons_nth_drop_Suc assms(3) enc_list_simps(2,3))
  have small: "(length xs - Suc p) * ?e mod 2 ^ 32 = (length xs - Suc p) * ?e"
    using assms(2) len by (intro mod_less small_le) simp_all
  have move: "memmove (?a @ ?x @ ?b) (p * ?e) (p * ?e + ?e) ((length xs - Suc p) * ?e) =
      ?a @ ?b @ drop ((length xs - Suc p) * ?e) (?x @ ?b)"
    by (rule memmove_down) (use assms(3) in simp_all)
  have sz: "(length xs - Suc 0) * ?e = p * ?e + (length xs - Suc p) * ?e"
    using assms(3) by (simp flip: add_mult_distrib)
  have "is_contents (let len = is_length is;
        is = (if p < len - 1 then intsetMoveTail is (p + 1) p else is);
        is = intsetResize j is (len - 1) in is\<lparr>is_length := len - 1\<rparr>) = ?a @ ?b"
  proof (cases "p < length xs - 1")
    case True
    have "is_contents (intsetMoveTail is (Suc p) p) = ?a @ ?b @ drop ((length xs - Suc p) * ?e) (?x @ ?b)"
      using move small by (simp add: intsetMoveTail_def Let_def len c split add.commute)
    moreover have "is_encoding (intsetMoveTail is (Suc p) p) = ?e" by (simp add: intsetMoveTail_def Let_def)
    ultimately show ?thesis using True assms(3) by (simp add: Let_def len intsetResize_def sz)
  next
    case False
    with assms(3) have "length xs = Suc p" by simp
    then show ?thesis by (simp add: Let_def len intsetResize_def c split)
  qed
  then show ?thesis
    using assms(1,3)
    by (auto simp: rep_def Let_def intsetResize_def intsetMoveTail_def dest: in_set_takeD in_set_dropD)
qed

subsection \<open>Growing the width is correct\<close>

text \<open>
  The values are moved in place, from the last to the first: while \<open>k\<close> values are left, their old
  bytes at the front are intact and the new bytes behind position \<open>k + prepend\<close> are final.
\<close>

lemma intsetUpgrade_loop_correct:
  assumes "k \<le> length xs" "\<forall>x \<in> set xs. fits cur x" "0 < cur" "cur \<le> is_encoding is"
    and "length (is_contents is) = (length xs + 1) * is_encoding is" "pre \<le> 1"
    and "take (k * cur) (is_contents is) = enc_list cur (take k xs)"
    and "drop ((k + pre) * is_encoding is) (is_contents is) = enc_list (is_encoding is) (drop k xs) @ r"
  shows "\<exists>c. intsetUpgrade_loop cur pre k is = is\<lparr>is_contents := c\<rparr> \<and>
    length c = (length xs + 1) * is_encoding is \<and>
    drop (pre * is_encoding is) c = enc_list (is_encoding is) xs @ r"
  using assms
proof (induction k arbitrary: "is")
  case 0
  then show ?case by (intro exI [of _ "is_contents is"]) simp
next
  case (Suc k)
  let ?e = "is_encoding is" and ?c = "is_contents is"
  have x: "intsetGetEncoded is k cur = xs ! k"
    unfolding intsetGetEncoded_def
    by (rule get_enc_list [OF Suc.prems(7)]) (use Suc.prems in auto)
  let ?is = "intset_set is (k + pre) (xs ! k)"
  have room: "(k + pre) * ?e + ?e \<le> length ?c"
    using Suc.prems(1,5,6) in_range [of "k + pre" "length xs + 1" ?e] by simp
  have le: "k * cur \<le> (k + pre) * ?e" using Suc.prems(4) by (intro mult_le_mono) simp_all
  have c': "is_contents ?is = put_at ?e ?c (k + pre) (xs ! k)" by (simp add: intset_set_def)
  have tk: "take (k * cur) (is_contents ?is) = enc_list cur (take k xs)"
  proof -
    have "take (k * cur) (is_contents ?is) = take (k * cur) ?c"
      unfolding c' put_at_def using le room by (simp add: min_absorb1)
    also have "\<dots> = take (k * cur) (take (Suc k * cur) ?c)" by (simp add: min_absorb1)
    also have "\<dots> = enc_list cur (take k xs)" unfolding Suc.prems(7) by (simp add: min_absorb1)
    finally show ?thesis .
  qed
  have dr: "drop ((k + pre) * ?e) (is_contents ?is) = enc_list ?e (drop k xs) @ r"
    unfolding c' put_at_def using room Suc.prems(8,1)
    by (simp add: Cons_nth_drop_Suc [symmetric] add.commute)
  have "\<exists>c. intsetUpgrade_loop cur pre k ?is = ?is\<lparr>is_contents := c\<rparr> \<and>
      length c = (length xs + 1) * ?e \<and> drop (pre * ?e) c = enc_list ?e xs @ r"
    using Suc.IH [of ?is] Suc.prems tk dr room
    by (simp add: intset_set_def length_put_at)
  then show ?case by (simp add: x) (simp add: intset_set_def)
qed

definition in_64 :: "int \<Rightarrow> bool" where
  "in_64 v \<longleftrightarrow> - (2 ^ 63) \<le> v \<and> v < 2 ^ 63"

lemma fits_iff_encoding: "in_64 v \<Longrightarrow> enc \<in> {2, 4, 8} \<Longrightarrow> fits enc v \<longleftrightarrow> intsetValueEncoding v \<le> enc"
  unfolding in_64_def by (rule fits_encoding) simp_all

lemma upgrade_moves:
  assumes "rep is xs" "is_encoding is < e" "pre \<le> 1"
    and is0: "is0 = intsetResize j (is\<lparr>is_encoding := e\<rparr>) (length xs + 1)"
  shows "\<exists>c. intsetUpgrade_loop (is_encoding is) pre (length xs) is0 = is0\<lparr>is_contents := c\<rparr> \<and>
    length c = (length xs + 1) * e \<and> drop (pre * e) c = enc_list e xs @ drop ((length xs + pre) * e) (is_contents is0)"
proof -
  let ?cur = "is_encoding is"
  have cur: "0 < ?cur" and len: "is_length is = length xs" and cont: "is_contents is = enc_list ?cur xs"
    and fit: "\<forall>x \<in> set xs. fits ?cur x"
    using assms(1) by (auto simp: rep_def)
  have le: "length xs * ?cur \<le> (length xs + 1) * e" using assms(2) by (intro mult_le_mono) simp_all
  have c0: "is_contents is0 = enc_list ?cur xs @ replicate ((length xs + 1) * e - length xs * ?cur) j"
    using le by (simp add: is0 intsetResize_def cont Let_def)
  then have l: "length (is_contents is0) = (length xs + 1) * e" using le by simp
  have e: "is_encoding is0 = e" by (simp add: is0 intsetResize_def Let_def)
  have "\<exists>c. intsetUpgrade_loop ?cur pre (length xs) is0 = is0\<lparr>is_contents := c\<rparr> \<and>
      length c = (length xs + 1) * is_encoding is0 \<and>
      drop (pre * is_encoding is0) c = enc_list (is_encoding is0) xs @ drop ((length xs + pre) * e) (is_contents is0)"
    using assms(2,3) fit cur l by (intro intsetUpgrade_loop_correct) (simp_all add: e c0)
  then show ?thesis by (simp add: e)
qed

lemma rep_upgrade:
  assumes "rep is xs" "is_encoding is < intsetValueEncoding v" "in_64 v"
  shows "rep (intsetUpgradeAndAdd j is v) (if v < 0 then v # xs else xs @ [v])"
proof -
  let ?cur = "is_encoding is" and ?e = "intsetValueEncoding v"
  define pre :: nat where "pre = (if v < 0 then 1 else 0)"
  define is0 where "is0 = intsetResize j (is\<lparr>is_encoding := ?e\<rparr>) (length xs + 1)"
  have len: "is_length is = length xs" and fit: "\<forall>x \<in> set xs. fits ?cur x" using assms(1) by (auto simp: rep_def)
  have "pre \<le> 1" by (simp add: pre_def)
  from upgrade_moves [OF assms(1,2) this is0_def] obtain c where
    c: "intsetUpgrade_loop ?cur pre (length xs) is0 = is0\<lparr>is_contents := c\<rparr>" "length c = (length xs + 1) * ?e"
      "drop (pre * ?e) c = enc_list ?e xs @ drop ((length xs + pre) * ?e) (is_contents is0)" by blast
  let ?is = "is0\<lparr>is_contents := c\<rparr>"
  have e: "is_encoding ?is = ?e" "is_contents ?is = c" "is_length is0 = length xs"
    by (simp_all add: is0_def intsetResize_def Let_def len)
  have len0: "is_length (intset_set is0' p w) = is_length is0'" for is0' p w by (simp add: intset_set_def)
  have up: "intsetUpgradeAndAdd j is v =
      (if v < 0 then intset_set ?is 0 v else intset_set ?is (length xs) v)\<lparr>is_length := length xs + 1\<rparr>"
    using c(1) is0_def [symmetric] by (cases "v < 0") (simp_all add: intsetUpgradeAndAdd_def Let_def len pre_def len0 e)
  have "is_contents (intsetUpgradeAndAdd j is v) = enc_list ?e (if v < 0 then v # xs else xs @ [v])"
  proof (cases "v < 0")
    case True
    then have "drop ?e c = enc_list ?e xs @ drop ((length xs + 1) * ?e) (is_contents is0)" using c(3) by (simp add: pre_def)
    moreover from arg_cong [OF this, of length] have "length (drop ((length xs + 1) * ?e) (is_contents is0)) = 0"
      using c(2) by simp
    ultimately show ?thesis using True by (simp add: up intset_set_def e put_at_def)
  next
    case False
    then have "c = enc_list ?e xs @ drop (length xs * ?e) (is_contents is0)" using c(3) by (simp add: pre_def)
    then have "take (length xs * ?e) c = enc_list ?e xs" by (metis append_eq_conv_conj length_enc_list)
    then show ?thesis using False c(2) by (simp add: up intset_set_def e put_at_def)
  qed
  moreover have "fits ?e v" using assms(3) intsetValueEncoding_range [of v] fits_iff_encoding by blast
  moreover have "fits ?e x" if "x \<in> set xs" for x
    using fit that assms(2) fits_mono [of ?cur x ?e] by auto
  ultimately show ?thesis
    using intsetValueEncoding_range [of v] e by (auto simp: rep_def up intset_set_def)
qed

lemma upgrade_outside:
  assumes "rep is xs" "is_encoding is < intsetValueEncoding v" "in_64 v" "x \<in> set xs"
  shows "if v < 0 then v < x else x < v"
proof -
  have "fits (is_encoding is) x" "\<not> fits (is_encoding is) v" "is_encoding is \<in> {2, 4, 8}"
    using assms fits_iff_encoding [OF assms(3)] by (auto simp: rep_def)
  then show ?thesis unfolding fits_def by (smt (verit) zero_le_power)
qed

subsection \<open>The abstract set\<close>

definition elems :: "intset \<Rightarrow> int list" where
  "elems is = map (intset_get is) [0..<is_length is]"

definition intset_inv :: "intset \<Rightarrow> bool" where
  "intset_inv is \<longleftrightarrow> rep is (elems is) \<and> sorted_wrt (<) (elems is)"

lemma rep_elems: "rep is xs \<Longrightarrow> elems is = xs"
  unfolding elems_def using rep_get by (intro nth_equalityI) (auto simp: rep_def)

lemma rep_inv: "rep is xs \<Longrightarrow> sorted_wrt (<) xs \<Longrightarrow> intset_inv is \<and> elems is = xs"
  using rep_elems by (simp add: intset_inv_def)

lemma strict_sorted_insort: "sorted_wrt (<) xs \<Longrightarrow> v \<notin> set xs \<Longrightarrow> sorted_wrt (<) (insort v (xs :: int list))"
  by (simp add: strict_sorted_iff sorted_insort distinct_insort)

lemma elems_intsetAdd:
  assumes "intset_inv is" "small is" "in_64 v"
  shows "intset_inv (fst (intsetAdd j is v)) \<and>
    elems (fst (intsetAdd j is v)) = (if v \<in> set (elems is) then elems is else insort v (elems is)) \<and>
    snd (intsetAdd j is v) = (v \<notin> set (elems is))"
proof -
  let ?xs = "elems is"
  have r: "rep is ?xs" and st: "sorted_wrt (<) ?xs" using assms(1) by (auto simp: intset_inv_def)
  show ?thesis
  proof (cases "is_encoding is < intsetValueEncoding v")
    case True
    note out = upgrade_outside [OF r True assms(3)]
    then have nin: "v \<notin> set ?xs" by force
    have "insort v ?xs = (if v < 0 then v # ?xs else ?xs @ [v])"
    proof (cases "v < 0")
      case True
      then show ?thesis using out by (intro insort_split [of 0, simplified, THEN trans]) auto
    next
      case False
      then show ?thesis using out insort_split [of "length ?xs" ?xs v] by auto
    qed
    with rep_upgrade [OF r True assms(3), of j] have "rep (intsetUpgradeAndAdd j is v) (insort v ?xs)" by simp
    from rep_inv [OF this strict_sorted_insort [OF st nin]] True nin show ?thesis by (simp add: intsetAdd_def)
  next
    case False
    have fit: "fits (is_encoding is) v"
      using False r fits_iff_encoding [OF assms(3)] by (simp add: rep_def)
    obtain b p where s: "intsetSearch is v = (b, p)" by force
    show ?thesis
    proof (cases b)
      case True
      then have "v \<in> set ?xs" using intsetSearch_correct [OF r st, of v] s by auto
      with True s False assms(1) show ?thesis by (simp add: intsetAdd_def)
    next
      case nf: False
      then have sp: "split_at ?xs v p" using intsetSearch_correct [OF r st, of v] s by simp
      from rep_inv [OF rep_insert [OF r assms(2) sp fit] strict_sorted_insort [OF st split_at_notin [OF sp]], of j]
      show ?thesis using nf s False split_at_notin [OF sp] by (simp add: intsetAdd_def Let_def)
    qed
  qed
qed

lemma remove1_nth:
  "p < length xs \<Longrightarrow> distinct xs \<Longrightarrow> remove1 (xs ! p) xs = take p xs @ drop (Suc p) xs"
proof (induction xs arbitrary: p)
  case (Cons x xs)
  then show ?case by (cases p) auto
qed simp

lemma elems_intsetRemove:
  assumes "intset_inv is" "small is" "in_64 v"
  shows "intset_inv (fst (intsetRemove j is v)) \<and>
    elems (fst (intsetRemove j is v)) = remove1 v (elems is) \<and>
    snd (intsetRemove j is v) = (v \<in> set (elems is))"
proof -
  let ?xs = "elems is"
  have r: "rep is ?xs" and st: "sorted_wrt (<) ?xs" using assms(1) by (auto simp: intset_inv_def)
  obtain b p where s: "intsetSearch is v = (b, p)" by force
  show ?thesis
  proof (cases "intsetValueEncoding v \<le> is_encoding is \<and> b")
    case True
    then have p: "p < length ?xs" "?xs ! p = v" using intsetSearch_correct [OF r st, of v] s by auto
    have "distinct ?xs" using st by (simp add: strict_sorted_iff)
    then have rem: "remove1 v ?xs = take p ?xs @ drop (Suc p) ?xs" using remove1_nth p by metis
    have "sorted_wrt (<) (remove1 v ?xs)"
      using st by (simp add: strict_sorted_iff sorted_remove1)
    from rep_inv [OF rep_remove [OF r assms(2) p(1)], folded rem, OF this, of j]
    show ?thesis using True s p by (auto simp: intsetRemove_def Let_def)
  next
    case False
    have "v \<notin> set ?xs"
    proof
      assume v: "v \<in> set ?xs"
      then have "fits (is_encoding is) v" "is_encoding is \<in> {2, 4, 8}" using r by (auto simp: rep_def)
      then have "\<not> b" using False fits_iff_encoding [OF assms(3)] by blast
      then show False using intsetSearch_correct [OF r st, of v] s split_at_notin v by simp
    qed
    with False s assms(1) show ?thesis by (auto simp: intsetRemove_def remove1_idem)
  qed
qed

lemma intsetFind_correct:
  assumes "intset_inv is" "in_64 v"
  shows "intsetFind is v \<longleftrightarrow> v \<in> set (elems is)"
proof -
  let ?xs = "elems is"
  have r: "rep is ?xs" and st: "sorted_wrt (<) ?xs" using assms(1) by (auto simp: intset_inv_def)
  obtain b p where s: "intsetSearch is v = (b, p)" by force
  have "b \<longleftrightarrow> v \<in> set ?xs"
    using intsetSearch_correct [OF r st, of v] s split_at_notin by (cases b) auto
  moreover have "intsetValueEncoding v \<le> is_encoding is" if "v \<in> set ?xs"
    using r that fits_iff_encoding [OF assms(2)] by (auto simp: rep_def)
  ultimately show ?thesis using s by (auto simp: intsetFind_def)
qed

subsection \<open>The contract of a set\<close>

text \<open>
  What the set commands rely on: insertion and removal return the new set and whether it changed.
  \<open>cap\<close> bounds the number of elements for which the representation works.
\<close>

locale set_store =
  fixes ins :: "'a \<Rightarrow> 's \<Rightarrow> 's \<times> bool" and del :: "'a \<Rightarrow> 's \<Rightarrow> 's \<times> bool" and mem :: "'a \<Rightarrow> 's \<Rightarrow> bool"
    and abs :: "'s \<Rightarrow> 'a set" and inv :: "'s \<Rightarrow> bool" and dom :: "'a \<Rightarrow> bool" and cap :: nat
  assumes ins_ok: "inv s \<Longrightarrow> dom x \<Longrightarrow> card (abs s) < cap \<Longrightarrow>
      inv (fst (ins x s)) \<and> abs (fst (ins x s)) = insert x (abs s) \<and> snd (ins x s) = (x \<notin> abs s)"
    and del_ok: "inv s \<Longrightarrow> dom x \<Longrightarrow> card (abs s) < cap \<Longrightarrow>
      inv (fst (del x s)) \<and> abs (fst (del x s)) = abs s - {x} \<and> snd (del x s) = (x \<in> abs s)"
    and mem_ok: "inv s \<Longrightarrow> dom x \<Longrightarrow> mem x s = (x \<in> abs s)"
    and finite_abs: "inv s \<Longrightarrow> finite (abs s)"
begin

lemma ins_all:
  assumes "inv s" "\<forall>x \<in> set xs. dom x" "card (abs s) + length xs \<le> cap"
  shows "inv (fold (\<lambda>x s. fst (ins x s)) xs s) \<and> abs (fold (\<lambda>x s. fst (ins x s)) xs s) = abs s \<union> set xs"
  using assms
proof (induction xs arbitrary: s)
  case (Cons x xs)
  let ?s = "fst (ins x s)"
  have i: "inv ?s" "abs ?s = insert x (abs s)" using ins_ok [of s x] Cons.prems by auto
  have "card (abs ?s) \<le> Suc (card (abs s))"
    unfolding i(2) using finite_abs [OF Cons.prems(1)] by (simp add: card_insert_if)
  with Cons.IH [of ?s] Cons.prems i show ?case by auto
qed simp

lemma ins_mem: "inv s \<Longrightarrow> dom x \<Longrightarrow> dom y \<Longrightarrow> card (abs s) < cap \<Longrightarrow> mem y (fst (ins x s)) = (y = x \<or> mem y s)"
  using ins_ok [of s x] mem_ok [of s y] mem_ok [of "fst (ins x s)" y] by auto

lemma del_mem: "inv s \<Longrightarrow> dom x \<Longrightarrow> dom y \<Longrightarrow> card (abs s) < cap \<Longrightarrow> mem y (fst (del x s)) = (y \<noteq> x \<and> mem y s)"
  using del_ok [of s x] mem_ok [of s y] mem_ok [of "fst (del x s)" y] by auto

end

lemma inv_small: "intset_inv is \<Longrightarrow> card (set (elems is)) < 2 ^ 29 \<Longrightarrow> small is"
proof -
  assume i: "intset_inv is" and c: "card (set (elems is)) < 2 ^ 29"
  have "distinct (elems is)" using i by (simp add: intset_inv_def strict_sorted_iff)
  then have "length (elems is) < 2 ^ 29" using c by (simp only: distinct_card)
  then have "is_length is < 2 ^ 29" by (simp add: elems_def)
  moreover have "is_encoding is \<le> 8" using i by (auto simp: intset_inv_def rep_def)
  ultimately have "is_length is * is_encoding is < 2 ^ 29 * 8"
    by (meson le_less_trans mult_less_mono1 mult_le_mono2 zero_less_numeral)
  then show ?thesis by (simp add: small_def)
qed

interpretation intset: set_store "\<lambda>v is. intsetAdd 0 is v" "\<lambda>v is. intsetRemove 0 is v"
  "\<lambda>v is. intsetFind is v" "\<lambda>is. set (elems is)" intset_inv in_64 "2 ^ 29"
proof (unfold_locales, goal_cases)
  case (1 s x)
  then show ?case using elems_intsetAdd [OF 1(1) inv_small [OF 1(1,3)] 1(2), of 0]
    by (auto simp: set_insort_key)
next
  case (2 s x)
  then have "distinct (elems s)" by (simp add: intset_inv_def strict_sorted_iff)
  then show ?case using elems_intsetRemove [OF 2(1) inv_small [OF 2(1,3)] 2(2), of 0]
    by (auto simp: set_remove1_eq)
qed (auto simp: intsetFind_correct)




lemma intsetNew_ok: "intset_inv intsetNew" "elems intsetNew = []"
  using rep_New rep_elems by (auto simp: intset_inv_def)

subsection \<open>Sets as buffers\<close>










subsection \<open>A tail that is too long to move\<close>


lemma memmove_none [simp]: "memmove c dst src 0 = c"
  by (simp add: memmove_def)


subsection \<open>Properties\<close>

text \<open>
  C29.  \<open>intsetAdd\<close> implements insertion into a finite set of 64-bit integers on the byte array: the array
  stays strictly ascending with one common width, also when the width has to grow and the values are
  moved in place; it returns whether the value was new.
\<close>

theorem intset_add_refines:
  assumes "intset_inv is" "is_length is * is_encoding is < 2 ^ 32" "in_64 v"
  shows "intset_inv (fst (intsetAdd junk is v)) \<and>
    elems (fst (intsetAdd junk is v)) = (if v \<in> set (elems is) then elems is else insort v (elems is)) \<and>
    snd (intsetAdd junk is v) = (v \<notin> set (elems is))"
  using elems_intsetAdd [OF assms(1) _ assms(3)] assms(2) by (simp add: small_def)

theorem intset_add_refines_witness:
  "elems (fst (intsetAdd 0xaa (fst (intsetAdd 0 intsetNew 300)) (- 70000))) = [- 70000, 300]"
proof -
  have 1: "intset_inv (fst (intsetAdd 0 intsetNew 300))" "elems (fst (intsetAdd 0 intsetNew 300)) = [300]"
    using elems_intsetAdd [OF intsetNew_ok(1), where v = 300 and j = 0] intsetNew_ok(2)
    by (simp_all add: small_def intsetNew_def in_64_def)
  then have "is_length (fst (intsetAdd 0 intsetNew 300)) = 1" "is_encoding (fst (intsetAdd 0 intsetNew 300)) \<le> 8"
    by (auto simp: intset_inv_def rep_def)
  then show ?thesis
    using intset_add_refines [OF 1(1), where v = "- 70000" and junk = "0xaa"] 1(2) by (simp add: in_64_def)
qed

text \<open>
  C30.  \<open>intsetRemove\<close> implements removal, and \<open>intsetFind\<close> membership.
\<close>

theorem intset_remove_find_refines:
  assumes "intset_inv is" "is_length is * is_encoding is < 2 ^ 32" "in_64 v"
  shows "intset_inv (fst (intsetRemove junk is v)) \<and>
    elems (fst (intsetRemove junk is v)) = remove1 v (elems is) \<and>
    snd (intsetRemove junk is v) = (v \<in> set (elems is)) \<and> intsetFind is v = (v \<in> set (elems is))"
  using elems_intsetRemove [OF assms(1) _ assms(3)] assms(2) intsetFind_correct [OF assms(1,3)]
  by (simp add: small_def)

theorem intset_remove_find_refines_witness:
  "elems (fst (intsetRemove 0xaa (fst (intsetAdd 0 (fst (intsetAdd 0 intsetNew 300)) (- 7))) 300)) = [- 7] \<and>
    intsetFind (fst (intsetAdd 0 (fst (intsetAdd 0 intsetNew 300)) (- 7))) 300"
proof -
  let ?a = "fst (intsetAdd 0 intsetNew 300)" and ?b = "fst (intsetAdd 0 (fst (intsetAdd 0 intsetNew 300)) (- 7))"
  have s: "small is" if "intset_inv is" "elems is = xs" "length xs < 2 ^ 20" for "is" xs
  proof -
    have "card (set (elems is)) < 2 ^ 29" using card_length [of xs] that(2,3) by simp
    then show ?thesis by (rule inv_small [OF that(1)])
  qed
  have v: "in_64 300" "in_64 (- 7)" by (simp_all add: in_64_def)
  have a: "intset_inv ?a" "elems ?a = [300]"
    using elems_intsetAdd [OF intsetNew_ok(1) s [OF intsetNew_ok] v(1), of 0] by (simp_all add: intsetNew_ok(2))
  have b: "intset_inv ?b" "elems ?b = [- 7, 300]" using elems_intsetAdd [OF a(1) s [OF a] v(2), of 0] a(2) by simp_all
  have "is_length ?b * is_encoding ?b < 2 ^ 32" using s [OF b] by (simp add: small_def)
  from intset_remove_find_refines [OF b(1) this v(1), of "0xaa"] b(2) show ?thesis by simp
qed






end
