(* ===== verification/Dict.thy ===== *)
theory Dict
  imports Prelude
begin

text \<open>
  The hash table of the Kanban server (\<open>kanban/src/dict.c\<close>): two arrays of chains, of which the second
  one exists while the dictionary is being rehashed bucket by bucket, a step with every operation.

  A chain is the list of its entries, an array the list of its chains; \<open>size\<close> and \<open>sizemask\<close> are those
  of the array.  Keys are compared by equality.  The hash function of the dictionary type, its
  permission to grow and the global \<open>dict_can_resize\<close> are the fields of the environment.  An operation
  returns \<open>None\<close> where the code would fail an assertion or read outside an array.  The rehash budget
  is a word of 32 bits.  Iterators are unsafe or safe, the latter pause the rehash; the fingerprint that an unsafe one
  compares in an assertion is left out.  The theory ends with the
  refinement of the dictionary to a finite map under every sequence of operations.
\<close>

unbundle bit_operations_syntax

subsection \<open>State\<close>

record 'k dictType =
  hashFunction :: "'k \<Rightarrow> 64 word"
  expandAllowed :: "nat \<Rightarrow> nat \<Rightarrow> nat \<Rightarrow> bool"
  dict_can_resize :: bool

record ('k, 'v) dictht =
  ht_table :: "('k \<times> 'v) list list"
  ht_used :: nat

record ('k, 'v) dict =
  ht0 :: "('k, 'v) dictht"
  ht1 :: "('k, 'v) dictht"
  rehashidx :: int
  pauserehash :: "16 word"

definition DICT_HT_INITIAL_SIZE :: nat where
  "DICT_HT_INITIAL_SIZE = 4"

definition dict_force_resize_ratio :: nat where
  "dict_force_resize_ratio = 5"

definition ht_size :: "('k, 'v) dictht \<Rightarrow> nat" where
  "ht_size ht = length (ht_table ht)"

definition dictReset :: "('k, 'v) dictht" where
  "dictReset = \<lparr>ht_table = [], ht_used = 0\<rparr>"

definition dictCreate :: "('k, 'v) dict" where
  "dictCreate = \<lparr>ht0 = dictReset, ht1 = dictReset, rehashidx = - 1, pauserehash = 0\<rparr>"

definition dictIsRehashing :: "('k, 'v) dict \<Rightarrow> bool" where
  "dictIsRehashing d \<longleftrightarrow> rehashidx d \<noteq> - 1"

definition dictSize :: "('k, 'v) dict \<Rightarrow> nat" where
  "dictSize d = ht_used (ht0 d) + ht_used (ht1 d)"

text \<open>The slot of a key, \<open>hash & sizemask\<close>.\<close>

definition ht_index :: "'k dictType \<Rightarrow> ('k, 'v) dictht \<Rightarrow> 'k \<Rightarrow> nat" where
  "ht_index E ht k = unat (hashFunction E k AND word_of_nat (ht_size ht - 1))"

definition ht_bucket :: "'k dictType \<Rightarrow> ('k, 'v) dictht \<Rightarrow> 'k \<Rightarrow> ('k \<times> 'v) list option" where
  "ht_bucket E ht k =
     (if ht_index E ht k < ht_size ht then Some (ht_table ht ! ht_index E ht k) else None)"

definition ht_set :: "('k, 'v) dictht \<Rightarrow> nat \<Rightarrow> ('k \<times> 'v) list \<Rightarrow> ('k, 'v) dictht" where
  "ht_set ht i b = ht\<lparr>ht_table := (ht_table ht)[i := b]\<rparr>"

text \<open>A new entry goes in front of its chain.\<close>

definition ht_push :: "('k, 'v) dictht \<Rightarrow> nat \<Rightarrow> 'k \<times> 'v \<Rightarrow> ('k, 'v) dictht" where
  "ht_push ht i e = ht\<lparr>ht_table := (ht_table ht)[i := e # ht_table ht ! i], ht_used := ht_used ht + 1\<rparr>"

subsection \<open>Growing\<close>

function dictNextPower_loop :: "nat \<Rightarrow> nat \<Rightarrow> nat" where
  "dictNextPower_loop i sz = (if i = 0 \<or> sz \<le> i then i else dictNextPower_loop (i * 2) sz)"
  by pat_completeness auto
termination by (relation "measure (\<lambda>(i, sz). sz - i)") auto

declare dictNextPower_loop.simps [simp del]

definition dictNextPower :: "nat \<Rightarrow> nat" where
  "dictNextPower sz =
     (if sz \<ge> 2 ^ 63 - 1 then 2 ^ 63 else dictNextPower_loop DICT_HT_INITIAL_SIZE sz)"

text \<open>
  \<open>dictExpand_raw\<close> is \<open>_dictExpand\<close>; \<open>fails\<close> is whether \<open>ztrycalloc\<close> fails (only \<open>dictTryExpand\<close> asks), the
  second result is \<open>DICT_OK\<close>.  The product is computed on 64 bits.
\<close>

definition dictExpand_raw :: "('k, 'v) dict \<Rightarrow> nat \<Rightarrow> bool \<Rightarrow> ('k, 'v) dict \<times> bool" where
  "dictExpand_raw d sz fails =
     (if dictIsRehashing d \<or> ht_used (ht0 d) > sz then (d, False)
      else let realsize = dictNextPower sz in
        if realsize < sz \<or> (realsize * 8) mod 2 ^ 64 < realsize then (d, False)
        else if realsize = ht_size (ht0 d) then (d, False)
        else if fails then (d, False)
        else let n = \<lparr>ht_table = replicate realsize [], ht_used = 0\<rparr> in
          if ht_table (ht0 d) = [] then (d\<lparr>ht0 := n\<rparr>, True)
          else (d\<lparr>ht1 := n, rehashidx := 0\<rparr>, True))"

definition dictExpand :: "('k, 'v) dict \<Rightarrow> nat \<Rightarrow> ('k, 'v) dict \<times> bool" where
  "dictExpand d sz = dictExpand_raw d sz False"

definition dictTryExpand :: "('k, 'v) dict \<Rightarrow> nat \<Rightarrow> bool \<Rightarrow> ('k, 'v) dict \<times> bool" where
  "dictTryExpand d sz fails =
     (case dictExpand_raw d sz fails of (d', ok) \<Rightarrow>
        (d', \<not> (fails \<and> snd (dictExpand_raw d sz False))))"

definition dictResize :: "'k dictType \<Rightarrow> ('k, 'v) dict \<Rightarrow> ('k, 'v) dict \<times> bool" where
  "dictResize E d =
     (if \<not> dict_can_resize E \<or> dictIsRehashing d then (d, False)
      else let minimal = ht_used (ht0 d);
               minimal = (if minimal < DICT_HT_INITIAL_SIZE then DICT_HT_INITIAL_SIZE else minimal)
           in dictExpand d minimal)"

definition dictTypeExpandAllowed :: "'k dictType \<Rightarrow> ('k, 'v) dict \<Rightarrow> bool" where
  "dictTypeExpandAllowed E d =
     expandAllowed E (dictNextPower (ht_used (ht0 d) + 1) * 8) (ht_used (ht0 d)) (ht_size (ht0 d))"

definition dictExpandIfNeeded :: "'k dictType \<Rightarrow> ('k, 'v) dict \<Rightarrow> ('k, 'v) dict \<times> bool" where
  "dictExpandIfNeeded E d =
     (if dictIsRehashing d then (d, True)
      else if ht_size (ht0 d) = 0 then dictExpand d DICT_HT_INITIAL_SIZE
      else if ht_used (ht0 d) \<ge> ht_size (ht0 d) \<and>
          (dict_can_resize E \<or> ht_used (ht0 d) div ht_size (ht0 d) > dict_force_resize_ratio) \<and>
          dictTypeExpandAllowed E d
        then dictExpand d (ht_used (ht0 d) + 1)
      else (d, True))"

subsection \<open>Incremental rehashing\<close>

text \<open>
  \<open>dictRehash_skip\<close> is the loop over empty buckets; it stops early when the budget \<open>empty_visits\<close> is
  used up.  The budget and the number of steps are \<open>int\<close>s: both are words, with the unsigned value of \<open>n\<close> as the number
  of turns of \<open>while(n--)\<close> and the product \<open>n * 10\<close> modulo \<open>2 ^ 32\<close>.
\<close>

function dictRehash_skip :: "('k \<times> 'v) list list \<Rightarrow> nat \<Rightarrow> 32 word \<Rightarrow> (nat \<times> 32 word \<times> bool) option" where
  "dictRehash_skip t i empty_visits =
     (if length t \<le> i then None
      else if t ! i \<noteq> [] then Some (i, empty_visits, False)
      else if empty_visits - 1 = 0 then Some (i + 1, empty_visits - 1, True)
      else dictRehash_skip t (i + 1) (empty_visits - 1))"
  by pat_completeness auto
termination by (relation "measure (\<lambda>(t, i, e). length t - i)") auto

declare dictRehash_skip.simps [simp del]

definition dictRehash_bucket :: "'k dictType \<Rightarrow> ('k, 'v) dict \<Rightarrow> nat \<Rightarrow> ('k, 'v) dict" where
  "dictRehash_bucket E d i =
     (let b = ht_table (ht0 d) ! i;
          n = fold (\<lambda>e ht. ht_push ht (ht_index E ht (fst e)) e) b (ht1 d)
      in d\<lparr>ht0 := (ht_set (ht0 d) i [])\<lparr>ht_used := ht_used (ht0 d) - length b\<rparr>, ht1 := n,
           rehashidx := int i + 1\<rparr>)"

fun dictRehash_loop :: "'k dictType \<Rightarrow> nat \<Rightarrow> 32 word \<Rightarrow> ('k, 'v) dict \<Rightarrow> (('k, 'v) dict \<times> bool) option" where
  "dictRehash_loop E 0 empty_visits d = Some (d, False)"
| "dictRehash_loop E (Suc n) empty_visits d =
     (if ht_used (ht0 d) = 0 then Some (d, False)
      else if \<not> int (ht_size (ht0 d)) > rehashidx d then None
      else case dictRehash_skip (ht_table (ht0 d)) (nat (rehashidx d)) empty_visits of
          None \<Rightarrow> None
        | Some (i, empty_visits, stop) \<Rightarrow>
            if stop then Some (d\<lparr>rehashidx := int i\<rparr>, True)
            else dictRehash_loop E n empty_visits (dictRehash_bucket E d i))"

text \<open>The second result is the return value: whether there is more to move.\<close>

definition dictRehash :: "'k dictType \<Rightarrow> ('k, 'v) dict \<Rightarrow> 32 word \<Rightarrow> (('k, 'v) dict \<times> bool) option" where
  "dictRehash E d n =
     (if \<not> dictIsRehashing d then Some (d, False)
      else case dictRehash_loop E (unat n) (n * 10) d of
          None \<Rightarrow> None
        | Some (d, stopped) \<Rightarrow>
            if stopped then Some (d, True)
            else if ht_used (ht0 d) = 0
            then Some (d\<lparr>ht0 := ht1 d, ht1 := dictReset, rehashidx := - 1\<rparr>, False)
            else Some (d, True))"

definition dictRehashStep :: "'k dictType \<Rightarrow> ('k, 'v) dict \<Rightarrow> ('k, 'v) dict option" where
  "dictRehashStep E d = (if pauserehash d = 0 then map_option fst (dictRehash E d 1) else Some d)"

definition dict_step :: "'k dictType \<Rightarrow> ('k, 'v) dict \<Rightarrow> ('k, 'v) dict option" where
  "dict_step E d = (if dictIsRehashing d then dictRehashStep E d else Some d)"

subsection \<open>Lookup and update\<close>

text \<open>The search through one or two tables that the operations share; the value of the first match.\<close>

definition dict_search :: "'k dictType \<Rightarrow> ('k, 'v) dict \<Rightarrow> 'k \<Rightarrow> 'v option option" where
  "dict_search E d k =
     (case ht_bucket E (ht0 d) k of None \<Rightarrow> None
      | Some b \<Rightarrow>
          (case map_of b k of Some v \<Rightarrow> Some (Some v)
           | None \<Rightarrow>
               if \<not> dictIsRehashing d then Some None
               else map_option (\<lambda>b. map_of b k) (ht_bucket E (ht1 d) k)))"

definition dictFind :: "'k dictType \<Rightarrow> ('k, 'v) dict \<Rightarrow> 'k \<Rightarrow> (('k, 'v) dict \<times> 'v option) option" where
  "dictFind E d k =
     (if dictSize d = 0 then Some (d, None)
      else case dict_step E d of None \<Rightarrow> None
        | Some d \<Rightarrow> map_option (\<lambda>r. (d, r)) (dict_search E d k))"

text \<open>\<open>_dictKeyIndex\<close>: no index when the key exists or the table cannot grow.\<close>

definition dictKeyIndex ::
  "'k dictType \<Rightarrow> ('k, 'v) dict \<Rightarrow> 'k \<Rightarrow> (('k, 'v) dict \<times> nat option) option" where
  "dictKeyIndex E d k =
     (case dictExpandIfNeeded E d of (d, ok) \<Rightarrow>
        if \<not> ok then Some (d, None)
        else case dict_search E d k of None \<Rightarrow> None
          | Some (Some v) \<Rightarrow> Some (d, None)
          | Some None \<Rightarrow>
              Some (d, Some (ht_index E (if dictIsRehashing d then ht1 d else ht0 d) k)))"

text \<open>A new entry goes into the second table during a rehash.\<close>

definition dict_insert :: "('k, 'v) dict \<Rightarrow> nat \<Rightarrow> 'k \<times> 'v \<Rightarrow> ('k, 'v) dict" where
  "dict_insert d i e =
     (if dictIsRehashing d then d\<lparr>ht1 := ht_push (ht1 d) i e\<rparr> else d\<lparr>ht0 := ht_push (ht0 d) i e\<rparr>)"

text \<open>
  \<open>dictAddRaw\<close> with the \<open>dictSetVal\<close> of its caller: the value goes into the new entry at once.
\<close>

definition dictAdd ::
  "'k dictType \<Rightarrow> ('k, 'v) dict \<Rightarrow> 'k \<Rightarrow> 'v \<Rightarrow> (('k, 'v) dict \<times> bool) option" where
  "dictAdd E d k v =
     (case dict_step E d of None \<Rightarrow> None
      | Some d \<Rightarrow>
          (case dictKeyIndex E d k of None \<Rightarrow> None
           | Some (d, None) \<Rightarrow> Some (d, False)
           | Some (d, Some i) \<Rightarrow>
               Some (dict_insert d i (k, v), True)))"

text \<open>The chain after overwriting or unlinking the first entry with the key.\<close>

fun chain_set :: "'k \<Rightarrow> 'v \<Rightarrow> ('k \<times> 'v) list \<Rightarrow> ('k \<times> 'v) list" where
  "chain_set k v [] = []"
| "chain_set k v (e # b) = (if fst e = k then (k, v) # b else e # chain_set k v b)"

fun chain_unlink :: "'k \<Rightarrow> ('k \<times> 'v) list \<Rightarrow> ('k \<times> 'v) list" where
  "chain_unlink k [] = []"
| "chain_unlink k (e # b) = (if fst e = k then b else e # chain_unlink k b)"

text \<open>\<open>dict_update f\<close> rewrites the chain that holds the key, in the table where it is found.\<close>

definition dict_update :: "'k dictType \<Rightarrow> (('k \<times> 'v) list \<Rightarrow> ('k \<times> 'v) list) \<Rightarrow> 'k \<Rightarrow>
    ('k, 'v) dict \<Rightarrow> ('k, 'v) dict" where
  "dict_update E f k d =
     (if ht_index E (ht0 d) k < ht_size (ht0 d) \<and>
         map_of (ht_table (ht0 d) ! ht_index E (ht0 d) k) k \<noteq> None
      then d\<lparr>ht0 := ht_set (ht0 d) (ht_index E (ht0 d) k) (f (ht_table (ht0 d) ! ht_index E (ht0 d) k))\<rparr>
      else d\<lparr>ht1 := ht_set (ht1 d) (ht_index E (ht1 d) k) (f (ht_table (ht1 d) ! ht_index E (ht1 d) k))\<rparr>)"

text \<open>
  \<open>dictReplace\<close>; without a new entry the value of the existing one is overwritten.  When the table
  could not grow there is no existing entry and the code would follow a null pointer.
\<close>

definition dictReplace ::
  "'k dictType \<Rightarrow> ('k, 'v) dict \<Rightarrow> 'k \<Rightarrow> 'v \<Rightarrow> (('k, 'v) dict \<times> bool) option" where
  "dictReplace E d k v =
     (case dictAdd E d k v of None \<Rightarrow> None
      | Some (d, True) \<Rightarrow> Some (d, True)
      | Some (d, False) \<Rightarrow>
          (case dict_search E d k of Some (Some _) \<Rightarrow> Some (dict_update E (chain_set k v) k d, False)
           | _ \<Rightarrow> None))"

text \<open>
  \<open>dictGenericDelete\<close>: the result is the value of the unlinked entry.  \<open>used\<close> is decremented in the table
  that held it.
\<close>

definition dict_unlink :: "'k dictType \<Rightarrow> 'k \<Rightarrow> ('k, 'v) dict \<Rightarrow> ('k, 'v) dict" where
  "dict_unlink E k d =
     (let d' = dict_update E (chain_unlink k) k d
      in if ht_index E (ht0 d) k < ht_size (ht0 d) \<and>
            map_of (ht_table (ht0 d) ! ht_index E (ht0 d) k) k \<noteq> None
         then d'\<lparr>ht0 := (ht0 d')\<lparr>ht_used := ht_used (ht0 d) - 1\<rparr>\<rparr>
         else d'\<lparr>ht1 := (ht1 d')\<lparr>ht_used := ht_used (ht1 d) - 1\<rparr>\<rparr>)"

definition dictGenericDelete ::
  "'k dictType \<Rightarrow> ('k, 'v) dict \<Rightarrow> 'k \<Rightarrow> (('k, 'v) dict \<times> 'v option) option" where
  "dictGenericDelete E d k =
     (if ht_used (ht0 d) = 0 \<and> ht_used (ht1 d) = 0 then Some (d, None)
      else case dict_step E d of None \<Rightarrow> None
        | Some d \<Rightarrow>
            (case dict_search E d k of None \<Rightarrow> None
             | Some None \<Rightarrow> Some (d, None)
             | Some (Some v) \<Rightarrow> Some (dict_unlink E k d, Some v)))"

definition dictDelete :: "'k dictType \<Rightarrow> ('k, 'v) dict \<Rightarrow> 'k \<Rightarrow> (('k, 'v) dict \<times> bool) option" where
  "dictDelete E d k = map_option (\<lambda>(d, r). (d, r \<noteq> None)) (dictGenericDelete E d k)"

definition dictEmpty :: "('k, 'v) dict \<Rightarrow> ('k, 'v) dict" where
  "dictEmpty d = \<lparr>ht0 = dictReset, ht1 = dictReset, rehashidx = - 1, pauserehash = 0\<rparr>"

subsection \<open>Iteration\<close>

text \<open>
  An iterator between two calls: the table and slot it is at, the rest of the chain (\<open>nextEntry\<close>), and whether it is a
  safe one.  The first call on a safe iterator pauses the rehash, and its release resumes it.  An unsafe iterator
  records a fingerprint of the dictionary instead, a hash over addresses and counters that its release compares to
  detect a misuse; the fingerprint is not part of the model.
\<close>

record ('k, 'v) dictIterator =
  it_table :: nat
  it_index :: int
  it_safe :: bool
  it_next :: "('k \<times> 'v) list"

definition dictGetIterator :: "('k, 'v) dictIterator" where
  "dictGetIterator = \<lparr>it_table = 0, it_index = - 1, it_safe = False, it_next = []\<rparr>"

definition dictGetSafeIterator :: "('k, 'v) dictIterator" where
  "dictGetSafeIterator = dictGetIterator\<lparr>it_safe := True\<rparr>"

definition dictPauseRehashing :: "('k, 'v) dict \<Rightarrow> ('k, 'v) dict" where
  "dictPauseRehashing d = d\<lparr>pauserehash := pauserehash d + 1\<rparr>"

definition dictResumeRehashing :: "('k, 'v) dict \<Rightarrow> ('k, 'v) dict" where
  "dictResumeRehashing d = d\<lparr>pauserehash := pauserehash d - 1\<rparr>"

text \<open>
  One turn of the loop of \<open>dictNext\<close> moves to the next slot, from the first table to the second one during a
  rehash; \<open>None\<close> is the \<open>break\<close>.
\<close>

definition it_ht :: "('k, 'v) dict \<Rightarrow> ('k, 'v) dictIterator \<Rightarrow> ('k, 'v) dictht" where
  "it_ht d it = (if it_table it = 0 then ht0 d else ht1 d)"

definition it_advance :: "('k, 'v) dict \<Rightarrow> ('k, 'v) dictIterator \<Rightarrow> ('k, 'v) dictIterator option" where
  "it_advance d it =
     (let i = it_index it + 1 in
      if i < int (ht_size (it_ht d it)) then
        Some (it\<lparr>it_index := i, it_next := ht_table (it_ht d it) ! nat i\<rparr>)
      else if dictIsRehashing d \<and> it_table it = 0 then
        Some (it\<lparr>it_table := 1, it_index := 0, it_next := ht_table (ht1 d) ! 0\<rparr>)
      else None)"

definition it_left :: "('k, 'v) dict \<Rightarrow> ('k, 'v) dictIterator \<Rightarrow> nat" where
  "it_left d it =
     (if it_table it = 0 then nat (int (ht_size (ht0 d)) - it_index it) + ht_size (ht1 d) + 1
      else nat (int (ht_size (ht1 d)) - it_index it))"

lemma it_advance_left: "it_advance d it = Some it' \<Longrightarrow> it_left d it' < it_left d it"
  by (auto simp: it_advance_def it_left_def it_ht_def Let_def split: if_splits)

function dictNext_loop :: "('k, 'v) dict \<Rightarrow> ('k, 'v) dictIterator \<Rightarrow> ('k \<times> 'v) option \<times> ('k, 'v) dictIterator" where
  "dictNext_loop d it =
     (case it_next it of
        e # r \<Rightarrow> (Some e, it\<lparr>it_next := r\<rparr>)
      | [] \<Rightarrow> (case it_advance d it of
                None \<Rightarrow> (None, it\<lparr>it_index := it_index it + 1\<rparr>)
              | Some it \<Rightarrow> dictNext_loop d it))"
  by pat_completeness auto
termination
  by (relation "measure (\<lambda>(d, it). it_left d it)") (auto simp: it_advance_left)

declare dictNext_loop.simps [simp del]

text \<open>Only the first turn of the first call finds the index \<open>- 1\<close>.\<close>

definition dictNext ::
  "('k, 'v) dict \<Rightarrow> ('k, 'v) dictIterator \<Rightarrow> ('k, 'v) dict \<times> ('k \<times> 'v) option \<times> ('k, 'v) dictIterator" where
  "dictNext d it =
     (let d = (if it_index it = - 1 \<and> it_table it = 0 \<and> it_safe it then dictPauseRehashing d else d)
      in (d, dictNext_loop d it))"

definition dictReleaseIterator :: "('k, 'v) dict \<Rightarrow> ('k, 'v) dictIterator \<Rightarrow> ('k, 'v) dict" where
  "dictReleaseIterator d it =
     (if \<not> (it_index it = - 1 \<and> it_table it = 0) \<and> it_safe it then dictResumeRehashing d else d)"

text \<open>The entries that the first \<open>n\<close> calls return, up to the \<open>NULL\<close>, and the state afterwards.\<close>

fun dict_collect :: "nat \<Rightarrow> ('k, 'v) dict \<Rightarrow> ('k, 'v) dictIterator \<Rightarrow>
    ('k \<times> 'v) list \<times> ('k, 'v) dict \<times> ('k, 'v) dictIterator" where
  "dict_collect 0 d it = ([], d, it)"
| "dict_collect (Suc n) d it =
     (case dictNext d it of
        (d, None, it) \<Rightarrow> ([], d, it)
      | (d, Some e, it) \<Rightarrow> (case dict_collect n d it of (es, d, it) \<Rightarrow> (e # es, d, it)))"

subsection \<open>Runs\<close>

text \<open>A client's calls in sequence, on the dictionary and on a finite map.\<close>

datatype ('k, 'v) dict_op =
    DFind 'k
  | DAdd 'k 'v
  | DReplace 'k 'v
  | DDelete 'k
  | DResize
  | DRehash "32 word"

datatype 'v dict_out = OVal "'v option" | OBool bool | ODone

fun dict_exec :: "'k dictType \<Rightarrow> ('k, 'v) dict_op \<Rightarrow> ('k, 'v) dict \<Rightarrow> (('k, 'v) dict \<times> 'v dict_out) option" where
  "dict_exec E (DFind k) d = map_option (\<lambda>(d, r). (d, OVal r)) (dictFind E d k)"
| "dict_exec E (DAdd k v) d = map_option (\<lambda>(d, r). (d, OBool r)) (dictAdd E d k v)"
| "dict_exec E (DReplace k v) d = map_option (\<lambda>(d, r). (d, OBool r)) (dictReplace E d k v)"
| "dict_exec E (DDelete k) d = map_option (\<lambda>(d, r). (d, OBool r)) (dictDelete E d k)"
| "dict_exec E DResize d = Some (fst (dictResize E d), ODone)"
| "dict_exec E (DRehash n) d = map_option (\<lambda>(d, r). (d, ODone)) (dictRehash E d n)"

fun dict_run :: "'k dictType \<Rightarrow> ('k, 'v) dict_op list \<Rightarrow> ('k, 'v) dict \<Rightarrow> (('k, 'v) dict \<times> 'v dict_out list) option" where
  "dict_run E [] d = Some (d, [])"
| "dict_run E (c # cs) d =
     (case dict_exec E c d of None \<Rightarrow> None
      | Some (d, r) \<Rightarrow> map_option (\<lambda>(d, rs). (d, r # rs)) (dict_run E cs d))"

fun map_exec :: "('k, 'v) dict_op \<Rightarrow> ('k \<rightharpoonup> 'v) \<Rightarrow> ('k \<rightharpoonup> 'v) \<times> 'v dict_out" where
  "map_exec (DFind k) m = (m, OVal (m k))"
| "map_exec (DAdd k v) m = (if m k = None then (m(k \<mapsto> v), OBool True) else (m, OBool False))"
| "map_exec (DReplace k v) m = (m(k \<mapsto> v), OBool (m k = None))"
| "map_exec (DDelete k) m = (m(k := None), OBool (m k \<noteq> None))"
| "map_exec DResize m = (m, ODone)"
| "map_exec (DRehash n) m = (m, ODone)"

fun map_run :: "('k, 'v) dict_op list \<Rightarrow> ('k \<rightharpoonup> 'v) \<Rightarrow> ('k \<rightharpoonup> 'v) \<times> 'v dict_out list" where
  "map_run [] m = (m, [])"
| "map_run (c # cs) m =
     (case map_exec c m of (m, r) \<Rightarrow> (case map_run cs m of (m, rs) \<Rightarrow> (m, r # rs)))"

subsection \<open>Invariant and abstraction\<close>

definition ht_entries :: "('k, 'v) dictht \<Rightarrow> ('k \<times> 'v) list" where
  "ht_entries ht = concat (ht_table ht)"

definition dict_entries :: "('k, 'v) dict \<Rightarrow> ('k \<times> 'v) list" where
  "dict_entries d = ht_entries (ht0 d) @ ht_entries (ht1 d)"

definition dict_abs :: "('k, 'v) dict \<Rightarrow> 'k \<rightharpoonup> 'v" where
  "dict_abs d = map_of (dict_entries d)"

definition ht_inv :: "'k dictType \<Rightarrow> ('k, 'v) dictht \<Rightarrow> bool" where
  "ht_inv E ht \<longleftrightarrow> ht_used ht = length (ht_entries ht) \<and> ht_size ht \<le> 2 ^ 63 \<and>
     (\<forall>i < ht_size ht. \<forall>e \<in> set (ht_table ht ! i). ht_index E ht (fst e) = i)"

definition dict_inv :: "'k dictType \<Rightarrow> ('k, 'v) dict \<Rightarrow> bool" where
  "dict_inv E d \<longleftrightarrow> ht_inv E (ht0 d) \<and> ht_inv E (ht1 d) \<and> distinct (map fst (dict_entries d)) \<and>
     (if rehashidx d = - 1 then ht1 d = dictReset
      else 0 \<le> rehashidx d \<and> 0 < ht_size (ht0 d) \<and> 0 < ht_size (ht1 d) \<and>
        (\<forall>i < nat (rehashidx d). i < ht_size (ht0 d) \<longrightarrow> ht_table (ht0 d) ! i = []))"

lemma mset_concat_update:
  "i < length t \<Longrightarrow> mset (concat (t[i := b])) + mset (t ! i) = mset (concat t) + mset b"
proof (induction t arbitrary: i)
  case (Cons x t)
  show ?case
  proof (cases i)
    case (Suc j)
    with Cons show ?thesis by (simp add: ac_simps)
  qed simp
qed simp

lemma unat_word_of_nat: "n < 2 ^ 64 \<Longrightarrow> unat (word_of_nat n :: 64 word) = n"
  by (simp add: unsigned_of_nat take_bit_nat_eq_self)

lemma ht_index_less: "0 < ht_size ht \<Longrightarrow> ht_size ht \<le> 2 ^ 63 \<Longrightarrow> ht_index E ht k < ht_size ht"
proof -
  assume s: "0 < ht_size ht" "ht_size ht \<le> 2 ^ 63"
  have "hashFunction E k AND word_of_nat (ht_size ht - 1) \<le> word_of_nat (ht_size ht - 1)"
    by (rule word_and_le1)
  then have "ht_index E ht k \<le> unat (word_of_nat (ht_size ht - 1) :: 64 word)"
    by (simp add: ht_index_def word_le_nat_alt)
  also have "\<dots> = ht_size ht - 1" by (rule unat_word_of_nat) (use s in simp)
  finally show ?thesis using s by simp
qed

lemma ht_index_cong: "ht_size ht = ht_size ht' \<Longrightarrow> ht_index E ht k = ht_index E ht' k"
  by (simp add: ht_index_def)

lemma ht_upd_simps [simp]:
  "ht_size (ht_set ht i b) = ht_size ht" "ht_size (ht_push ht i e) = ht_size ht"
  "ht_size (ht\<lparr>ht_used := n\<rparr>) = ht_size ht" "ht_entries (ht\<lparr>ht_used := n\<rparr>) = ht_entries ht"
  "ht_used (ht_set ht i b) = ht_used ht" "ht_table (ht_set ht i b) = (ht_table ht)[i := b]"
  "ht_used (ht_push ht i e) = ht_used ht + 1"
  "ht_table (ht_push ht i e) = (ht_table ht)[i := e # ht_table ht ! i]"
  by (simp_all add: ht_size_def ht_set_def ht_push_def ht_entries_def)

lemma ht_reset_simps [simp]:
  "ht_inv E dictReset" "ht_size dictReset = 0" "ht_entries dictReset = []" "ht_used dictReset = 0"
  "ht_table dictReset = []"
  by (simp_all add: ht_inv_def dictReset_def ht_size_def ht_entries_def)

lemma ht_set_entries:
  assumes "i < ht_size ht"
  shows "mset (ht_entries (ht_set ht i b)) + mset (ht_table ht ! i) = mset (ht_entries ht) + mset b"
  using assms by (simp add: ht_entries_def ht_size_def mset_concat_update)

lemma ht_push_entries:
  assumes "i < ht_size ht"
  shows "mset (ht_entries (ht_push ht i e)) = add_mset e (mset (ht_entries ht))"
  using mset_concat_update [of i "ht_table ht" "e # ht_table ht ! i"] assms
  by (simp add: ht_entries_def ht_size_def)

lemma ht_inv_push:
  assumes "ht_inv E ht" "0 < ht_size ht"
  shows "ht_inv E (ht_push ht (ht_index E ht (fst e)) e)"
proof -
  have i: "ht_index E ht (fst e) < ht_size ht" using assms by (intro ht_index_less) (auto simp: ht_inv_def)
  have c: "ht_index E (ht_push ht j e') k = ht_index E ht k" for j e' k by (rule ht_index_cong) simp
  have "length (ht_entries (ht_push ht (ht_index E ht (fst e)) e)) = Suc (length (ht_entries ht))"
    using ht_push_entries [OF i, of e] by (metis size_add_mset size_mset)
  with assms i show ?thesis
    by (auto simp: ht_inv_def c nth_list_update ht_size_def)
qed

lemma ht_inv_set:
  assumes "ht_inv E ht" "i < ht_size ht" "\<forall>e \<in> set b. ht_index E ht (fst e) = i"
    and "n + length (ht_table ht ! i) = ht_used ht + length b"
  shows "ht_inv E ((ht_set ht i b)\<lparr>ht_used := n\<rparr>)"
proof -
  have c: "ht_index E ((ht_set ht i b)\<lparr>ht_used := n\<rparr>) k = ht_index E ht k" for k
    by (rule ht_index_cong) simp
  have "length (ht_entries (ht_set ht i b)) + length (ht_table ht ! i) = length (ht_entries ht) + length b"
    using ht_set_entries [OF assms(2), of b] by (metis size_mset size_union)
  with assms show ?thesis
    by (auto simp: ht_inv_def c nth_list_update ht_size_def)
qed

lemma dict_abs_cong:
  assumes "mset (dict_entries d) = mset (dict_entries d')" "distinct (map fst (dict_entries d))"
  shows "dict_abs d = dict_abs d'" "distinct (map fst (dict_entries d'))"
proof -
  show 1: "distinct (map fst (dict_entries d'))" using assms by (metis mset_eq_imp_distinct_iff mset_map)
  have "set (dict_entries d) = set (dict_entries d')" using assms(1) by (rule mset_eq_setD)
  then show "dict_abs d = dict_abs d'" unfolding dict_abs_def using assms(2) 1 by (rule map_of_inject_set [THEN iffD2, rotated 2])
qed

lemma ht_lookup:
  assumes "ht_inv E ht" "0 < ht_size ht" "distinct (map fst (ht_entries ht))"
  shows "ht_bucket E ht k = Some (ht_table ht ! ht_index E ht k)"
    and "map_of (ht_table ht ! ht_index E ht k) k = map_of (ht_entries ht) k"
proof -
  let ?b = "ht_table ht ! ht_index E ht k"
  have i: "ht_index E ht k < ht_size ht" using assms by (intro ht_index_less) (auto simp: ht_inv_def)
  then show "ht_bucket E ht k = Some ?b" by (simp add: ht_bucket_def)
  have b: "?b \<in> set (ht_table ht)" using i by (simp add: ht_size_def)
  have sub: "set ?b \<subseteq> set (ht_entries ht)" using b by (auto simp: ht_entries_def)
  have key: "(k, v) \<in> set ?b" if "(k, v) \<in> set (ht_entries ht)" for v
  proof -
    from that obtain j where "j < ht_size ht" "(k, v) \<in> set (ht_table ht ! j)"
      by (auto simp: ht_entries_def ht_size_def in_set_conv_nth [of _ "ht_table ht"])
    moreover from this assms(1) have "ht_index E ht k = j" by (fastforce simp: ht_inv_def)
    ultimately show ?thesis by simp
  qed
  show "map_of ?b k = map_of (ht_entries ht) k"
  proof (cases "map_of ?b k")
    case None
    then have "k \<notin> fst ` set (ht_entries ht)" using key by (force simp: map_of_eq_None_iff)
    with None show ?thesis by (simp add: map_of_eq_None_iff [THEN iffD2])
  next
    case (Some v)
    then have "(k, v) \<in> set (ht_entries ht)" using sub map_of_SomeD by fastforce
    with assms(3) Some show ?thesis by simp
  qed
qed

lemma dict_invD:
  assumes "dict_inv E d"
  shows "ht_inv E (ht0 d)" "ht_inv E (ht1 d)" "distinct (map fst (dict_entries d))"
    "distinct (map fst (ht_entries (ht0 d)))" "distinct (map fst (ht_entries (ht1 d)))"
    "\<not> dictIsRehashing d \<Longrightarrow> ht1 d = dictReset"
    "dictIsRehashing d \<Longrightarrow> 0 < ht_size (ht0 d) \<and> 0 < ht_size (ht1 d) \<and> 0 \<le> rehashidx d"
  using assms by (auto simp: dict_inv_def dictIsRehashing_def dict_entries_def split: if_splits)

lemma dict_search_correct:
  assumes "dict_inv E d" "0 < ht_size (ht0 d)"
  shows "dict_search E d k = Some (dict_abs d k)"
proof (cases "dictIsRehashing d")
  case True
  then show ?thesis
    using ht_lookup [OF dict_invD(1) _ dict_invD(4), OF assms(1) assms(2) assms(1), of k]
      ht_lookup [OF dict_invD(2) _ dict_invD(5), OF assms(1) _ assms(1), of k]
      dict_invD(7) [OF assms(1) True] dict_invD(3) [OF assms(1)]
    by (auto simp: dict_search_def dict_abs_def dict_entries_def map_add_def split: option.splits)
next
  case False
  then show ?thesis
    using ht_lookup [OF dict_invD(1) _ dict_invD(4), OF assms(1) assms(2) assms(1), of k]
      dict_invD(6) [OF assms(1) False]
    by (auto simp: dict_search_def dict_abs_def dict_entries_def split: option.splits)
qed

subsection \<open>Rehashing keeps the entries\<close>

lemma dictRehash_skip_spec:
  assumes "\<forall>j < i. t ! j = []" "i \<le> n" "n < length t" "t ! n \<noteq> []"
  shows "\<exists>i' ev stop. dictRehash_skip t i e = Some (i', ev, stop) \<and> (\<forall>j < i'. t ! j = []) \<and>
    (\<not> stop \<longrightarrow> i' < length t)"
  using assms
proof (induction t i e rule: dictRehash_skip.induct)
  case (1 t i e)
  show ?case
  proof (cases "t ! i = [] \<and> e - 1 \<noteq> 0")
    case True
    with "1.prems" have "i \<noteq> n" by auto
    moreover have "\<forall>j < i + 1. t ! j = []" using "1.prems"(1) True by (simp add: less_Suc_eq)
    ultimately show ?thesis
      using 1 True by (subst dictRehash_skip.simps) simp
  next
    case False
    with "1.prems" show ?thesis by (subst dictRehash_skip.simps) (auto simp: less_Suc_eq)
  qed
qed

lemma move_entries:
  assumes "ht_inv E ht" "0 < ht_size ht"
  shows "ht_inv E (fold (\<lambda>e ht. ht_push ht (ht_index E ht (fst e)) e) b ht) \<and>
    ht_size (fold (\<lambda>e ht. ht_push ht (ht_index E ht (fst e)) e) b ht) = ht_size ht \<and>
    mset (ht_entries (fold (\<lambda>e ht. ht_push ht (ht_index E ht (fst e)) e) b ht)) =
      mset b + mset (ht_entries ht)"
  using assms
proof (induction b arbitrary: ht)
  case (Cons e b)
  let ?h = "ht_push ht (ht_index E ht (fst e)) e"
  have "ht_index E ht (fst e) < ht_size ht" using Cons.prems by (intro ht_index_less) (auto simp: ht_inv_def)
  then have "mset (ht_entries ?h) = add_mset e (mset (ht_entries ht))" by (rule ht_push_entries)
  with Cons.IH [of ?h] Cons.prems ht_inv_push [of E ht e] show ?case by simp
qed simp

definition rehash_ok :: "'k dictType \<Rightarrow> ('k, 'v) dict \<Rightarrow> ('k, 'v) dict \<Rightarrow> bool" where
  "rehash_ok E d d' \<longleftrightarrow> dict_inv E d' \<and> mset (dict_entries d') = mset (dict_entries d) \<and>
     pauserehash d' = pauserehash d"

lemma dictSize_entries: "dict_inv E d \<Longrightarrow> dictSize d = length (dict_entries d)"
  using dict_invD(1,2) [of E d] by (simp add: dictSize_def dict_entries_def ht_inv_def)

lemma rehash_ok_trans: "rehash_ok E d d' \<Longrightarrow> rehash_ok E d' d'' \<Longrightarrow> rehash_ok E d d''"
  by (simp add: rehash_ok_def)

lemma rehash_ok_abs:
  assumes "rehash_ok E d d'" "dict_inv E d"
  shows "dict_inv E d'" "dict_abs d' = dict_abs d" "dictSize d' = dictSize d" "pauserehash d' = pauserehash d"
proof -
  have m: "mset (dict_entries d) = mset (dict_entries d')" and i: "dict_inv E d'"
    using assms(1) by (auto simp: rehash_ok_def)
  show "dict_inv E d'" by (fact i)
  show "dict_abs d' = dict_abs d" using dict_abs_cong [OF m dict_invD(3) [OF assms(2)]] by simp
  show "dictSize d' = dictSize d"
    using dictSize_entries [OF i] dictSize_entries [OF assms(2)] mset_eq_length [OF m] by simp
  show "pauserehash d' = pauserehash d" using assms(1) by (simp add: rehash_ok_def)
qed

lemma dictRehash_bucket_ok:
  assumes "dict_inv E d" "dictIsRehashing d" "i < ht_size (ht0 d)" "\<forall>j < i. ht_table (ht0 d) ! j = []"
  shows "rehash_ok E d (dictRehash_bucket E d i) \<and> dictIsRehashing (dictRehash_bucket E d i)"
proof -
  let ?b = "ht_table (ht0 d) ! i"
  let ?n = "fold (\<lambda>e ht. ht_push ht (ht_index E ht (fst e)) e) ?b (ht1 d)"
  let ?o = "(ht_set (ht0 d) i [])\<lparr>ht_used := ht_used (ht0 d) - length ?b\<rparr>"
  note n = move_entries [OF dict_invD(2) [OF assms(1)], of ?b] dict_invD(7) [OF assms(1,2)]
  let ?d = "dictRehash_bucket E d i"
  have f: "ht0 ?d = ?o" "ht1 ?d = ?n" "rehashidx ?d = int i + 1" "pauserehash ?d = pauserehash d"
    by (simp_all add: dictRehash_bucket_def Let_def)
  have e: "mset (ht_entries ?o) + mset ?b = mset (ht_entries (ht0 d))"
    using ht_set_entries [OF assms(3), of "[]"] by simp
  from arg_cong [OF e, of size] have "length ?b \<le> length (ht_entries (ht0 d))" by simp
  then have o: "ht_inv E ?o"
    using dict_invD(1) [OF assms(1)] assms(3) by (intro ht_inv_set) (auto simp: ht_inv_def)
  have n': "ht_inv E ?n" "ht_size ?n = ht_size (ht1 d)" "mset (ht_entries ?n) = mset ?b + mset (ht_entries (ht1 d))"
    using n by simp_all
  have m: "mset (dict_entries ?d) = mset (dict_entries d)"
    unfolding dict_entries_def f mset_append n'(3) e [symmetric] by (simp only: ac_simps)
  then have "distinct (map fst (dict_entries ?d))"
    using dict_invD(3) [OF assms(1)] by (metis mset_eq_imp_distinct_iff mset_map)
  moreover have "ht_table ?o ! j = []" if "j < i + 1" for j
    using assms(3,4) that by (cases "j = i") (auto simp: ht_size_def)
  ultimately have "dict_inv E ?d"
    using o n' n assms(3) unfolding dict_inv_def f by auto
  with m f show ?thesis by (simp add: rehash_ok_def dictIsRehashing_def)
qed

lemma nonempty_bucket:
  assumes "dict_inv E d" "dictIsRehashing d" "ht_used (ht0 d) \<noteq> 0"
  obtains n where "nat (rehashidx d) \<le> n" "n < ht_size (ht0 d)" "ht_table (ht0 d) ! n \<noteq> []"
proof -
  have "ht_entries (ht0 d) \<noteq> []" using assms dict_invD(1) [OF assms(1)] by (auto simp: ht_inv_def)
  then obtain n where n: "n < ht_size (ht0 d)" "ht_table (ht0 d) ! n \<noteq> []"
    by (auto simp: ht_entries_def ht_size_def in_set_conv_nth)
  moreover have "nat (rehashidx d) \<le> n"
    using assms(1,2) n by (auto simp: dict_inv_def dictIsRehashing_def not_less [symmetric])
  ultimately show ?thesis using that by blast
qed

lemma dictRehash_loop_ok:
  assumes "dict_inv E d" "dictIsRehashing d"
  shows "\<exists>d' stop. dictRehash_loop E n ev d = Some (d', stop) \<and> rehash_ok E d d' \<and> dictIsRehashing d'"
  using assms
proof (induction n arbitrary: ev d)
  case 0
  then show ?case by (auto simp: rehash_ok_def)
next
  case (Suc n)
  show ?case
  proof (cases "ht_used (ht0 d) = 0")
    case True
    with Suc.prems show ?thesis by (auto simp: rehash_ok_def)
  next
    case False
    obtain m where m: "nat (rehashidx d) \<le> m" "m < ht_size (ht0 d)" "ht_table (ht0 d) ! m \<noteq> []"
      using nonempty_bucket [OF Suc.prems False] by blast
    have low: "\<forall>j < nat (rehashidx d). ht_table (ht0 d) ! j = []"
      using Suc.prems m by (auto simp: dict_inv_def dictIsRehashing_def)
    obtain i ev' stop where i: "dictRehash_skip (ht_table (ht0 d)) (nat (rehashidx d)) ev = Some (i, ev', stop)"
      "\<forall>j < i. ht_table (ht0 d) ! j = []" "\<not> stop \<longrightarrow> i < ht_size (ht0 d)"
      using dictRehash_skip_spec [OF low m(1) _ m(3), of ev] m(2) by (auto simp: ht_size_def)
    have a: "int (ht_size (ht0 d)) > rehashidx d" using m by linarith
    show ?thesis
    proof (cases stop)
      case True
      have "rehash_ok E d (d\<lparr>rehashidx := int i\<rparr>) \<and> dictIsRehashing (d\<lparr>rehashidx := int i\<rparr>)"
        using Suc.prems i(2)
        by (auto simp: rehash_ok_def dict_inv_def dictIsRehashing_def dict_entries_def)
      with False a i True show ?thesis by auto
    next
      case False': False
      then have b: "rehash_ok E d (dictRehash_bucket E d i)" "dictIsRehashing (dictRehash_bucket E d i)"
        using dictRehash_bucket_ok [OF Suc.prems _ i(2)] i(3) by auto
      obtain d' s where "dictRehash_loop E n ev' (dictRehash_bucket E d i) = Some (d', s)"
        "rehash_ok E (dictRehash_bucket E d i) d'" "dictIsRehashing d'"
        using Suc.IH [OF rehash_ok_abs(1) [OF b(1) Suc.prems(1)] b(2)] by blast
      with False a i False' b(1) show ?thesis by (simp add: rehash_ok_trans [OF b(1)])
    qed
  qed
qed

lemma dictRehash_ok:
  assumes "dict_inv E d"
  shows "\<exists>d' more. dictRehash E d n = Some (d', more) \<and> rehash_ok E d d' \<and> (more \<longrightarrow> dictIsRehashing d') \<and>
    (0 < ht_size (ht0 d) \<longrightarrow> 0 < ht_size (ht0 d'))"
proof (cases "dictIsRehashing d")
  case False
  with assms show ?thesis by (auto simp: dictRehash_def rehash_ok_def)
next
  case True
  obtain d' stop where d': "dictRehash_loop E (unat n) (n * 10) d = Some (d', stop)" "rehash_ok E d d'"
    "dictIsRehashing d'" using dictRehash_loop_ok [OF assms True] by blast
  note inv = rehash_ok_abs(1) [OF d'(2) assms]
  have e: "ht_used (ht0 d') = 0 \<Longrightarrow> ht_entries (ht0 d') = []" using dict_invD(1) [OF inv] by (simp add: ht_inv_def)
  have "rehash_ok E d (d'\<lparr>ht0 := ht1 d', ht1 := dictReset, rehashidx := - 1\<rparr>)" if "ht_used (ht0 d') = 0"
    using inv d'(2) e [OF that] by (auto simp: rehash_ok_def dict_inv_def dict_entries_def)
  with True d' dict_invD(7) [OF inv d'(3)] show ?thesis by (auto simp: dictRehash_def)
qed

lemma dict_step_ok:
  assumes "dict_inv E d"
  shows "\<exists>d'. dict_step E d = Some d' \<and> rehash_ok E d d' \<and> (0 < ht_size (ht0 d) \<longrightarrow> 0 < ht_size (ht0 d'))"
  using dictRehash_ok [OF assms, of 1] assms
  by (auto simp: dict_step_def dictRehashStep_def rehash_ok_def)

lemma size_pos: "dict_inv E d \<Longrightarrow> dictSize d \<noteq> 0 \<Longrightarrow> 0 < ht_size (ht0 d)"
proof (rule ccontr)
  assume a: "dict_inv E d" "dictSize d \<noteq> 0" "\<not> 0 < ht_size (ht0 d)"
  then have "\<not> dictIsRehashing d" using dict_invD(7) [OF a(1)] by auto
  with a dict_invD(6) [OF a(1)] dict_invD(1) [OF a(1)] show False
    by (simp add: dictSize_def ht_inv_def ht_entries_def ht_size_def)
qed

lemma dictFind_ok:
  assumes "dict_inv E d"
  shows "\<exists>d'. dictFind E d k = Some (d', dict_abs d k) \<and> rehash_ok E d d'"
proof (cases "dictSize d = 0")
  case True
  with assms show ?thesis
    using dictSize_entries [OF assms] by (simp add: dictFind_def rehash_ok_def dict_abs_def)
next
  case False
  obtain d' where d': "dict_step E d = Some d'" "rehash_ok E d d'" "0 < ht_size (ht0 d')"
    using dict_step_ok [OF assms] size_pos [OF assms False] by auto
  with dict_search_correct [OF rehash_ok_abs(1) [OF d'(2) assms] d'(3)] rehash_ok_abs(2) [OF d'(2) assms] False
  show ?thesis by (simp add: dictFind_def)
qed

subsection \<open>Growing keeps the entries and succeeds below the address limit\<close>

lemma dictNextPower_loop_spec:
  "0 < i \<Longrightarrow> sz \<le> b \<Longrightarrow> b = i * 2 ^ k \<Longrightarrow>
   sz \<le> dictNextPower_loop i sz \<and> i \<le> dictNextPower_loop i sz \<and> dictNextPower_loop i sz \<le> b"
proof (induction k arbitrary: i)
  case 0
  then show ?case by (subst (1 2 3) dictNextPower_loop.simps) simp
next
  case (Suc k)
  show ?case
  proof (cases "sz \<le> i")
    case True
    with Suc.prems show ?thesis by (subst (1 2 3) dictNextPower_loop.simps) simp
  next
    case False
    with Suc.IH [of "i * 2"] Suc.prems show ?thesis
      by (subst (1 2 3) dictNextPower_loop.simps) (simp add: mult.assoc)
  qed
qed

lemma dictNextPower_le: "dictNextPower sz \<le> 2 ^ 63"
  using dictNextPower_loop_spec [of 4 sz "2 ^ 63" 61] by (auto simp: dictNextPower_def DICT_HT_INITIAL_SIZE_def)

lemma dictNextPower_pos: "0 < dictNextPower sz"
  using dictNextPower_loop_spec [of 4 sz "2 ^ 63" 61] by (auto simp: dictNextPower_def DICT_HT_INITIAL_SIZE_def)

lemma dictNextPower_small: "sz \<le> 2 ^ 60 \<Longrightarrow> sz \<le> dictNextPower sz \<and> dictNextPower sz \<le> 2 ^ 60"
  using dictNextPower_loop_spec [of 4 sz "2 ^ 60" 58] by (auto simp: dictNextPower_def DICT_HT_INITIAL_SIZE_def)

lemma ht_inv_fresh: "n \<le> 2 ^ 63 \<Longrightarrow> ht_inv E \<lparr>ht_table = replicate n [], ht_used = 0\<rparr>"
  by (simp add: ht_inv_def ht_entries_def ht_size_def)

lemma entries_fresh: "ht_entries \<lparr>ht_table = replicate n [], ht_used = 0\<rparr> = []"
  by (simp add: ht_entries_def)

lemma dictExpand_raw_ok:
  assumes "dict_inv E d"
  shows "rehash_ok E d (fst (dictExpand_raw d sz fails))"
    and "0 < ht_size (ht0 d) \<or> snd (dictExpand_raw d sz fails) \<Longrightarrow>
      0 < ht_size (ht0 (fst (dictExpand_raw d sz fails)))"
proof -
  define n :: "('a, 'b) dictht" where "n = \<lparr>ht_table = replicate (dictNextPower sz) [], ht_used = 0\<rparr>"
  have n: "ht_inv E n" "ht_entries n = []" "0 < ht_size n"
    using ht_inv_fresh [OF dictNextPower_le] entries_fresh dictNextPower_pos by (auto simp: n_def ht_size_def)
  obtain skip where skip: "dictExpand_raw d sz fails = (if dictIsRehashing d \<or> skip then (d, False)
      else if ht_table (ht0 d) = [] then (d\<lparr>ht0 := n\<rparr>, True) else (d\<lparr>ht1 := n, rehashidx := 0\<rparr>, True))"
    using that [of "snd (dictExpand_raw d sz fails) = False"]
    by (cases "dictIsRehashing d"; cases fails) (simp_all add: dictExpand_raw_def n_def Let_def)
  consider "dictExpand_raw d sz fails = (d, False)"
    | "dictExpand_raw d sz fails = (d\<lparr>ht0 := n\<rparr>, True)" "\<not> dictIsRehashing d" "ht_table (ht0 d) = []"
    | "dictExpand_raw d sz fails = (d\<lparr>ht1 := n, rehashidx := 0\<rparr>, True)" "\<not> dictIsRehashing d" "ht_table (ht0 d) \<noteq> []"
    using skip by presburger
  note cs = this
  note r = dict_invD(6) [OF assms]
  show "rehash_ok E d (fst (dictExpand_raw d sz fails))"
    using cs
  proof cases
    case 2
    then have "ht_entries (ht0 d) = []" by (simp add: ht_entries_def)
    with 2 assms n r show ?thesis
      by (auto simp: rehash_ok_def dict_inv_def dict_entries_def dictIsRehashing_def)
  next
    case 3
    with assms n r show ?thesis
      by (auto simp: rehash_ok_def dict_inv_def dict_entries_def dictIsRehashing_def ht_size_def)
  qed (use assms in \<open>simp add: rehash_ok_def\<close>)
  show "0 < ht_size (ht0 d) \<or> snd (dictExpand_raw d sz fails) \<Longrightarrow>
      0 < ht_size (ht0 (fst (dictExpand_raw d sz fails)))"
    using cs by cases (use n in \<open>auto simp: ht_size_def\<close>)
qed

lemma dictExpand_succeeds:
  assumes "\<not> dictIsRehashing d" "ht_used (ht0 d) \<le> sz" "sz \<le> 2 ^ 60" "ht_size (ht0 d) < sz"
  shows "snd (dictExpand d sz)"
proof -
  have p: "sz \<le> dictNextPower sz" "dictNextPower sz \<le> 2 ^ 60" using dictNextPower_small [OF assms(3)] by auto
  then have "dictNextPower sz * 8 mod 2 ^ 64 = dictNextPower sz * 8" by (intro mod_less) simp
  with assms p show ?thesis by (simp add: dictExpand_def dictExpand_raw_def Let_def)
qed

lemma dictExpandIfNeeded_ok:
  assumes "dict_inv E d" "dictSize d < 2 ^ 60"
  shows "\<exists>d'. dictExpandIfNeeded E d = (d', True) \<and> rehash_ok E d d' \<and> 0 < ht_size (ht0 d')"
proof -
  note x = dictExpand_raw_ok [OF assms(1), where fails = False, folded dictExpand_def]
  have u: "ht_used (ht0 d) < 2 ^ 60" using assms(2) by (simp add: dictSize_def)
  consider "dictExpandIfNeeded E d = (d, True)" "0 < ht_size (ht0 d)"
    | sz where "dictExpandIfNeeded E d = dictExpand d sz" "snd (dictExpand d sz)"
  proof (cases "dictIsRehashing d \<or> 0 < ht_size (ht0 d) \<and> ht_used (ht0 d) < ht_size (ht0 d)")
    case True
    with dict_invD(7) [OF assms(1)] show ?thesis by (intro that(1)) (auto simp: dictExpandIfNeeded_def)
  next
    case False
    show ?thesis
    proof (cases "ht_size (ht0 d) = 0")
      case True
      then have "ht_used (ht0 d) = 0" using dict_invD(1) [OF assms(1)]
        by (simp add: ht_inv_def ht_entries_def ht_size_def)
      with True False show ?thesis
        by (intro that(2) [of DICT_HT_INITIAL_SIZE] dictExpand_succeeds)
          (auto simp: dictExpandIfNeeded_def DICT_HT_INITIAL_SIZE_def)
    next
      case pos: False
      with False u have "snd (dictExpand d (ht_used (ht0 d) + 1))" by (intro dictExpand_succeeds) auto
      with pos False show ?thesis
        by (cases "dictExpandIfNeeded E d = (d, True)")
          (auto intro: that simp: dictExpandIfNeeded_def split: if_splits)
    qed
  qed
  then show ?thesis
  proof cases
    case 1
    with assms(1) show ?thesis by (simp add: rehash_ok_def)
  next
    case (2 sz)
    with x [of sz] show ?thesis by (cases "dictExpand d sz") auto
  qed
qed

subsection \<open>Insertion\<close>

lemma map_of_add_mset:
  assumes "mset xs = add_mset (k, v) (mset ys)" "distinct (map fst ys)" "k \<notin> fst ` set ys"
  shows "distinct (map fst xs)" "map_of xs = (map_of ys)(k \<mapsto> v)"
proof -
  have m: "mset xs = mset ((k, v) # ys)" using assms(1) by simp
  have d: "distinct (map fst ((k, v) # ys))" using assms(2,3) by simp
  then show d': "distinct (map fst xs)" using m by (metis mset_eq_imp_distinct_iff mset_map)
  have "map_of xs = map_of ((k, v) # ys)"
    using map_of_inject_set [OF d' d] mset_eq_setD [OF m] by blast
  then show "map_of xs = (map_of ys)(k \<mapsto> v)" by simp
qed

lemma dict_insert_fields [simp]:
  "ht_size (ht0 (dict_insert d i e)) = ht_size (ht0 d)" "pauserehash (dict_insert d i e) = pauserehash d"
  by (simp_all add: dict_insert_def)

lemma dict_push_ok:
  assumes "dict_inv E d" "0 < ht_size (ht0 d)" "dict_abs d k = None"
  shows "dict_inv E (dict_insert d (ht_index E (if dictIsRehashing d then ht1 d else ht0 d) k) (k, v)) \<and>
    dict_abs (dict_insert d (ht_index E (if dictIsRehashing d then ht1 d else ht0 d) k) (k, v)) = (dict_abs d)(k \<mapsto> v)"
proof -
  define d' where "d' = dict_insert d (ht_index E (if dictIsRehashing d then ht1 d else ht0 d) k) (k, v)"
  have k: "k \<notin> fst ` set (dict_entries d)" using assms(3) by (simp add: dict_abs_def map_of_eq_None_iff)
  show ?thesis
  proof (cases "dictIsRehashing d")
    case True
    have s: "0 < ht_size (ht1 d)" using dict_invD(7) [OF assms(1) True] by simp
    have i: "ht_index E (ht1 d) k < ht_size (ht1 d)"
      using dict_invD(2) [OF assms(1)] s by (intro ht_index_less) (auto simp: ht_inv_def)
    have "mset (dict_entries d') = add_mset (k, v) (mset (dict_entries d))"
      using ht_push_entries [OF i, of "(k, v)"] True by (simp add: dict_entries_def d'_def dict_insert_def)
    note m = map_of_add_mset [OF this dict_invD(3) [OF assms(1)] k]
    show ?thesis using assms(1) True m ht_inv_push [OF dict_invD(2) [OF assms(1)] s, of "(k, v)"]
      unfolding d'_def [symmetric] by (auto simp: dict_inv_def d'_def dict_insert_def dict_abs_def dictIsRehashing_def)
  next
    case False
    have i: "ht_index E (ht0 d) k < ht_size (ht0 d)"
      using dict_invD(1) [OF assms(1)] assms(2) by (intro ht_index_less) (auto simp: ht_inv_def)
    have "mset (dict_entries d') = add_mset (k, v) (mset (dict_entries d))"
      using ht_push_entries [OF i, of "(k, v)"] False by (simp add: dict_entries_def d'_def dict_insert_def)
    note m = map_of_add_mset [OF this dict_invD(3) [OF assms(1)] k]
    show ?thesis using assms(1) False m ht_inv_push [OF dict_invD(1) [OF assms(1)] assms(2), of "(k, v)"]
      unfolding d'_def [symmetric] by (auto simp: dict_inv_def d'_def dict_insert_def dict_abs_def dictIsRehashing_def)
  qed
qed

lemma dictAdd_ok:
  assumes "dict_inv E d" "dictSize d < 2 ^ 60"
  shows "\<exists>d'. dictAdd E d k v = Some (d', dict_abs d k = None) \<and> dict_inv E d' \<and> 0 < ht_size (ht0 d') \<and>
    dict_abs d' = (if dict_abs d k = None then (dict_abs d)(k \<mapsto> v) else dict_abs d) \<and>
    pauserehash d' = pauserehash d"
proof -
  obtain d1 where d1: "dict_step E d = Some d1" "rehash_ok E d d1" using dict_step_ok [OF assms(1)] by auto
  note a1 = rehash_ok_abs [OF d1(2) assms(1)]
  obtain d2 where d2: "dictExpandIfNeeded E d1 = (d2, True)" "rehash_ok E d1 d2" "0 < ht_size (ht0 d2)"
    using dictExpandIfNeeded_ok [OF a1(1)] a1(3) assms(2) by auto
  note a2 = rehash_ok_abs [OF d2(2) a1(1)]
  note s = dict_search_correct [OF a2(1) d2(3), of k]
  show ?thesis
  proof (cases "dict_abs d k")
    case None
    then have n: "dict_abs d2 k = None" using a1(2) a2(2) by simp
    show ?thesis
      using d1 d2 a1 a2 s n None dict_push_ok [OF a2(1) d2(3) n, of v]
      by (auto simp: dictAdd_def dictKeyIndex_def)
  next
    case (Some u)
    with d1 d2 a1 a2 s show ?thesis by (auto simp: dictAdd_def dictKeyIndex_def)
  qed
qed

subsection \<open>Overwriting and removal\<close>

text \<open>
  Both rewrite the chain that holds the key; \<open>dict_rw\<close> is the common form, with \<open>used\<close> following the
  length of the chain.
\<close>

definition ht_rw :: "'k dictType \<Rightarrow> (('k \<times> 'v) list \<Rightarrow> ('k \<times> 'v) list) \<Rightarrow> 'k \<Rightarrow> ('k, 'v) dictht \<Rightarrow> ('k, 'v) dictht" where
  "ht_rw E f k ht = (let b = ht_table ht ! ht_index E ht k
     in (ht_set ht (ht_index E ht k) (f b))\<lparr>ht_used := ht_used ht + length (f b) - length b\<rparr>)"

definition dict_rw :: "'k dictType \<Rightarrow> (('k \<times> 'v) list \<Rightarrow> ('k \<times> 'v) list) \<Rightarrow> 'k \<Rightarrow> ('k, 'v) dict \<Rightarrow> ('k, 'v) dict" where
  "dict_rw E f k d = (if map_of (ht_entries (ht0 d)) k \<noteq> None then d\<lparr>ht0 := ht_rw E f k (ht0 d)\<rparr>
     else d\<lparr>ht1 := ht_rw E f k (ht1 d)\<rparr>)"

lemma ht_rw_ok:
  assumes "ht_inv E ht" "0 < ht_size ht" "distinct (map fst (ht_entries ht))" "map_of (ht_entries ht) k = Some u"
    and f: "\<And>b. map_of b k = Some u \<Longrightarrow> mset (f b) + {#(k, u)#} = mset b + X"
    and keys: "\<And>b. fst ` set (f b) \<subseteq> fst ` set b"
  shows "ht_inv E (ht_rw E f k ht) \<and> ht_size (ht_rw E f k ht) = ht_size ht \<and>
    mset (ht_entries (ht_rw E f k ht)) + {#(k, u)#} = mset (ht_entries ht) + X"
proof -
  let ?i = "ht_index E ht k"
  let ?b = "ht_table ht ! ?i"
  have i: "?i < ht_size ht" using assms(1,2) by (intro ht_index_less) (auto simp: ht_inv_def)
  have b: "map_of ?b k = Some u" using ht_lookup(2) [OF assms(1-3)] assms(4) by simp
  have e: "mset (ht_entries (ht_set ht ?i (f ?b))) + mset ?b = mset (ht_entries ht) + mset (f ?b)"
    using ht_set_entries [OF i] .
  have "length ?b \<le> ht_used ht"
    using arg_cong [OF ht_set_entries [OF i, of "[]"], of size] assms(1) by (simp add: ht_inv_def)
  moreover have "\<forall>e \<in> set (f ?b). ht_index E ht (fst e) = ?i"
  proof
    fix e assume "e \<in> set (f ?b)"
    then have "fst e \<in> fst ` set ?b" using keys [of ?b] by blast
    then obtain e' where "e' \<in> set ?b" "fst e' = fst e" by auto
    then show "ht_index E ht (fst e) = ?i" using assms(1) i by (fastforce simp: ht_inv_def)
  qed
  ultimately have "ht_inv E (ht_rw E f k ht)"
    unfolding ht_rw_def Let_def by (intro ht_inv_set [OF assms(1) i]) auto
  moreover have "mset (ht_entries (ht_set ht ?i (f ?b))) + {#(k, u)#} + mset ?b = mset (ht_entries ht) + X + mset ?b"
  proof -
    have "mset (ht_entries (ht_set ht ?i (f ?b))) + {#(k, u)#} + mset ?b =
        mset (ht_entries ht) + (mset (f ?b) + {#(k, u)#})" 
      using arg_cong [OF e, of "\<lambda>M. M + {#(k, u)#}"] by (simp only: ac_simps)
    also have "\<dots> = mset (ht_entries ht) + (mset ?b + X)" by (simp only: f [OF b])
    finally show ?thesis by (simp only: ac_simps)
  qed
  ultimately show ?thesis by (simp add: ht_rw_def Let_def)
qed

lemma dict_rw_ok:
  assumes "dict_inv E d" "0 < ht_size (ht0 d)" "dict_abs d k = Some u"
    and f: "\<And>b. map_of b k = Some u \<Longrightarrow> mset (f b) + {#(k, u)#} = mset b + X"
    and keys: "\<And>b. fst ` set (f b) \<subseteq> fst ` set b"
  shows "ht_inv E (ht0 (dict_rw E f k d)) \<and> ht_inv E (ht1 (dict_rw E f k d)) \<and>
    mset (dict_entries (dict_rw E f k d)) + {#(k, u)#} = mset (dict_entries d) + X \<and>
    ht_size (ht0 (dict_rw E f k d)) = ht_size (ht0 d) \<and> ht_size (ht1 (dict_rw E f k d)) = ht_size (ht1 d)"
proof (cases "map_of (ht_entries (ht0 d)) k")
  case None
  then have u: "map_of (ht_entries (ht1 d)) k = Some u"
    using assms(3) by (simp add: dict_abs_def dict_entries_def map_add_def split: option.splits)
  then have "0 < ht_size (ht1 d)" by (auto simp: ht_entries_def ht_size_def)
  from ht_rw_ok [OF dict_invD(2) [OF assms(1)] this dict_invD(5) [OF assms(1)] u f keys]
  show ?thesis using None dict_invD(1) [OF assms(1)] by (simp add: dict_rw_def dict_entries_def)
next
  case (Some w)
  have "dict_abs d k = Some w"
    using Some dict_invD(3) [OF assms(1)] by (auto simp: dict_abs_def dict_entries_def map_of_eq_Some_iff)
  with assms(3) Some have u: "map_of (ht_entries (ht0 d)) k = Some u" by simp
  from ht_rw_ok [OF dict_invD(1) [OF assms(1)] assms(2) dict_invD(4) [OF assms(1)] u f keys]
  show ?thesis using Some dict_invD(2) [OF assms(1)] by (simp add: dict_rw_def dict_entries_def ac_simps)
qed

lemma dict_rw_empty_buckets:
  assumes "dict_inv E d" "dictIsRehashing d" "f [] = []"
  shows "\<forall>i < nat (rehashidx d). i < ht_size (ht0 d) \<longrightarrow> ht_table (ht0 (dict_rw E f k d)) ! i = []"
proof (intro allI impI)
  fix i assume i: "i < nat (rehashidx d)" "i < ht_size (ht0 d)"
  then have "ht_table (ht0 d) ! i = []" using assms by (auto simp: dict_inv_def dictIsRehashing_def)
  with assms(3) i show "ht_table (ht0 (dict_rw E f k d)) ! i = []"
    by (cases "ht_index E (ht0 d) k = i") (auto simp: dict_rw_def ht_rw_def Let_def ht_size_def)
qed

lemma chain_set_mset: "map_of b k = Some u \<Longrightarrow> mset (chain_set k v b) + {#(k, u)#} = mset b + {#(k, v)#}"
  by (induction b) (auto split: if_splits)

lemma chain_unlink_mset: "map_of b k = Some u \<Longrightarrow> mset (chain_unlink k b) + {#(k, u)#} = mset b + {#}"
  by (induction b) (auto split: if_splits)

lemma chain_keys:
  "fst ` set (chain_set k v b) \<subseteq> fst ` set b" "fst ` set (chain_unlink k b) \<subseteq> fst ` set b"
  by (induction b) auto

lemma length_chain_set: "length (chain_set k v b) = length b"
  by (induction b) auto

lemma length_chain_unlink: "map_of b k \<noteq> None \<Longrightarrow> length b = Suc (length (chain_unlink k b))"
  by (induction b) auto

lemma dict_rw_inv:
  assumes "dict_inv E d" "0 < ht_size (ht0 d)" "dict_abs d k = Some u"
    and f: "\<And>b. map_of b k = Some u \<Longrightarrow> mset (f b) + {#(k, u)#} = mset b + X"
    and keys: "\<And>b. fst ` set (f b) \<subseteq> fst ` set b"
    and "distinct (map fst (dict_entries (dict_rw E f k d)))"
  shows "dict_inv E (dict_rw E f k d)"
proof -
  note r = dict_rw_ok [OF assms(1-3) f keys]
  have e: "f [] = []" using keys [of "[]"] by auto
  have x: "rehashidx (dict_rw E f k d) = rehashidx d" by (simp add: dict_rw_def)
  have "ht1 (dict_rw E f k d) = dictReset" if "\<not> dictIsRehashing d"
  proof -
    note t = dict_invD(6) [OF assms(1) that]
    then have "map_of (ht_entries (ht0 d)) k = Some u" using assms(3) by (simp add: dict_abs_def dict_entries_def)
    with t show ?thesis by (simp add: dict_rw_def)
  qed
  with r x assms(6) dict_rw_empty_buckets [of E d f k, OF assms(1) _ e] dict_invD(7) [OF assms(1)] assms(2)
  show ?thesis unfolding dict_inv_def by (auto simp: dictIsRehashing_def)
qed

lemma dict_update_rw:
  assumes "dict_inv E d" "0 < ht_size (ht0 d)"
  shows "dict_update E (chain_set k v) k d = dict_rw E (chain_set k v) k d"
    and "dict_abs d k \<noteq> None \<Longrightarrow> dict_unlink E k d = dict_rw E (chain_unlink k) k d"
proof -
  have i: "ht_index E (ht0 d) k < ht_size (ht0 d)"
    using dict_invD(1) [OF assms(1)] assms(2) by (intro ht_index_less) (auto simp: ht_inv_def)
  note l = ht_lookup(2) [OF dict_invD(1) [OF assms(1)] assms(2) dict_invD(4) [OF assms(1)], of k]
  have id: "ht\<lparr>ht_used := ht_used ht\<rparr> = ht" for ht :: "('a, 'b) dictht" by simp
  show "dict_update E (chain_set k v) k d = dict_rw E (chain_set k v) k d"
    using i l by (auto simp: dict_update_def dict_rw_def ht_rw_def Let_def length_chain_set ht_set_def)
  assume a: "dict_abs d k \<noteq> None"
  have l1: "map_of (ht_table (ht1 d) ! ht_index E (ht1 d) k) k \<noteq> None" if "map_of (ht_entries (ht0 d)) k = None"
  proof -
    have u: "map_of (ht_entries (ht1 d)) k \<noteq> None"
      using a that by (auto simp: dict_abs_def dict_entries_def map_add_def split: option.splits)
    then have "0 < ht_size (ht1 d)" by (auto simp: ht_entries_def ht_size_def)
    from ht_lookup(2) [OF dict_invD(2) [OF assms(1)] this dict_invD(5) [OF assms(1)], of k] u
    show ?thesis by simp
  qed
  have n: "ht_used h + length (chain_unlink k b) - length b = ht_used h - 1" if "map_of b k \<noteq> None"
    for h :: "('a, 'b) dictht" and b using length_chain_unlink [OF that] by simp
  show "dict_unlink E k d = dict_rw E (chain_unlink k) k d"
    using i l l1 by (auto simp: dict_unlink_def dict_update_def dict_rw_def ht_rw_def Let_def ht_set_def n)
qed

lemma map_of_remove1:
  assumes "distinct (map fst xs)" "map_of xs k = Some u"
  shows "distinct (map fst (remove1 (k, u) xs))" "k \<notin> fst ` set (remove1 (k, u) xs)"
    "map_of xs = (map_of (remove1 (k, u) xs))(k \<mapsto> u)"
    "mset xs = add_mset (k, u) (mset (remove1 (k, u) xs))"
proof -
  have i: "(k, u) \<in> set xs" using assms(2) by (rule map_of_SomeD)
  then show m: "mset xs = add_mset (k, u) (mset (remove1 (k, u) xs))" by simp
  have d: "distinct (map fst ((k, u) # remove1 (k, u) xs))"
    using m assms(1) by (metis mset.simps(2) mset_eq_imp_distinct_iff mset_map)
  then show *: "distinct (map fst (remove1 (k, u) xs))" "k \<notin> fst ` set (remove1 (k, u) xs)" by auto
  show "map_of xs = (map_of (remove1 (k, u) xs))(k \<mapsto> u)" by (rule map_of_add_mset(2) [OF m *])
qed

lemma dict_set_ok:
  assumes "dict_inv E d" "0 < ht_size (ht0 d)" "dict_abs d k = Some u"
  shows "dict_inv E (dict_update E (chain_set k v) k d)"
    "dict_abs (dict_update E (chain_set k v) k d) = (dict_abs d)(k \<mapsto> v)"
proof -
  let ?d = "dict_rw E (chain_set k v) k d"
  note r = map_of_remove1 [OF dict_invD(3) [OF assms(1)] assms(3) [unfolded dict_abs_def]]
  have "mset (dict_entries ?d) + {#(k, u)#} = mset (dict_entries d) + {#(k, v)#}"
    using dict_rw_ok [OF assms chain_set_mset chain_keys(1)] by blast
  then have m: "mset (dict_entries ?d) = add_mset (k, v) (mset (remove1 (k, u) (dict_entries d)))"
    unfolding r(4) by simp
  note a = map_of_add_mset [OF m r(1,2)]
  show "dict_inv E (dict_update E (chain_set k v) k d)"
    unfolding dict_update_rw(1) [OF assms(1,2)]
    by (rule dict_rw_inv [OF assms chain_set_mset chain_keys(1) a(1)])
  show "dict_abs (dict_update E (chain_set k v) k d) = (dict_abs d)(k \<mapsto> v)"
    unfolding dict_update_rw(1) [OF assms(1,2)] dict_abs_def a(2) r(3) by simp
qed

lemma dict_unlink_ok:
  assumes "dict_inv E d" "0 < ht_size (ht0 d)" "dict_abs d k = Some u"
  shows "dict_inv E (dict_unlink E k d)" "dict_abs (dict_unlink E k d) = (dict_abs d)(k := None)"
proof -
  let ?d = "dict_rw E (chain_unlink k) k d"
  have e: "dict_unlink E k d = ?d" by (rule dict_update_rw(2) [OF assms(1,2)]) (simp add: assms(3))
  note r = map_of_remove1 [OF dict_invD(3) [OF assms(1)] assms(3) [unfolded dict_abs_def]]
  have "mset (dict_entries ?d) + {#(k, u)#} = mset (dict_entries d) + {#}"
    using dict_rw_ok [OF assms chain_unlink_mset chain_keys(2)] by blast
  then have m: "mset (dict_entries ?d) = mset (remove1 (k, u) (dict_entries d))" unfolding r(4) by simp
  have dist: "distinct (map fst (dict_entries ?d))" using m r(1) by (metis mset_eq_imp_distinct_iff mset_map)
  show "dict_inv E (dict_unlink E k d)"
    unfolding e by (rule dict_rw_inv [OF assms chain_unlink_mset chain_keys(2) dist])
  have "map_of (dict_entries ?d) = map_of (remove1 (k, u) (dict_entries d))"
    using map_of_inject_set [OF dist r(1)] mset_eq_setD [OF m] by blast
  moreover have "map_of (remove1 (k, u) (dict_entries d)) k = None" using r(2) by (simp add: map_of_eq_None_iff)
  ultimately show "dict_abs (dict_unlink E k d) = (dict_abs d)(k := None)"
    unfolding e dict_abs_def r(3) by auto
qed

lemma dictReplace_ok:
  assumes "dict_inv E d" "dictSize d < 2 ^ 60"
  shows "\<exists>d'. dictReplace E d k v = Some (d', dict_abs d k = None) \<and> dict_inv E d' \<and>
    dict_abs d' = (dict_abs d)(k \<mapsto> v)"
proof -
  obtain d1 where d1: "dictAdd E d k v = Some (d1, dict_abs d k = None)" "dict_inv E d1" "0 < ht_size (ht0 d1)"
    "dict_abs d1 = (if dict_abs d k = None then (dict_abs d)(k \<mapsto> v) else dict_abs d)"
    using dictAdd_ok [OF assms] by blast
  show ?thesis
  proof (cases "dict_abs d k")
    case None
    with d1 show ?thesis by (simp add: dictReplace_def)
  next
    case (Some u)
    with d1 dict_search_correct [OF d1(2,3), of k] dict_set_ok [OF d1(2,3), of k u v] show ?thesis
      by (simp add: dictReplace_def)
  qed
qed

lemma dictGenericDelete_ok:
  assumes "dict_inv E d"
  shows "\<exists>d'. dictGenericDelete E d k = Some (d', dict_abs d k) \<and> dict_inv E d' \<and>
    dict_abs d' = (dict_abs d)(k := None)"
proof (cases "dictSize d = 0")
  case True
  then have "dict_abs d = Map.empty" using dictSize_entries [OF assms] by (simp add: dict_abs_def)
  with True assms show ?thesis by (simp add: dictGenericDelete_def dictSize_def)
next
  case False
  obtain d1 where d1: "dict_step E d = Some d1" "rehash_ok E d d1" "0 < ht_size (ht0 d1)"
    using dict_step_ok [OF assms] size_pos [OF assms False] by auto
  note a = rehash_ok_abs [OF d1(2) assms]
  note s = dict_search_correct [OF a(1) d1(3), of k]
  show ?thesis
  proof (cases "dict_abs d k")
    case None
    moreover from None have "(dict_abs d)(k := None) = dict_abs d" by auto
    ultimately show ?thesis using False d1 a s by (auto simp: dictGenericDelete_def dictSize_def)
  next
    case (Some u)
    with a have "dict_abs d1 k = Some u" by simp
    from dict_unlink_ok [OF a(1) d1(3) this] Some False d1 a s show ?thesis
      by (auto simp: dictGenericDelete_def dictSize_def)
  qed
qed

lemma card_dict_abs: "dict_inv E d \<Longrightarrow> card (dom (dict_abs d)) = dictSize d"
  using dict_invD(3) [of E d] dictSize_entries [of E d]
  by (simp add: dict_abs_def dom_map_of_conv_image_fst distinct_card flip: set_map)

lemma dict_inv_Create: "dict_inv E dictCreate" "dict_abs dictCreate = Map.empty"
  by (simp_all add: dict_inv_def dictCreate_def dict_entries_def dict_abs_def)

subsection \<open>The contract of a keyed store\<close>

text \<open>
  What the clients of a dictionary rely on: under the invariant the operations return, report what was there
  before, and act on the abstract map as their names say.  Below the capacity an insertion never fails.
\<close>

locale map_store =
  fixes find :: "'s \<Rightarrow> 'k \<Rightarrow> ('s \<times> 'v option) option"
    and add :: "'s \<Rightarrow> 'k \<Rightarrow> 'v \<Rightarrow> ('s \<times> bool) option"
    and rep :: "'s \<Rightarrow> 'k \<Rightarrow> 'v \<Rightarrow> ('s \<times> bool) option"
    and del :: "'s \<Rightarrow> 'k \<Rightarrow> ('s \<times> bool) option"
    and abs :: "'s \<Rightarrow> 'k \<rightharpoonup> 'v" and inv :: "'s \<Rightarrow> bool" and cap :: nat
  assumes find_ok: "inv s \<Longrightarrow> \<exists>s'. find s k = Some (s', abs s k) \<and> inv s' \<and> abs s' = abs s"
    and add_ok: "inv s \<Longrightarrow> card (dom (abs s)) < cap \<Longrightarrow>
      \<exists>s'. add s k v = Some (s', abs s k = None) \<and> inv s' \<and>
        abs s' = (if abs s k = None then (abs s)(k \<mapsto> v) else abs s)"
    and rep_ok: "inv s \<Longrightarrow> card (dom (abs s)) < cap \<Longrightarrow>
      \<exists>s'. rep s k v = Some (s', abs s k = None) \<and> inv s' \<and> abs s' = (abs s)(k \<mapsto> v)"
    and del_ok: "inv s \<Longrightarrow> \<exists>s'. del s k = Some (s', abs s k \<noteq> None) \<and> inv s' \<and> abs s' = (abs s)(k := None)"
    and fin: "inv s \<Longrightarrow> finite (dom (abs s))"
begin

lemma find_rep:
  assumes "inv s" "card (dom (abs s)) < cap" "rep s k v = Some (s1, b)" "find s1 k' = Some (s2, r)"
  shows "r = (if k' = k then Some v else abs s k')"
  using rep_ok [OF assms(1,2), of k v] find_ok [of s1 k'] assms(3,4) by auto

lemma del_find:
  assumes "inv s" "del s k = Some (s1, b)" "find s1 k' = Some (s2, r)"
  shows "r = (if k' = k then None else abs s k')"
  using del_ok [OF assms(1), of k] find_ok [of s1 k'] assms(2,3) by auto

lemma card_grows:
  assumes "inv s" "abs s' = (abs s)(k \<mapsto> v)"
  shows "card (dom (abs s')) \<le> Suc (card (dom (abs s)))"
  using assms fin [OF assms(1)] by (simp add: card_insert_if)

lemma card_shrinks:
  assumes "inv s" "abs s' = (abs s)(k := None)"
  shows "card (dom (abs s')) \<le> card (dom (abs s))"
  using assms fin [OF assms(1)] by (simp add: card_Diff1_le)

end

interpretation dict: map_store "dictFind E" "dictAdd E" "dictReplace E" "dictDelete E" dict_abs "dict_inv E" "2 ^ 60"
  for E
proof (unfold_locales, goal_cases)
  case (1 s k)
  then show ?case using dictFind_ok [OF 1, of k] rehash_ok_abs(1,2) [OF _ 1] by blast
next
  case (2 s k v)
  then show ?case using dictAdd_ok [OF 2(1), of k v] card_dict_abs [OF 2(1)] by auto
next
  case (3 s k v)
  then show ?case using dictReplace_ok [OF 3(1), of k v] card_dict_abs [OF 3(1)] by auto
next
  case (4 s k)
  then show ?case using dictGenericDelete_ok [OF 4, of k] by (auto simp: dictDelete_def)
next
  case (5 s)
  then show ?case by (simp add: dict_abs_def finite_dom_map_of)
qed

subsection \<open>Rehashing ends\<close>

lemma dictRehash_skip_enough:
  assumes "i \<le> n" "n < length t" "t ! n \<noteq> []" "length t - i < unat e"
  shows "\<exists>i' e'. dictRehash_skip t i e = Some (i', e', False) \<and> unat e' = unat e - (i' - i) \<and> i \<le> i' \<and> i' < length t"
  using assms
proof (induction t i e rule: dictRehash_skip.induct)
  case (1 t i e)
  show ?case
  proof (cases "t ! i = []")
    case True
    with "1.prems" have n: "i \<noteq> n" by auto
    have u: "unat (e - 1) = unat e - 1" using "1.prems"(4) by (intro unat_minus_one) auto
    have c: "\<not> length t \<le> i" "\<not> t ! i \<noteq> []" "e - 1 \<noteq> 0" using True "1.prems" u by (auto dest!: arg_cong [where f = unat])
    have eq: "dictRehash_skip t i e = dictRehash_skip t (i + 1) (e - 1)"
      by (subst dictRehash_skip.simps) (use c in simp)
    have "i + 1 \<le> n" "length t - (i + 1) < unat (e - 1)" using "1.prems" n u by simp_all
    from "1.IH" [OF c this(1) "1.prems"(2,3) this(2)] obtain i' e' where i':
      "dictRehash_skip t (i + 1) (e - 1) = Some (i', e', False)" "unat e' = unat e - 1 - (i' - (i + 1))" "i + 1 \<le> i'" "i' < length t"
      unfolding u by blast
    with eq show ?thesis by (intro exI [of _ i'] exI [of _ e']) simp
  next
    case False
    then have "dictRehash_skip t i e = Some (i, e, False)"
      by (subst dictRehash_skip.simps) (use "1.prems" in simp)
    with "1.prems" show ?thesis by (intro exI [of _ i] exI [of _ e]) simp
  qed
qed

lemma dictRehash_loop_ends:
  assumes "dict_inv E d" "dictIsRehashing d" "int (ht_size (ht0 d)) - rehashidx d \<le> int n"
    and "int (ht_size (ht0 d)) - rehashidx d < int (unat ev)"
  shows "\<exists>d'. dictRehash_loop E n ev d = Some (d', False) \<and> ht_used (ht0 d') = 0"
  using assms
proof (induction n arbitrary: ev d)
  case 0
  have "ht_used (ht0 d) = 0"
  proof (rule ccontr)
    assume "ht_used (ht0 d) \<noteq> 0"
    with nonempty_bucket [OF 0(1,2)] obtain m where "nat (rehashidx d) \<le> m" "m < ht_size (ht0 d)" by metis
    with 0(3) show False by linarith
  qed
  then show ?case by simp
next
  case (Suc n)
  show ?case
  proof (cases "ht_used (ht0 d) = 0")
    case False
    obtain m where m: "nat (rehashidx d) \<le> m" "m < ht_size (ht0 d)" "ht_table (ht0 d) ! m \<noteq> []"
      using nonempty_bucket [OF Suc.prems(1,2) False] by blast
    have p: "0 \<le> rehashidx d" using dict_invD(7) [OF Suc.prems(1,2)] by simp
    have low: "\<forall>j < nat (rehashidx d). ht_table (ht0 d) ! j = []"
      using Suc.prems m by (auto simp: dict_inv_def dictIsRehashing_def)
    have "length (ht_table (ht0 d)) - nat (rehashidx d) < unat ev"
      using Suc.prems(4) p m(1,2) unfolding ht_size_def by linarith
    then obtain i ev' where i: "dictRehash_skip (ht_table (ht0 d)) (nat (rehashidx d)) ev = Some (i, ev', False)"
      "nat (rehashidx d) \<le> i" "i < ht_size (ht0 d)" "unat ev' = unat ev - (i - nat (rehashidx d))"
      using dictRehash_skip_enough [OF m(1) _ m(3), of ev] m(2) by (auto simp: ht_size_def)
    then have "\<forall>j < i. ht_table (ht0 d) ! j = []"
      using dictRehash_skip_spec [OF low m(1) _ m(3), of ev] m(2) by (auto simp: ht_size_def)
    note b = dictRehash_bucket_ok [OF Suc.prems(1,2) i(3) this]
    have f: "ht_size (ht0 (dictRehash_bucket E d i)) = ht_size (ht0 d)" "rehashidx (dictRehash_bucket E d i) = int i + 1"
      by (simp_all add: dictRehash_bucket_def Let_def)
    have "dict_inv E (dictRehash_bucket E d i)" using b Suc.prems(1) rehash_ok_abs(1) by blast
    moreover have "int (ht_size (ht0 d)) - (int i + 1) < int (unat ev')" "int (ht_size (ht0 d)) - (int i + 1) \<le> int n"
      using i(2,4) p Suc.prems(3,4) by linarith+
    ultimately obtain d' where "dictRehash_loop E n ev' (dictRehash_bucket E d i) = Some (d', False)" "ht_used (ht0 d') = 0"
      using Suc.IH [of "dictRehash_bucket E d i" ev'] b f by auto
    moreover have "int (ht_size (ht0 d)) > rehashidx d" using i(2,3) p by linarith
    ultimately show ?thesis using i(1) False by simp
  qed simp
qed

lemma dictRehash_ends:
  assumes "dict_inv E d" "dictIsRehashing d" "ht_size (ht0 d) \<le> unat n" "unat n * 10 < 2 ^ 31"
  shows "\<exists>d'. dictRehash E d n = Some (d', False) \<and> \<not> dictIsRehashing d'"
proof -
  have "unat (n * 10) = unat n * 10" using assms(4) by (simp add: unat_word_ariths)
  moreover have "0 < ht_size (ht0 d) \<and> 0 \<le> rehashidx d" using dict_invD(7) [OF assms(1,2)] by simp
  ultimately have "int (ht_size (ht0 d)) - rehashidx d \<le> int (unat n)" "int (ht_size (ht0 d)) - rehashidx d < int (unat (n * 10))"
    using assms(3) by linarith+
  from dictRehash_loop_ends [OF assms(1,2) this] obtain d' where
    "dictRehash_loop E (unat n) (n * 10) d = Some (d', False)" "ht_used (ht0 d') = 0" by blast
  with assms(2) show ?thesis by (auto simp: dictRehash_def dictIsRehashing_def)
qed

subsection \<open>Iteration visits every entry once\<close>

definition it_rest :: "('k, 'v) dict \<Rightarrow> ('k, 'v) dictIterator \<Rightarrow> ('k \<times> 'v) list" where
  "it_rest d it = it_next it @ concat (drop (nat (it_index it + 1)) (ht_table (it_ht d it))) @
     (if dictIsRehashing d \<and> it_table it = 0 then ht_entries (ht1 d) else [])"

lemma it_advance_rest:
  assumes "- 1 \<le> it_index it" "it_next it = []" "dictIsRehashing d \<Longrightarrow> 0 < ht_size (ht1 d)"
  shows "it_advance d it = Some it' \<Longrightarrow> it_rest d it' = it_rest d it \<and> - 1 \<le> it_index it'"
    and "it_advance d it = None \<Longrightarrow> it_rest d it = []"
proof -
  have a: "concat (drop n t) = t ! n @ concat (drop (Suc n) t)" if "n < length t" for n and t :: "'x list list"
    using that by (simp add: Cons_nth_drop_Suc [symmetric])
  show "it_rest d it' = it_rest d it \<and> - 1 \<le> it_index it'" if "it_advance d it = Some it'"
  proof (cases "it_index it + 1 < int (ht_size (it_ht d it))")
    case True
    with assms(1) have "nat (it_index it + 1) < length (ht_table (it_ht d it))" by (simp add: ht_size_def nat_less_iff)
    note c = a [OF this]
    have it': "it' = it\<lparr>it_index := it_index it + 1, it_next := ht_table (it_ht d it) ! nat (it_index it + 1)\<rparr>"
      using that True by (simp add: it_advance_def Let_def)
    have h: "it_ht d it' = it_ht d it" "it_table it' = it_table it" by (simp_all add: it' it_ht_def)
    have n: "nat (it_index it' + 1) = Suc (nat (it_index it + 1))" using assms(1) by (simp add: it')
    show ?thesis unfolding it_rest_def h n c assms(2) using assms(1) by (simp add: it')
  next
    case False
    with that have r: "dictIsRehashing d" "it_table it = 0"
      "it' = it\<lparr>it_table := 1, it_index := 0, it_next := ht_table (ht1 d) ! 0\<rparr>"
      by (auto simp: it_advance_def Let_def split: if_splits)
    have "drop (nat (it_index it + 1)) (ht_table (ht0 d)) = []"
      using False r by (simp add: it_ht_def ht_size_def nat_le_iff le_nat_iff)
    with a [of 0 "ht_table (ht1 d)"] assms(2,3) r show ?thesis
      by (auto simp: it_rest_def it_ht_def ht_entries_def ht_size_def)
  qed
  show "it_rest d it = []" if "it_advance d it = None"
    using that assms(2) by (auto simp: it_advance_def it_rest_def Let_def ht_size_def nat_le_iff split: if_splits)
qed

lemma dictNext_loop_rest:
  assumes "- 1 \<le> it_index it" "dictIsRehashing d \<Longrightarrow> 0 < ht_size (ht1 d)"
  shows "case it_rest d it of
      [] \<Rightarrow> fst (dictNext_loop d it) = None
    | e # es \<Rightarrow> \<exists>it'. dictNext_loop d it = (Some e, it') \<and> it_rest d it' = es \<and> - 1 \<le> it_index it'"
  using assms
proof (induction d it rule: dictNext_loop.induct)
  case (1 d it)
  show ?case
  proof (cases "it_next it")
    case (Cons e r)
    then show ?thesis using "1.prems" by (subst dictNext_loop.simps) (simp add: it_rest_def it_ht_def)
  next
    case Nil
    show ?thesis
    proof (cases "it_advance d it")
      case None
      with Nil it_advance_rest(2) [OF "1.prems"(1) Nil "1.prems"(2) None] show ?thesis
        by (subst dictNext_loop.simps) simp
    next
      case (Some it')
      note r = it_advance_rest(1) [OF "1.prems"(1) Nil "1.prems"(2) Some]
      have "dictNext_loop d it = dictNext_loop d it'" using Nil Some by (subst dictNext_loop.simps) simp
      with "1.IH" [OF Nil Some] r "1.prems"(2) show ?thesis by (simp cong: list.case_cong)
    qed
  qed
qed

text \<open>A call keeps the kind of the iterator and leaves its initial position.\<close>

lemma dictNext_loop_started:
  assumes "- 1 \<le> it_index it" "it_index it = - 1 \<Longrightarrow> it_next it = []"
  shows "it_safe (snd (dictNext_loop d it)) = it_safe it \<and> 0 \<le> it_index (snd (dictNext_loop d it))"
  using assms
proof (induction d it rule: dictNext_loop.induct)
  case (1 d it)
  show ?case
  proof (cases "it_next it")
    case (Cons e r)
    with "1.prems" have "it_index it \<noteq> - 1" by auto
    with Cons "1.prems"(1) show ?thesis by (subst (1 2) dictNext_loop.simps) simp
  next
    case Nil
    show ?thesis
    proof (cases "it_advance d it")
      case None
      with Nil "1.prems" show ?thesis by (subst (1 2) dictNext_loop.simps) simp
    next
      case (Some it')
      then have "0 \<le> it_index it'" "it_safe it' = it_safe it"
        using "1.prems" by (auto simp: it_advance_def Let_def split: if_splits)
      moreover have "dictNext_loop d it = dictNext_loop d it'" using Nil Some by (subst dictNext_loop.simps) simp
      ultimately show ?thesis using "1.IH" [OF Nil Some] by simp
    qed
  qed
qed

lemma dictNext_started: "0 \<le> it_index it \<Longrightarrow> dictNext d it = (d, dictNext_loop d it)"
  by (simp add: dictNext_def)

lemma dict_collect_rest:
  assumes "0 \<le> it_index it" "dictIsRehashing d \<Longrightarrow> 0 < ht_size (ht1 d)"
  shows "\<exists>it'. dict_collect n d it = (take n (it_rest d it), d, it') \<and> it_safe it' = it_safe it \<and> 0 \<le> it_index it'"
  using assms
proof (induction n arbitrary: it)
  case (Suc n)
  obtain r it1 where c: "dictNext_loop d it = (r, it1)" by force
  note s = dictNext_loop_started [of it d] dictNext_loop_rest [of it d]
  show ?case
  proof (cases "it_rest d it")
    case Nil
    with s c Suc.prems show ?thesis by (simp add: dictNext_started)
  next
    case (Cons e es)
    with s c Suc.prems have r: "r = Some e" "it_rest d it1 = es" "0 \<le> it_index it1" "it_safe it1 = it_safe it" by auto
    from Suc.IH [OF r(3) Suc.prems(2)] obtain it' where
      "dict_collect n d it1 = (take n (it_rest d it1), d, it')" "it_safe it' = it_safe it1" "0 \<le> it_index it'" by blast
    with r c Cons Suc.prems show ?thesis by (simp add: dictNext_started)
  qed
qed simp

text \<open>Pausing the rehash does not touch the tables.\<close>

lemma pause_simps [simp]:
  "it_rest (dictPauseRehashing d) it = it_rest d it" "dictIsRehashing (dictPauseRehashing d) = dictIsRehashing d"
  "ht1 (dictPauseRehashing d) = ht1 d" "dictResumeRehashing (dictPauseRehashing d) = d"
  by (simp_all add: dictPauseRehashing_def dictResumeRehashing_def it_rest_def it_ht_def dictIsRehashing_def)

lemma dict_collect_started:
  assumes "it_index it = - 1" "it_table it = 0" "it_next it = []" "dictIsRehashing d \<Longrightarrow> 0 < ht_size (ht1 d)"
  shows "\<exists>d' it'. dict_collect n d it = (take n (it_rest d it), d', it') \<and> dictReleaseIterator d' it' = d"
proof (cases n)
  case 0
  then show ?thesis using assms by (simp add: dictReleaseIterator_def)
next
  case (Suc m)
  define d1 where "d1 = (if it_safe it then dictPauseRehashing d else d)"
  have d1: "dictIsRehashing d1 \<Longrightarrow> 0 < ht_size (ht1 d1)" "it_rest d1 = it_rest d"
    using assms(4) by (auto simp: d1_def fun_eq_iff split: if_splits)
  obtain r it1 where c: "dictNext_loop d1 it = (r, it1)" by force
  have nx: "dictNext d it = (d1, r, it1)" using assms c by (simp add: dictNext_def d1_def Let_def)
  have s: "it_safe it1 = it_safe it" "0 \<le> it_index it1" using dictNext_loop_started [of it d1] assms c by auto
  have resumed: "dictReleaseIterator d1 it' = d" if "0 \<le> it_index it'" "it_safe it' = it_safe it" for it'
    using that by (simp add: dictReleaseIterator_def d1_def)
  show ?thesis
  proof (cases "it_rest d it")
    case Nil
    with dictNext_loop_rest [of it d1] d1 c assms(1) have "r = None" by simp
    with Nil Suc nx s resumed show ?thesis by simp
  next
    case (Cons e es)
    with dictNext_loop_rest [of it d1] d1 c assms(1) have r: "r = Some e" "it_rest d1 it1 = es" by auto
    from dict_collect_rest [OF s(2) d1(1), of m] obtain it' where
      "dict_collect m d1 it1 = (take m es, d1, it')" "it_safe it' = it_safe it1" "0 \<le> it_index it'" unfolding r(2) by blast
    with r(1) Cons Suc nx s resumed show ?thesis by simp
  qed
qed

lemma dict_collect_entries:
  assumes "dict_inv E d" "dictSize d \<le> n" "it \<in> {dictGetIterator, dictGetSafeIterator}"
  shows "\<exists>d' it'. dict_collect n d it = (dict_entries d, d', it') \<and> dictReleaseIterator d' it' = d"
proof -
  have i: "it_index it = - 1" "it_table it = 0" "it_next it = []"
    using assms(3) by (auto simp: dictGetIterator_def dictGetSafeIterator_def)
  then have "it_rest d it = dict_entries d"
    using dict_invD(6) [OF assms(1)] by (auto simp: it_rest_def dict_entries_def it_ht_def ht_entries_def)
  with dict_collect_started [OF i, of d n] dict_invD(7) [OF assms(1)] dictSize_entries [OF assms(1)] assms(2)
  show ?thesis by auto
qed

subsection \<open>Runs refine a map\<close>

lemma dictResize_ok: "dict_inv E d \<Longrightarrow> rehash_ok E d (fst (dictResize E d))"
  using dictExpand_raw_ok(1) [of E d] by (auto simp: dictResize_def dictExpand_def rehash_ok_def Let_def)

lemma dict_exec_ok:
  assumes "dict_inv E d" "card (dom (dict_abs d)) < 2 ^ 60"
  shows "\<exists>d'. dict_exec E c d = Some (d', snd (map_exec c (dict_abs d))) \<and> dict_inv E d' \<and>
    dict_abs d' = fst (map_exec c (dict_abs d)) \<and> card (dom (dict_abs d')) \<le> Suc (card (dom (dict_abs d)))"
proof (cases c)
  case (DFind k)
  then show ?thesis using dict.find_ok [OF assms(1), of k] by auto
next
  case (DAdd k v)
  then show ?thesis using dict.add_ok [OF assms, of k v] dict.card_grows [OF assms(1)] by fastforce
next
  case (DReplace k v)
  then show ?thesis using dict.rep_ok [OF assms, of k v] dict.card_grows [OF assms(1)] by fastforce
next
  case (DDelete k)
  then show ?thesis using dict.del_ok [OF assms(1), of k] dict.card_shrinks [OF assms(1)] by (fastforce intro: le_SucI)
next
  case DResize
  then show ?thesis using rehash_ok_abs(1,2) [OF dictResize_ok assms(1), OF assms(1)] by simp
next
  case (DRehash n)
  then show ?thesis using dictRehash_ok [OF assms(1), of n] rehash_ok_abs(1,2) [OF _ assms(1)] by fastforce
qed

lemma dict_run_ok:
  "dict_inv E d \<Longrightarrow> card (dom (dict_abs d)) + length cs \<le> 2 ^ 60 \<Longrightarrow>
   \<exists>d'. dict_run E cs d = Some (d', snd (map_run cs (dict_abs d))) \<and> dict_inv E d' \<and>
     dict_abs d' = fst (map_run cs (dict_abs d))"
proof (induction cs arbitrary: d)
  case (Cons c cs)
  then have "card (dom (dict_abs d)) < 2 ^ 60" by simp
  from dict_exec_ok [OF Cons.prems(1) this, of c] obtain d1 where
    d1: "dict_exec E c d = Some (d1, snd (map_exec c (dict_abs d)))" "dict_inv E d1"
    "dict_abs d1 = fst (map_exec c (dict_abs d))" "card (dom (dict_abs d1)) \<le> Suc (card (dom (dict_abs d)))" by blast
  from Cons.IH [OF d1(2)] d1(4) Cons.prems(2) obtain d2 where
    "dict_run E cs d1 = Some (d2, snd (map_run cs (dict_abs d1)))" "dict_inv E d2"
    "dict_abs d2 = fst (map_run cs (dict_abs d1))" by auto
  with d1 show ?case by (auto split: prod.splits)
qed simp

subsection \<open>Properties\<close>

text \<open>
  C33. Every sequence of lookups, insertions, replacements, deletions, resizes and rehash steps on a dictionary
  returns, with no failed assertion and no access outside an array, gives the results that a finite map gives,
  and ends in a well-formed dictionary that stands for the map's final state, for every hash function and
  growth policy and at every stage of an incremental rehash, as long as the number of entries stays below
  \<open>2 ^ 60\<close>.
\<close>

theorem dict_refines_map:
  assumes "dict_inv E d" "card (dom (dict_abs d)) + length cs \<le> 2 ^ 60"
  shows "\<exists>d'. dict_run E cs d = Some (d', snd (map_run cs (dict_abs d))) \<and> dict_inv E d' \<and>
    dict_abs d' = fst (map_run cs (dict_abs d))"
  using assms by (rule dict_run_ok)

theorem dict_refines_map_witness:
  "\<exists>d'. dict_run \<lparr>hashFunction = \<lambda>_. 7, expandAllowed = \<lambda>_ _ _. True, dict_can_resize = True\<rparr>
     [DAdd ''a'' 1, DAdd ''b'' 2, DReplace ''a'' 3, DDelete ''b'', DResize, DFind ''a'', DFind ''b''] dictCreate =
       Some (d', [OBool True, OBool True, OBool False, OBool True, ODone, OVal (Some (3 :: nat)), OVal None])"
  using dict_refines_map [OF dict_inv_Create(1),
      of "[DAdd ''a'' 1, DAdd ''b'' 2, DReplace ''a'' 3, DDelete ''b'', DResize, DFind ''a'', DFind ''b'' :: (string, nat) dict_op]"
        "\<lparr>hashFunction = \<lambda>_. 7, expandAllowed = \<lambda>_ _ _. True, dict_can_resize = True\<rparr>"]
  by (auto simp: dict_inv_Create(2))

text \<open>
  C34. A rehash ends: \<open>dictRehash\<close> with as many steps as the old table has buckets, and few enough for the budget
  \<open>n * 10\<close> to be an \<open>int\<close>, moves every entry, leaves the dictionary with one table and reports that nothing is left,
  and the entries are the same.
\<close>

theorem dict_rehash_completes:
  assumes "dict_inv E d" "dictIsRehashing d" "ht_size (ht0 d) \<le> unat n" "unat n * 10 < 2 ^ 31"
  shows "\<exists>d'. dictRehash E d n = Some (d', False) \<and> \<not> dictIsRehashing d' \<and> dict_inv E d' \<and>
    dict_abs d' = dict_abs d"
proof -
  obtain d' where d': "dictRehash E d n = Some (d', False)" "\<not> dictIsRehashing d'"
    using dictRehash_ends [OF assms] by blast
  with dictRehash_ok [OF assms(1), of n] have "rehash_ok E d d'" by auto
  with d' rehash_ok_abs(1,2) [OF this assms(1)] show ?thesis by blast
qed

text \<open>A dictionary in the middle of a rehash.\<close>

definition example_type :: "nat dictType" where
  "example_type = \<lparr>hashFunction = \<lambda>_. 2, expandAllowed = \<lambda>_ _ _. True, dict_can_resize = True\<rparr>"

definition example_dict :: "(nat, string) dict" where
  "example_dict = \<lparr>ht0 = \<lparr>ht_table = [[], [], [(1, ''x''), (3, ''z'')], []], ht_used = 2\<rparr>,
     ht1 = \<lparr>ht_table = [[], [], [(5, ''y'')], [], [], [], [], []], ht_used = 1\<rparr>, rehashidx = 0, pauserehash = 0\<rparr>"

lemma example_dict_entries: "dict_entries example_dict = [(1, ''x''), (3, ''z''), (5, ''y'')]"
  by (simp only: example_dict_def dict_entries_def ht_entries_def dict.simps dictht.simps concat.simps append.simps)

lemma example_dict_ok: "dict_inv example_type example_dict"
proof -
  have "ht_inv example_type \<lparr>ht_table = [[], [], [(1, ''x''), (3, ''z'')], []], ht_used = 2\<rparr>"
    "ht_inv example_type \<lparr>ht_table = [[], [], [(5, ''y'')], [], [], [], [], []], ht_used = 1\<rparr>"
    by (simp_all add: ht_inv_def ht_size_def ht_entries_def ht_index_def example_type_def All_less_Suc2)
  then show ?thesis
    unfolding dict_inv_def example_dict_entries unfolding example_dict_def dict.simps by (simp add: ht_size_def)
qed

theorem dict_rehash_completes_witness:
  "\<exists>d'. dictRehash example_type example_dict 4 = Some (d', False) \<and> \<not> dictIsRehashing d' \<and> dict_abs d' 1 = Some ''x''"
proof -
  have "ht_size (ht0 example_dict) = 4" "dictIsRehashing example_dict"
    by (simp_all add: example_dict_def ht_size_def dictIsRehashing_def)
  moreover have "dict_abs example_dict 1 = Some ''x''" by (simp add: dict_abs_def example_dict_entries)
  ultimately show ?thesis using dict_rehash_completes [OF example_dict_ok, of 4] by auto
qed

text \<open>
  C35. An iterator over a dictionary that is not modified, unsafe or safe, returns every entry exactly once and then
  \<open>NULL\<close>, also in the middle of a rehash, when the entries are spread over both tables: with at least as many calls as
  there are entries it yields all of them, with pairwise different keys, and its release leaves the dictionary as it
  was, in particular with the rehash no more paused than before.
\<close>

theorem dict_iterator_complete:
  assumes "dict_inv E d" "dictSize d \<le> n" "it \<in> {dictGetIterator, dictGetSafeIterator}"
  shows "\<exists>d' it'. dict_collect n d it = (dict_entries d, d', it') \<and> distinct (map fst (dict_entries d)) \<and>
    dictReleaseIterator d' it' = d"
  using dict_collect_entries [OF assms] dict_invD(3) [OF assms(1)] by blast

theorem dict_iterator_complete_witness:
  "\<exists>d' it'. dict_collect 5 example_dict dictGetSafeIterator = ([(1, ''x''), (3, ''z''), (5, ''y'')], d', it') \<and>
     dictReleaseIterator d' it' = example_dict"
  using dict_iterator_complete [OF example_dict_ok, of 5 dictGetSafeIterator] dictSize_entries [OF example_dict_ok]
  by (simp add: example_dict_entries)

end
