(* ===== verification/Numbers.thy ===== *)
theory Numbers
  imports Prelude
begin

text \<open>
  The decimal conversions of the Kanban server (\<open>kanban/src/util.c\<close>).  \<open>ll2string\<close> writes into the caller's
  buffer two digits at a time from a table, from the right; \<open>string2ll\<close> accepts only the canonical text of a
  64-bit integer.  Both are shown equal to the reference functions of the prelude.
\<close>

subsection \<open>Counting digits\<close>

function digits10 :: "nat \<Rightarrow> nat" where
  "digits10 v =
     (if v < 10 then 1
      else if v < 100 then 2
      else if v < 1000 then 3
      else if v < 1000000000000 then
        (if v < 100000000 then
           (if v < 1000000 then
              (if v < 10000 then 4 else 5 + (if v \<ge> 100000 then 1 else 0))
            else 7 + (if v \<ge> 10000000 then 1 else 0))
         else if v < 10000000000 then 9 + (if v \<ge> 1000000000 then 1 else 0)
         else 11 + (if v \<ge> 100000000000 then 1 else 0))
      else 12 + digits10 (v div 1000000000000))"
  by pat_completeness auto
termination by (relation "measure id") auto

declare digits10.simps [simp del]

definition sdigits10 :: "int \<Rightarrow> nat" where
  "sdigits10 v =
     (if v < 0 then
        let uv = (if v \<noteq> LONG_MIN then nat (- v) else nat LONG_MAX + 1) in digits10 uv + 1
      else digits10 (nat v))"

subsection \<open>Printing\<close>

definition ll2string_digits :: string where
  "ll2string_digits =
     ''0001020304050607080910111213141516171819'' @
     ''2021222324252627282930313233343536373839'' @
     ''4041424344454647484950515253545556575859'' @
     ''6061626364656667686970717273747576777879'' @
     ''8081828384858687888990919293949596979899''"

function ll2string_loop :: "nat \<Rightarrow> nat \<Rightarrow> string \<Rightarrow> string" where
  "ll2string_loop v next dst =
     (if v \<ge> 100 then
        let i = (v mod 100) * 2 in
        ll2string_loop (v div 100) (next - 2)
          (dst[next := ll2string_digits ! (i + 1), next - 1 := ll2string_digits ! i])
      else if v < 10 then dst[next := char_of (48 + v)]
      else let i = v * 2 in dst[next := ll2string_digits ! (i + 1), next - 1 := ll2string_digits ! i])"
  by pat_completeness auto
termination by (relation "measure (\<lambda>(v, _). v)") auto

declare ll2string_loop.simps [simp del]

text \<open>The buffer afterwards and the returned length, 0 when the buffer is too small.\<close>

definition ll2string :: "string \<Rightarrow> int \<Rightarrow> string \<times> nat" where
  "ll2string dst svalue =
     (let value = (if svalue < 0 then (if svalue \<noteq> LONG_MIN then nat (- svalue) else nat LONG_MAX + 1)
                   else nat svalue);
          negative = (if svalue < 0 then 1 else 0);
          len = digits10 value + negative
      in if len \<ge> length dst then (dst, 0)
         else let dst = dst[len := NUL];
                  dst = ll2string_loop value (len - 1) dst
              in (if negative = 1 then dst[0 := CHR ''-''] else dst, len))"

subsection \<open>Reading\<close>

definition ULLONG_MAX :: nat where
  "ULLONG_MAX = 2 ^ 64 - 1"

text \<open>The value after the leading digits and the rest of the text; \<open>None\<close> on overflow.\<close>

fun string2ll_loop :: "nat \<Rightarrow> string \<Rightarrow> (nat \<times> string) option" where
  "string2ll_loop v [] = Some (v, [])"
| "string2ll_loop v (c # p) =
     (if CHR ''0'' \<le> c \<and> c \<le> CHR ''9'' then
        if v > ULLONG_MAX div 10 then None
        else if v * 10 > ULLONG_MAX - digit_val c then None
        else string2ll_loop (v * 10 + digit_val c) p
      else Some (v, c # p))"

definition string2ll :: "string \<Rightarrow> int option" where
  "string2ll s =
     (if s = [] then None
      else if s = ''0'' then Some 0
      else
        let negative = (hd s = CHR ''-''); p = (if negative then tl s else s) in
        if p = [] then None
        else if CHR ''1'' \<le> hd p \<and> hd p \<le> CHR ''9'' then
          (case string2ll_loop (digit_val (hd p)) (tl p) of
             None \<Rightarrow> None
           | Some (v, rest) \<Rightarrow>
               if rest \<noteq> [] then None
               else if negative then
                 if v > nat (- (LONG_MIN + 1)) + 1 then None else Some (- int v)
               else if v > nat LONG_MAX then None else Some (int v))
        else None)"

definition isSdsRepresentableAsLongLong :: "string \<Rightarrow> int option" where
  "isSdsRepresentableAsLongLong s = string2ll s"

subsection \<open>Length of the decimal text\<close>

lemma nat_to_string_small: "n < 10 \<Longrightarrow> nat_to_string n = [digit_char n]"
  by (subst nat_to_string.simps) simp

lemma nat_to_string_step: "10 \<le> n \<Longrightarrow> nat_to_string n = nat_to_string (n div 10) @ [digit_char (n mod 10)]"
  by (subst nat_to_string.simps) simp

lemma length_nat_to_string_div:
  "10 ^ k \<le> n \<Longrightarrow> length (nat_to_string n) = k + length (nat_to_string (n div 10 ^ k))"
proof (induction k arbitrary: n)
  case (Suc k)
  have "10 \<le> n" using Suc.prems by (meson le_trans one_le_power power_increasing self_le_power one_le_numeral zero_less_Suc)
  moreover have "10 ^ k \<le> n div 10" using Suc.prems by (simp add: less_eq_div_iff_mult_less_eq ac_simps)
  ultimately show ?case
    using Suc.IH [of "n div 10"] by (simp add: nat_to_string_step [of n] div_mult2_eq)
qed simp

lemma length_nat_to_string_iff: "n < 10 ^ Suc k \<longleftrightarrow> length (nat_to_string n) \<le> Suc k"
proof (induction k arbitrary: n)
  case 0
  show ?case
    using nat_to_string_small [of n] length_nat_to_string_div [of 1 n] nat_to_string_nonempty [of "n div 10"]
    by (cases "n < 10") auto
next
  case (Suc k)
  show ?case
  proof (cases "n < 10")
    case True
    moreover have "(10 :: nat) \<le> 10 ^ Suc (Suc k)" by simp
    ultimately have "n < 10 ^ Suc (Suc k)" by linarith
    with True show ?thesis by (simp add: nat_to_string_small)
  next
    case False
    moreover have "n < 10 ^ Suc (Suc k) \<longleftrightarrow> n div 10 < 10 ^ Suc k"
      by (simp add: div_less_iff_less_mult ac_simps)
    ultimately show ?thesis using Suc.IH [of "n div 10"] nat_to_string_step [of n] by simp
  qed
qed

lemma length_nat_to_string_le: "0 < k \<Longrightarrow> n < 10 ^ k \<longleftrightarrow> length (nat_to_string n) \<le> k"
  using length_nat_to_string_iff [of n "k - 1"] by simp

lemma digits10_below:
  assumes "v < 1000000000000" "L \<ge> 1"
    and "v < 10 \<longleftrightarrow> L \<le> 1" "v < 100 \<longleftrightarrow> L \<le> 2" "v < 1000 \<longleftrightarrow> L \<le> 3" "v < 10000 \<longleftrightarrow> L \<le> 4"
    and "v < 100000 \<longleftrightarrow> L \<le> 5" "v < 1000000 \<longleftrightarrow> L \<le> 6" "v < 10000000 \<longleftrightarrow> L \<le> 7"
    and "v < 100000000 \<longleftrightarrow> L \<le> 8" "v < 1000000000 \<longleftrightarrow> L \<le> 9" "v < 10000000000 \<longleftrightarrow> L \<le> 10"
    and "v < 100000000000 \<longleftrightarrow> L \<le> 11" "v < 1000000000000 \<longleftrightarrow> L \<le> 12"
  shows "digits10 v = L"
proof -
  have "L \<le> 12" using assms(1,14) by simp
  with assms(2) have "L \<in> {1, 2, 3, 4, 5, 6, 7, 8, 9, 10, 11, 12}"
    unfolding insert_iff empty_iff by presburger
  moreover have "c \<le> v \<longleftrightarrow> \<not> v < c" for c by auto
  ultimately show ?thesis
    by (subst digits10.simps) (elim insertE emptyE; simp only: assms; simp)
qed

lemma digits10_length: "digits10 v = length (nat_to_string v)"
proof (induction v rule: digits10.induct)
  case (1 v)
  show ?case
  proof (cases "v < 1000000000000")
    case True
    then show ?thesis
      using length_nat_to_string_le [of 1 v] length_nat_to_string_le [of 2 v] length_nat_to_string_le [of 3 v]
        length_nat_to_string_le [of 4 v] length_nat_to_string_le [of 5 v] length_nat_to_string_le [of 6 v]
        length_nat_to_string_le [of 7 v] length_nat_to_string_le [of 8 v] length_nat_to_string_le [of 9 v]
        length_nat_to_string_le [of 10 v] length_nat_to_string_le [of 11 v] length_nat_to_string_le [of 12 v]
      by (intro digits10_below) (simp_all add: Suc_le_eq)
  next
    case False
    with 1 show ?thesis
      using length_nat_to_string_div [of 12 v] by (subst digits10.simps) simp
  qed
qed

subsection \<open>Printing is correct\<close>

lemma length_digits: "length ll2string_digits = 200"
  by (simp add: ll2string_digits_def)

lemma digits_table:
  assumes "k < 100"
  shows "ll2string_digits ! (k * 2) = digit_char (k div 10)" "ll2string_digits ! (k * 2 + 1) = digit_char (k mod 10)"
proof -
  have "list_all (\<lambda>k. ll2string_digits ! (k * 2) = digit_char (k div 10) \<and>
      ll2string_digits ! (k * 2 + 1) = digit_char (k mod 10)) [0..<100]" by code_simp
  with assms show "ll2string_digits ! (k * 2) = digit_char (k div 10)"
    "ll2string_digits ! (k * 2 + 1) = digit_char (k mod 10)"
    by (auto simp: list_all_iff)
qed

lemma list_update_two:
  assumes "Suc n < length dst"
  shows "dst[Suc n := b, n := a] = take n dst @ a # b # drop (Suc (Suc n)) dst"
  using assms
proof (induction dst arbitrary: n)
  case (Cons x dst)
  show ?case
  proof (cases n)
    case 0
    with Cons.prems show ?thesis by (cases dst) simp_all
  qed (use Cons in simp)
qed simp

lemma nat_to_string_100:
  assumes "100 \<le> v"
  shows "nat_to_string v = nat_to_string (v div 100) @ [digit_char (v mod 100 div 10), digit_char (v mod 100 mod 10)]"
proof -
  have "v mod 100 = 10 * (v div 10 mod 10) + v mod 10" using mod_mult2_eq [of v 10 10] by simp
  then have "v mod 100 div 10 = v div 10 mod 10" "v mod 100 mod 10 = v mod 10" by simp_all
  moreover have "10 \<le> v div 10" using assms by simp
  moreover have "v div 10 div 10 = v div 100" using div_mult2_eq [of v 10 10] by simp
  ultimately show ?thesis
    using assms nat_to_string_step [of v] nat_to_string_step [of "v div 10"] by simp
qed

lemma ll2string_loop_correct:
  assumes "next < length dst" "length (nat_to_string v) \<le> Suc next"
  shows "ll2string_loop v next dst =
    take (Suc next - length (nat_to_string v)) dst @ nat_to_string v @ drop (Suc next) dst"
  using assms
proof (induction v "next" dst rule: ll2string_loop.induct)
  case (1 v nx dst)
  consider "v < 10" | "10 \<le> v" "v < 100" | "100 \<le> v" by linarith
  then show ?case
  proof cases
    case 1
    then have "nat_to_string v = [char_of (48 + v)]" by (simp add: nat_to_string_small digit_char_def)
    with 1 "1.prems" show ?thesis by (subst ll2string_loop.simps) (simp add: upd_conv_take_nth_drop)
  next
    case 2
    then have s: "nat_to_string v = [digit_char (v div 10), digit_char (v mod 10)]"
      by (simp add: nat_to_string_step nat_to_string_small)
    with "1.prems" obtain m where m: "nx = Suc m" by (cases nx) auto
    have "ll2string_loop v nx dst = dst[nx := digit_char (v mod 10), nx - 1 := digit_char (v div 10)]"
      using 2 digits_table [of v] by (subst ll2string_loop.simps) (simp add: Let_def)
    with list_update_two [of m dst] "1.prems" m s show ?thesis by simp
  next
    case 3
    let ?k = "v mod 100"
    note s = nat_to_string_100 [OF 3]
    with "1.prems" obtain m where m: "nx = Suc m" by (cases nx) auto
    have "length (nat_to_string (v div 100)) \<noteq> 0" by simp
    with "1.prems" s m obtain q where q: "m = Suc q" by (cases m) auto
    have eq: "ll2string_loop v nx dst = ll2string_loop (v div 100) q
        (dst[Suc m := digit_char (?k mod 10), m := digit_char (?k div 10)])"
      using 3 digits_table [of ?k] m q by (subst ll2string_loop.simps) (simp add: Let_def)
    let ?dst = "take m dst @ digit_char (?k div 10) # digit_char (?k mod 10) # drop (Suc (Suc m)) dst"
    have d: "dst[Suc m := digit_char (?k mod 10), m := digit_char (?k div 10)] = ?dst"
      using list_update_two [of m dst] "1.prems"(1) m by simp
    have "ll2string_loop (v div 100) q ?dst =
        take (Suc q - length (nat_to_string (v div 100))) ?dst @ nat_to_string (v div 100) @ drop (Suc q) ?dst"
      using "1.IH" [OF 3 refl] digits_table [of ?k] m q d s "1.prems" by simp
    with "1.prems" m q s show ?thesis unfolding eq d by simp
  qed
qed

lemma ll2string_magnitude:
  "in_long v \<Longrightarrow> v < 0 \<Longrightarrow> (if v \<noteq> LONG_MIN then nat (- v) else nat LONG_MAX + 1) = nat (- v)"
  by (simp add: LONG_MIN_def LONG_MAX_def)

lemma ll2string_correct:
  assumes "in_long v"
  shows "ll2string dst v =
    (if length (to_string v) \<ge> length dst then (dst, 0)
     else (to_string v @ NUL # drop (Suc (length (to_string v))) dst, length (to_string v)))"
proof (cases "v < 0")
  case True
  let ?s = "nat_to_string (nat (- v))"
  let ?d = "dst[Suc (length ?s) := NUL]"
  have t: "to_string v = CHR ''-'' # ?s" using True by (simp add: to_string_def)
  show ?thesis
  proof (cases "length (to_string v) \<ge> length dst")
    case False
    with t have b: "length ?s < length ?d" by simp
    have "ll2string dst v = ((ll2string_loop (nat (- v)) (length ?s) ?d)[0 := CHR ''-''], Suc (length ?s))"
      using True False t by (simp add: ll2string_def ll2string_magnitude [OF assms True] digits10_length Let_def)
    also have "ll2string_loop (nat (- v)) (length ?s) ?d = take 1 ?d @ ?s @ drop (Suc (length ?s)) ?d"
      using ll2string_loop_correct [OF b, of "nat (- v)"] by simp
    finally show ?thesis
      using False t by (cases dst) (simp_all add: upd_conv_take_nth_drop)
  qed (use True t in \<open>simp add: ll2string_def ll2string_magnitude [OF assms True] digits10_length Let_def\<close>)
next
  case False
  let ?s = "nat_to_string (nat v)"
  let ?d = "dst[length ?s := NUL]"
  have t: "to_string v = ?s" using False by (simp add: to_string_def)
  have p: "0 < length ?s" by simp
  show ?thesis
  proof (cases "length (to_string v) \<ge> length dst")
    case b: False
    with t have "length ?s - 1 < length ?d" by simp
    moreover have "ll2string dst v = (ll2string_loop (nat v) (length ?s - 1) ?d, length ?s)"
      using False b t by (simp add: ll2string_def digits10_length Let_def)
    ultimately show ?thesis
      using b t p ll2string_loop_correct [of "length ?s - 1" ?d "nat v"] by (simp add: upd_conv_take_nth_drop)
  qed (use False t in \<open>simp add: ll2string_def digits10_length Let_def\<close>)
qed

lemma to_string_short: "in_long v \<Longrightarrow> length (to_string v) < 64"
proof -
  assume "in_long v"
  then have "nat \<bar>v\<bar> < 10 ^ 20" by (auto simp: in_long_def LONG_MIN_def LONG_MAX_def)
  then have "length (nat_to_string (nat \<bar>v\<bar>)) \<le> 20" using length_nat_to_string_le [of 20 "nat \<bar>v\<bar>"] by simp
  then show ?thesis by (auto simp: to_string_def abs_if split: if_splits)
qed

subsection \<open>Reading is exact\<close>

lemma digits_val_mono: "v \<le> digits_val 10 v ds"
proof (induction ds arbitrary: v)
  case (Cons c ds)
  have "v \<le> v * 10 + digit_val c" by simp
  also have "\<dots> \<le> digits_val 10 (v * 10 + digit_val c) ds" by (rule Cons.IH)
  finally show ?case by simp
qed simp

lemma string2ll_loop_eq:
  assumes "v \<le> ULLONG_MAX"
  shows "string2ll_loop v p =
    (if digits_val 10 v (takeWhile is_digit p) \<le> ULLONG_MAX
     then Some (digits_val 10 v (takeWhile is_digit p), dropWhile is_digit p) else None)"
  using assms
proof (induction p arbitrary: v)
  case (Cons c p)
  show ?case
  proof (cases "is_digit c")
    case True
    then have d: "digit_val c < 10" by (simp add: is_digit_iff)
    have c: "(v > ULLONG_MAX div 10 \<or> v * 10 > ULLONG_MAX - digit_val c) \<longleftrightarrow> v * 10 + digit_val c > ULLONG_MAX"
      using d by (simp add: ULLONG_MAX_def) linarith
    show ?thesis
    proof (cases "v * 10 + digit_val c > ULLONG_MAX")
      case big: True
      with c True digits_val_mono [of "v * 10 + digit_val c" "takeWhile is_digit p"] show ?thesis
        by (auto simp flip: is_digit_def)
    next
      case False
      with c True Cons.IH [of "v * 10 + digit_val c"] show ?thesis by (simp flip: is_digit_def)
    qed
  qed (use Cons.prems in \<open>simp flip: is_digit_def\<close>)
qed simp

lemma digit_char_0: "digit_char 0 = CHR ''0''"
  by code_simp

lemma nat_to_string_digits_val:
  "ds \<noteq> [] \<Longrightarrow> \<forall>c \<in> set ds. is_digit c \<Longrightarrow> hd ds \<noteq> CHR ''0'' \<Longrightarrow>
   nat_to_string (digits_val 10 0 ds) = ds \<and> 0 < digits_val 10 0 ds"
proof (induction ds rule: rev_induct)
  case (snoc c ds)
  have d: "digit_val c < 10" using snoc.prems by (simp add: is_digit_iff)
  have ch: "digit_char (digit_val c) = c"
    using snoc.prems by (auto simp: digit_char_def digit_val_def Let_def is_digit_def less_eq_char_def)
  show ?case
  proof (cases ds)
    case Nil
    have "digit_val c \<noteq> 0"
    proof
      assume "digit_val c = 0"
      with ch have "c = CHR ''0''" by (simp add: digit_char_0)
      with snoc.prems Nil show False by simp
    qed
    with Nil d ch show ?thesis by (simp add: nat_to_string_small)
  next
    case (Cons x xs)
    with snoc have IH: "nat_to_string (digits_val 10 0 ds) = ds" "0 < digits_val 10 0 ds" by auto
    have "digits_val 10 0 (ds @ [c]) = digits_val 10 0 ds * 10 + digit_val c" by (simp add: digits_val_append)
    with IH d ch nat_to_string_step [of "digits_val 10 0 ds * 10 + digit_val c"] show ?thesis by simp
  qed
qed simp

lemma hd_nat_to_string: "0 < n \<Longrightarrow> hd (nat_to_string n) \<noteq> CHR ''0''"
proof (induction n rule: nat_to_string.induct)
  case (1 n)
  show ?case
  proof (cases "n < 10")
    case True
    with 1 have "digit_val (digit_char n) \<noteq> 0" by simp
    moreover have "digit_val CHR ''0'' = 0" by (simp add: digit_val_def)
    ultimately have "digit_char n \<noteq> CHR ''0''" by metis
    with True show ?thesis by (simp add: nat_to_string_small)
  next
    case False
    then have "hd (nat_to_string n) = hd (nat_to_string (n div 10))" using nat_to_string_step [of n] by simp
    moreover have "hd (nat_to_string (n div 10)) \<noteq> CHR ''0''" by (rule "1.IH") (use False in simp_all)
    ultimately show ?thesis by simp
  qed
qed

lemma first_digit: "CHR ''1'' \<le> c \<and> c \<le> CHR ''9'' \<longleftrightarrow> is_digit c \<and> c \<noteq> CHR ''0''"
proof -
  have "c = CHR ''0''" if "of_char c = (48 :: nat)"
  proof -
    have "of_char c = (of_char CHR ''0'' :: nat)" using that by simp
    then show ?thesis by (simp only: of_char_eq_iff)
  qed
  then have "c \<noteq> CHR ''0'' \<longleftrightarrow> of_char c \<noteq> (48 :: nat)" by auto
  then show ?thesis unfolding is_digit_def less_eq_char_def by simp linarith
qed

lemma string2ll_digits:
  assumes "p \<noteq> []" "is_digit (hd p)"
  shows "string2ll_loop (digit_val (hd p)) (tl p) = Some (n, []) \<longleftrightarrow>
    (\<forall>c \<in> set p. is_digit c) \<and> n = digits_val 10 0 p \<and> n \<le> ULLONG_MAX"
proof -
  have p: "set p = insert (hd p) (set (tl p))" using assms(1) by (cases p) auto
  have d: "digits_val 10 0 p = digits_val 10 (digit_val (hd p)) (tl p)" using assms(1) by (cases p) auto
  have "digit_val (hd p) \<le> ULLONG_MAX" using assms(2) by (simp add: is_digit_iff ULLONG_MAX_def)
  note l = string2ll_loop_eq [OF this, of "tl p"]
  show ?thesis
  proof (cases "\<forall>c \<in> set (tl p). is_digit c")
    case True
    have t: "takeWhile is_digit (tl p) = tl p" "dropWhile is_digit (tl p) = []"
      using True by (simp_all add: takeWhile_eq_all_conv)
    show ?thesis using True assms(2) unfolding l t d p by auto
  next
    case False
    then have "dropWhile is_digit (tl p) \<noteq> []" by (simp add: dropWhile_eq_Nil_conv)
    with l p False show ?thesis by auto
  qed
qed

lemma string2ll_sign:
  assumes "s \<noteq> []" "s \<noteq> ''0''"
  defines "p \<equiv> (if hd s = CHR ''-'' then tl s else s)"
  shows "string2ll s = Some v \<longleftrightarrow>
    p \<noteq> [] \<and> hd p \<noteq> CHR ''0'' \<and> (\<forall>c \<in> set p. is_digit c) \<and>
    v = (if hd s = CHR ''-'' then - int (digits_val 10 0 p) else int (digits_val 10 0 p)) \<and> in_long v"
proof (cases "p = [] \<or> \<not> (is_digit (hd p) \<and> hd p \<noteq> CHR ''0'')")
  case True
  then have "string2ll s = None"
    unfolding string2ll_def first_digit Let_def p_def [symmetric] using assms(1,2) by auto
  with True show ?thesis by auto
next
  case False
  let ?n = "digits_val 10 0 p"
  note l = string2ll_digits [of p]
  have eq: "string2ll s = (case string2ll_loop (digit_val (hd p)) (tl p) of None \<Rightarrow> None
      | Some (v, rest) \<Rightarrow> if rest \<noteq> [] then None
          else if hd s = CHR ''-'' then if v > nat (- (LONG_MIN + 1)) + 1 then None else Some (- int v)
          else if v > nat LONG_MAX then None else Some (int v))"
    unfolding string2ll_def first_digit Let_def p_def [symmetric] using False assms(1,2) by simp
  have r: "?n \<le> ULLONG_MAX" if "in_long (int ?n) \<or> in_long (- int ?n)"
    using that by (auto simp: in_long_def LONG_MAX_def LONG_MIN_def ULLONG_MAX_def)
  have b: "(\<not> int ?n > LONG_MAX) \<longleftrightarrow> in_long (int ?n)" "(\<not> ?n > nat (- (LONG_MIN + 1)) + 1) \<longleftrightarrow> in_long (- int ?n)"
    "(?n > nat LONG_MAX) \<longleftrightarrow> int ?n > LONG_MAX"
    by (auto simp: in_long_def LONG_MAX_def LONG_MIN_def)
  show ?thesis
  proof (cases "string2ll_loop (digit_val (hd p)) (tl p) = Some (?n, [])")
    case True
    then have "\<forall>c \<in> set p. is_digit c" using l [of ?n] False by blast
    with True eq False b show ?thesis by auto
  next
    case no: False
    then have "\<not> ((\<forall>c \<in> set p. is_digit c) \<and> ?n \<le> ULLONG_MAX)" using l [of ?n] False by blast
    moreover have "string2ll_loop (digit_val (hd p)) (tl p) \<noteq> Some (m, [])" for m
      using l [of m] False no by auto
    then have "string2ll s = None" using eq by (auto split: option.splits)
    ultimately show ?thesis using r by auto
  qed
qed

lemma string2ll_exact: "string2ll s = Some v \<longleftrightarrow> s = to_string v \<and> in_long v"
proof (cases "s = [] \<or> s = ''0''")
  case True
  have "to_string v = ''0'' \<longleftrightarrow> v = 0" using to_string_inj [of v 0] by (simp add: to_string_def nat_to_string_small digit_char_0)
  moreover have "to_string v \<noteq> []" by (simp add: to_string_def)
  ultimately show ?thesis using True
    by (auto simp: string2ll_def in_long_def LONG_MIN_def LONG_MAX_def)
next
  case False
  define p where "p = (if hd s = CHR ''-'' then tl s else s)"
  note x = string2ll_sign [of s v, folded p_def]
  show ?thesis
  proof
    assume "string2ll s = Some v"
    with x False have p: "p \<noteq> []" "hd p \<noteq> CHR ''0''" "\<forall>c \<in> set p. is_digit c"
      "v = (if hd s = CHR ''-'' then - int (digits_val 10 0 p) else int (digits_val 10 0 p))" "in_long v" by auto
    note n = nat_to_string_digits_val [OF p(1,3,2)]
    have "s = (if hd s = CHR ''-'' then CHR ''-'' # p else p)" using False by (cases s) (auto simp: p_def)
    with n p(4,5) show "s = to_string v \<and> in_long v" by (auto simp: to_string_def split: if_splits)
  next
    assume v: "s = to_string v \<and> in_long v"
    with False have v0: "v \<noteq> 0" by (auto simp: to_string_def nat_to_string_small digit_char_0)
    let ?n = "nat \<bar>v\<bar>"
    have h: "hd (nat_to_string m) \<noteq> CHR ''-''" for m
      using hd_in_set_nat_to_string [of m] is_digit_not(2) by metis
    have "p = nat_to_string ?n" "hd s = CHR ''-'' \<longleftrightarrow> v < 0"
      using v h [of "nat v"] by (auto simp: p_def to_string_def)
    moreover have "hd (nat_to_string ?n) \<noteq> CHR ''0''" using v0 by (intro hd_nat_to_string) simp
    ultimately show "string2ll s = Some v"
      using x v False nat_to_string_digits by (auto simp: digits_val_nat_to_string)
  qed
qed

subsection \<open>Properties\<close>

text \<open>
  C37. \<open>ll2string\<close> writes exactly the decimal text of a 64-bit integer, followed by a NUL, at the start of the
  buffer and nothing behind it, and returns the length of the text; when the text and its NUL do not fit, it
  writes nothing and returns 0.
\<close>

theorem ll2string_exact:
  assumes "in_long v"
  shows "ll2string dst v =
    (if length (to_string v) \<ge> length dst then (dst, 0)
     else (to_string v @ NUL # drop (Suc (length (to_string v))) dst, length (to_string v)))"
  using assms by (rule ll2string_correct)

theorem ll2string_exact_witness:
  "ll2string ''xxxxxxxx'' (- 1203) = (''-1203'' @ NUL # ''xx'', 5)"
proof -
  have s: "to_string (- 1203) = ''-1203''" by code_simp
  have "in_long (- 1203)" by (simp add: in_long_def LONG_MIN_def LONG_MAX_def)
  from ll2string_exact [OF this, of "''xxxxxxxx''"] show ?thesis unfolding s by simp
qed

text \<open>
  C36. \<open>string2ll\<close> accepts a text exactly when it is the canonical decimal text of an integer of the 64-bit range,
  and returns that integer: no spaces, no plus sign, no leading zeros, no overflow.  So converting a text to
  an integer and back never changes it.
\<close>

theorem string2ll_canonical: "string2ll s = Some v \<longleftrightarrow> s = to_string v \<and> in_long v"
  by (rule string2ll_exact)

end
