(* ===== verification/SetType.thy ===== *)
theory SetType
  imports Intset Dict Numbers
begin

text \<open>
  The set type of the Kanban server (\<open>kanban/src/t_set.c\<close>): a set of strings held as an \<open>intset\<close> while
  every member is the text of a 64-bit integer and there are few of them, and as a \<open>dict\<close> without values
  from then on.  Witness keys and every other SADD argument go through it.

  \<open>E\<close> is the hash table environment, \<open>maxe\<close> the setting \<open>set-max-intset-entries\<close>, \<open>junk\<close> the content of
  reallocated memory.  \<open>None\<close> is a failed \<open>serverAssert\<close> or an undefined operation; it never is the result
  under the invariant.
\<close>

datatype set_obj = SIntset intset | SHt "(string, unit) dict"

subsection \<open>Integers as text\<close>

text \<open>The digits of \<open>sdsll2str\<close>, least significant first; the negation is undefined for \<open>LLONG_MIN\<close>.\<close>

fun rev_digits :: "nat \<Rightarrow> string" where
  "rev_digits v = char_of (48 + v mod 10) # (if v div 10 = 0 then [] else rev_digits (v div 10))"

declare rev_digits.simps [simp del]

definition sdsll2str :: "int \<Rightarrow> string option" where
  "sdsll2str value =
     (if value = LONG_MIN then None
      else let v = nat (if value < 0 then - value else value);
               s = rev_digits v @ (if value < 0 then ''-'' else [])
           in Some (rev s))"

definition sdsfromlonglong :: "int \<Rightarrow> string option" where
  "sdsfromlonglong value = sdsll2str value"

subsection \<open>Operations\<close>

definition setTypeCreate :: "string \<Rightarrow> set_obj" where
  "setTypeCreate value =
     (if isSdsRepresentableAsLongLong value \<noteq> None then SIntset intsetNew else SHt dictCreate)"

text \<open>The loop of \<open>setTypeConvert\<close>: the iterator is the index \<open>ii\<close>.\<close>

function setTypeConvert_loop ::
  "string dictType \<Rightarrow> intset \<Rightarrow> nat \<Rightarrow> (string, unit) dict \<Rightarrow> (string, unit) dict option" where
  "setTypeConvert_loop E is ii d =
     (case intsetGet is ii of
        None \<Rightarrow> Some d
      | Some intele \<Rightarrow>
          (case sdsfromlonglong intele of
             None \<Rightarrow> None
           | Some element \<Rightarrow>
               (case dictAdd E d element () of
                  Some (d, True) \<Rightarrow> setTypeConvert_loop E is (ii + 1) d
                | _ \<Rightarrow> None)))"
  by pat_completeness auto
termination
  by (relation "measure (\<lambda>(E, is, ii, d). is_length is - ii)")
    (auto simp: intsetGet_def split: if_splits)

declare setTypeConvert_loop.simps [simp del]

definition setTypeConvert :: "string dictType \<Rightarrow> intset \<Rightarrow> set_obj option" where
  "setTypeConvert E is =
     map_option SHt (setTypeConvert_loop E is 0 (fst (dictExpand dictCreate (intsetLen is))))"

definition setTypeAdd ::
  "string dictType \<Rightarrow> nat \<Rightarrow> byte \<Rightarrow> set_obj \<Rightarrow> string \<Rightarrow> (set_obj \<times> bool) option" where
  "setTypeAdd E maxe junk subject value =
     (case subject of
        SHt ht \<Rightarrow> map_option (\<lambda>(ht, added). (SHt ht, added)) (dictAdd E ht value ())
      | SIntset is \<Rightarrow>
          (case isSdsRepresentableAsLongLong value of
             Some llval \<Rightarrow>
               (case intsetAdd junk is llval of (is, success) \<Rightarrow>
                  if success then
                    let max_entries = (if maxe \<ge> 2 ^ 30 then 2 ^ 30 else maxe) in
                    if intsetLen is > max_entries then map_option (\<lambda>s. (s, True)) (setTypeConvert E is)
                    else Some (SIntset is, True)
                  else Some (SIntset is, False))
           | None \<Rightarrow>
               (case setTypeConvert E is of
                  Some (SHt ht) \<Rightarrow>
                    (case dictAdd E ht value () of Some (ht, True) \<Rightarrow> Some (SHt ht, True) | _ \<Rightarrow> None)
                | _ \<Rightarrow> None)))"

definition htNeedsResize :: "('k, 'v) dict \<Rightarrow> bool" where
  "htNeedsResize d \<longleftrightarrow>
     (let sz = ht_size (ht0 d) + ht_size (ht1 d); used = dictSize d
      in sz > DICT_HT_INITIAL_SIZE \<and> used * 100 div sz < 10)"

definition setTypeRemove ::
  "string dictType \<Rightarrow> byte \<Rightarrow> set_obj \<Rightarrow> string \<Rightarrow> (set_obj \<times> bool) option" where
  "setTypeRemove E junk setobj value =
     (case setobj of
        SHt ht \<Rightarrow>
          (case dictDelete E ht value of
             None \<Rightarrow> None
           | Some (ht, True) \<Rightarrow> Some (SHt (if htNeedsResize ht then fst (dictResize E ht) else ht), True)
           | Some (ht, False) \<Rightarrow> Some (SHt ht, False))
      | SIntset is \<Rightarrow>
          (case isSdsRepresentableAsLongLong value of
             Some llval \<Rightarrow> (case intsetRemove junk is llval of (is, success) \<Rightarrow> Some (SIntset is, success))
           | None \<Rightarrow> Some (SIntset is, False)))"

text \<open>A lookup in a dictionary may move a chain, so the object is returned too.\<close>

definition setTypeIsMember :: "string dictType \<Rightarrow> set_obj \<Rightarrow> string \<Rightarrow> (set_obj \<times> bool) option" where
  "setTypeIsMember E subject value =
     (case subject of
        SHt ht \<Rightarrow> map_option (\<lambda>(ht, r). (SHt ht, r \<noteq> None)) (dictFind E ht value)
      | SIntset is \<Rightarrow>
          (case isSdsRepresentableAsLongLong value of
             Some llval \<Rightarrow> Some (SIntset is, intsetFind is llval)
           | None \<Rightarrow> Some (SIntset is, False)))"

definition setTypeSize :: "set_obj \<Rightarrow> nat" where
  "setTypeSize subject = (case subject of SHt ht \<Rightarrow> dictSize ht | SIntset is \<Rightarrow> intsetLen is)"

text \<open>The reply text of an integer; of the buffer only the part that was written is read.\<close>

definition addReplyBulkLongLong :: "int \<Rightarrow> string" where
  "addReplyBulkLongLong ll = (case ll2string (replicate 64 NUL) ll of (buf, len) \<Rightarrow> take len buf)"

text \<open>The replies for a full iteration with \<open>setTypeNext\<close>.\<close>

function reply_ints :: "intset \<Rightarrow> nat \<Rightarrow> string list" where
  "reply_ints is ii =
     (case intsetGet is ii of
        None \<Rightarrow> []
      | Some intobj \<Rightarrow> addReplyBulkLongLong intobj # reply_ints is (ii + 1))"
  by pat_completeness auto
termination
  by (relation "measure (\<lambda>(is, ii). is_length is - ii)") (auto simp: intsetGet_def split: if_splits)

declare reply_ints.simps [simp del]

definition reply_members :: "set_obj \<Rightarrow> string list" where
  "reply_members subject =
     (case subject of
        SHt ht \<Rightarrow> map fst (fst (dict_collect (Suc (dictSize ht)) ht dictGetIterator))
      | SIntset is \<Rightarrow> reply_ints is 0)"

subsection \<open>Commands on one key\<close>

text \<open>
  The object of the key after the type check (\<open>None\<close>: no such key), the arguments, and the object and the integer reply
  afterwards.
\<close>

fun sadd_loop ::
  "string dictType \<Rightarrow> nat \<Rightarrow> byte \<Rightarrow> set_obj \<Rightarrow> string list \<Rightarrow> nat \<Rightarrow> (set_obj \<times> nat) option" where
  "sadd_loop E maxe junk s [] added = Some (s, added)"
| "sadd_loop E maxe junk s (v # vs) added =
     (case setTypeAdd E maxe junk s v of
        None \<Rightarrow> None
      | Some (s, b) \<Rightarrow> sadd_loop E maxe junk s vs (if b then added + 1 else added))"

definition saddCommand ::
  "string dictType \<Rightarrow> nat \<Rightarrow> byte \<Rightarrow> set_obj option \<Rightarrow> string \<Rightarrow> string list \<Rightarrow> (set_obj \<times> nat) option" where
  "saddCommand E maxe junk obj v vs =
     sadd_loop E maxe junk (case obj of None \<Rightarrow> setTypeCreate v | Some s \<Rightarrow> s) (v # vs) 0"

fun srem_loop ::
  "string dictType \<Rightarrow> byte \<Rightarrow> set_obj \<Rightarrow> string list \<Rightarrow> nat \<Rightarrow> (set_obj option \<times> nat) option" where
  "srem_loop E junk s [] deleted = Some (Some s, deleted)"
| "srem_loop E junk s (v # vs) deleted =
     (case setTypeRemove E junk s v of
        None \<Rightarrow> None
      | Some (s, True) \<Rightarrow>
          if setTypeSize s = 0 then Some (None, deleted + 1) else srem_loop E junk s vs (deleted + 1)
      | Some (s, False) \<Rightarrow> srem_loop E junk s vs deleted)"

definition sremCommand ::
  "string dictType \<Rightarrow> byte \<Rightarrow> set_obj option \<Rightarrow> string list \<Rightarrow> (set_obj option \<times> nat) option" where
  "sremCommand E junk obj vs = (case obj of None \<Rightarrow> Some (None, 0) | Some s \<Rightarrow> srem_loop E junk s vs 0)"

definition sismemberCommand ::
  "string dictType \<Rightarrow> set_obj option \<Rightarrow> string \<Rightarrow> (set_obj option \<times> nat) option" where
  "sismemberCommand E obj v =
     (case obj of None \<Rightarrow> Some (None, 0)
      | Some s \<Rightarrow> map_option (\<lambda>(s, b). (Some s, if b then 1 else 0)) (setTypeIsMember E s v))"

definition scardCommand :: "set_obj option \<Rightarrow> nat" where
  "scardCommand obj = (case obj of None \<Rightarrow> 0 | Some s \<Rightarrow> setTypeSize s)"

text \<open>SMEMBERS is \<open>sinterGenericCommand\<close> for one set and no destination.\<close>

definition smembersCommand :: "set_obj option \<Rightarrow> string list" where
  "smembersCommand obj = (case obj of None \<Rightarrow> [] | Some s \<Rightarrow> reply_members s)"

subsection \<open>Runs of commands on one key\<close>

datatype set_cmd = SAdd string "string list" | SRem "string list" | SIsMember string | SCard | SMembers
datatype set_reply = RCount nat | RMembers "string list"

fun set_exec ::
  "string dictType \<Rightarrow> nat \<Rightarrow> byte \<Rightarrow> set_cmd \<Rightarrow> set_obj option \<Rightarrow> (set_obj option \<times> set_reply) option" where
  "set_exec E maxe junk (SAdd v vs) obj = map_option (\<lambda>(s, n). (Some s, RCount n)) (saddCommand E maxe junk obj v vs)"
| "set_exec E maxe junk (SRem vs) obj = map_option (\<lambda>(s, n). (s, RCount n)) (sremCommand E junk obj vs)"
| "set_exec E maxe junk (SIsMember v) obj = map_option (\<lambda>(s, n). (s, RCount n)) (sismemberCommand E obj v)"
| "set_exec E maxe junk SCard obj = Some (obj, RCount (scardCommand obj))"
| "set_exec E maxe junk SMembers obj = Some (obj, RMembers (smembersCommand obj))"

fun set_run ::
  "string dictType \<Rightarrow> nat \<Rightarrow> byte \<Rightarrow> set_cmd list \<Rightarrow> set_obj option \<Rightarrow> (set_obj option \<times> set_reply list) option" where
  "set_run E maxe junk [] obj = Some (obj, [])"
| "set_run E maxe junk (c # cs) obj =
     (case set_exec E maxe junk c obj of
        None \<Rightarrow> None
      | Some (obj, r) \<Rightarrow> map_option (\<lambda>(obj, rs). (obj, r # rs)) (set_run E maxe junk cs obj))"

text \<open>What the commands mean on a mathematical set.\<close>

fun spec_exec :: "set_cmd \<Rightarrow> string set \<Rightarrow> string set" where
  "spec_exec (SAdd v vs) S = insert v (S \<union> set vs)"
| "spec_exec (SRem vs) S = S - set vs"
| "spec_exec _ S = S"

fun spec_reply :: "set_cmd \<Rightarrow> string set \<Rightarrow> set_reply \<Rightarrow> bool" where
  "spec_reply (SAdd v vs) S r \<longleftrightarrow> r = RCount (card (insert v (set vs) - S))"
| "spec_reply (SRem vs) S r \<longleftrightarrow> r = RCount (card (S \<inter> set vs))"
| "spec_reply (SIsMember v) S r \<longleftrightarrow> r = RCount (if v \<in> S then 1 else 0)"
| "spec_reply SCard S r \<longleftrightarrow> r = RCount (card S)"
| "spec_reply SMembers S r \<longleftrightarrow> (\<exists>xs. r = RMembers xs \<and> distinct xs \<and> set xs = S)"

fun spec_run :: "set_cmd list \<Rightarrow> string set \<Rightarrow> set_reply list \<Rightarrow> string set option" where
  "spec_run [] S [] = Some S"
| "spec_run (c # cs) S (r # rs) = (if spec_reply c S r then spec_run cs (spec_exec c S) rs else None)"
| "spec_run _ _ _ = None"

fun cmd_args :: "set_cmd \<Rightarrow> string list" where
  "cmd_args (SAdd v vs) = v # vs"
| "cmd_args _ = []"

subsection \<open>Invariant and abstraction\<close>

fun set_abs :: "set_obj \<Rightarrow> string set" where
  "set_abs (SIntset is) = to_string ` set (elems is)"
| "set_abs (SHt d) = dom (dict_abs d)"

fun set_inv :: "string dictType \<Rightarrow> nat \<Rightarrow> set_obj \<Rightarrow> bool" where
  "set_inv E maxe (SIntset is) \<longleftrightarrow> intset_inv is \<and> is_length is \<le> maxe \<and> LONG_MIN \<notin> set (elems is)"
| "set_inv E maxe (SHt d) \<longleftrightarrow> dict_inv E d"


subsection \<open>Lemmas\<close>

lemma digit_char_of: "d < 10 \<Longrightarrow> char_of (48 + d) = digit_char d"
  by (auto simp: digit_char_def)

lemma rev_rev_digits: "rev (rev_digits v) = nat_to_string v"
proof (induction v rule: rev_digits.induct)
  case (1 v)
  show ?case
  proof (cases "v < 10")
    case True
    then show ?thesis by (subst rev_digits.simps, subst nat_to_string.simps) (simp add: digit_char_of)
  next
    case False
    then have "v div 10 \<noteq> 0" by simp
    with 1 False show ?thesis by (subst rev_digits.simps, subst nat_to_string.simps) (simp add: digit_char_of)
  qed
qed

lemma sdsfromlonglong_eq: "v \<noteq> LONG_MIN \<Longrightarrow> sdsfromlonglong v = Some (to_string v)"
  by (simp add: sdsfromlonglong_def sdsll2str_def to_string_def rev_rev_digits Let_def)

lemma representable: "isSdsRepresentableAsLongLong s = Some v \<longleftrightarrow> s = to_string v \<and> in_long v"
  by (simp add: isSdsRepresentableAsLongLong_def string2ll_exact)

lemma in_long_64: "in_long v \<longleftrightarrow> in_64 v"
  by (auto simp: in_long_def in_64_def LONG_MIN_def LONG_MAX_def)

lemma elems_in_64: "intset_inv is \<Longrightarrow> x \<in> set (elems is) \<Longrightarrow> in_64 x"
  by (auto simp: intset_inv_def rep_def fits_def in_64_def)

lemma length_elems: "length (elems is) = is_length is"
  by (simp add: elems_def)

lemma card_elems: "intset_inv is \<Longrightarrow> card (to_string ` set (elems is)) = is_length is"
proof -
  assume "intset_inv is"
  then have "distinct (elems is)" by (simp add: intset_inv_def strict_sorted_iff)
  moreover have "inj_on to_string (set (elems is))" by (simp add: inj_on_def to_string_inj)
  ultimately show ?thesis by (simp add: card_image distinct_card length_elems)
qed

lemma not_representable:
  "intset_inv is \<Longrightarrow> isSdsRepresentableAsLongLong s = None \<Longrightarrow> s \<notin> to_string ` set (elems is)"
  using elems_in_64 [of "is"] representable [of s] in_long_64 by auto

lemma setTypeConvert_loop_ok:
  assumes "intset_inv is" "LONG_MIN \<notin> set (elems is)" "is_length is < 2 ^ 60"
    and "dict_inv E d" "dom (dict_abs d) = to_string ` set (take ii (elems is))" "ii \<le> is_length is"
  shows "\<exists>d'. setTypeConvert_loop E is ii d = Some d' \<and> dict_inv E d' \<and>
    dom (dict_abs d') = to_string ` set (elems is)"
  using assms(4-6)
proof (induction "is_length is - ii" arbitrary: ii d)
  case 0
  then show ?case
    by (subst setTypeConvert_loop.simps) (simp add: intsetGet_def length_elems)
next
  case (Suc n)
  then have ii: "ii < is_length is" by simp
  let ?x = "elems is ! ii"
  have dist: "distinct (elems is)" using assms(1) by (simp add: intset_inv_def strict_sorted_iff)
  have x: "?x \<in> set (elems is)" using ii by (simp add: length_elems)
  have get: "intsetGet is ii = Some ?x" using ii by (simp add: intsetGet_def elems_def)
  have str: "sdsfromlonglong ?x = Some (to_string ?x)" using x assms(2) sdsfromlonglong_eq by metis
  have tk: "take (Suc ii) (elems is) = take ii (elems is) @ [?x]" using ii by (simp add: take_Suc_conv_app_nth length_elems)
  have "distinct (take (Suc ii) (elems is))" using dist by simp
  with tk have "?x \<notin> set (take ii (elems is))" by simp
  then have "to_string ?x \<notin> dom (dict_abs d)" unfolding Suc.prems(2) by (auto simp: to_string_inj)
  then have new: "dict_abs d (to_string ?x) = None" by (metis domIff)
  have "dictSize d \<le> length (take ii (elems is))"
    using card_dict_abs [OF Suc.prems(1)] Suc.prems(2) card_image_le [of "set (take ii (elems is))" to_string]
      card_length [of "take ii (elems is)"] by simp
  then have "dictSize d < 2 ^ 60" using ii assms(3) by (simp add: length_elems)
  then obtain d' where d': "dictAdd E d (to_string ?x) () = Some (d', True)" "dict_inv E d'"
      "dict_abs d' = (dict_abs d)(to_string ?x \<mapsto> ())"
    using dictAdd_ok [OF Suc.prems(1), of "to_string ?x" "()"] new by auto
  have "dom (dict_abs d') = to_string ` set (take (Suc ii) (elems is))"
    using d'(3) Suc.prems(2) tk by auto
  from Suc.hyps(1) [OF _ d'(2) this] Suc.hyps(2) ii show ?case
    by (subst setTypeConvert_loop.simps) (simp add: get str d'(1))
qed

lemma setTypeConvert_ok:
  assumes "intset_inv is" "LONG_MIN \<notin> set (elems is)" "is_length is < 2 ^ 60"
  shows "\<exists>d. setTypeConvert E is = Some (SHt d) \<and> dict_inv E d \<and> dom (dict_abs d) = to_string ` set (elems is)"
proof -
  let ?d = "fst (dictExpand dictCreate (intsetLen is)) :: (string, unit) dict"
  have "rehash_ok E dictCreate ?d" unfolding dictExpand_def by (intro dictExpand_raw_ok(1) dict_inv_Create(1))
  from rehash_ok_abs(1,2) [OF this dict_inv_Create(1)] have "dict_inv E ?d" "dict_abs ?d = Map.empty"
    by (simp_all add: dict_inv_Create(2))
  with setTypeConvert_loop_ok [OF assms, of E ?d 0] show ?thesis
    by (auto simp: setTypeConvert_def)
qed

lemma setTypeAdd_ht:
  assumes "dict_inv E d" "dictSize d < 2 ^ 60"
  shows "\<exists>d'. dictAdd E d v () = Some (d', v \<notin> dom (dict_abs d)) \<and> dict_inv E d' \<and>
    dom (dict_abs d') = insert v (dom (dict_abs d))"
proof -
  from dictAdd_ok [OF assms, of v "()"] obtain d' where
    d': "dictAdd E d v () = Some (d', dict_abs d v = None)" "dict_inv E d'"
    "dict_abs d' = (if dict_abs d v = None then (dict_abs d)(v \<mapsto> ()) else dict_abs d)" by blast
  have "dom (dict_abs d') = insert v (dom (dict_abs d))"
    using d'(3) by (cases "dict_abs d v") (simp_all, blast)
  moreover have "dictAdd E d v () = Some (d', v \<notin> dom (dict_abs d))" using d'(1) by (simp only: domIff not_not)
  ultimately show ?thesis using d'(2) by blast
qed

lemma setTypeAdd_text:
  assumes "intset_inv z" "is_length z < 2 ^ 29" "LONG_MIN \<notin> set (elems z)"
    and "isSdsRepresentableAsLongLong v = None"
  shows "\<exists>d. setTypeAdd E maxe junk (SIntset z) v = Some (SHt d, True) \<and> dict_inv E d \<and>
    dom (dict_abs d) = insert v (to_string ` set (elems z)) \<and> v \<notin> to_string ` set (elems z)"
proof -
  have "is_length z < 2 ^ 60" using assms(2) by simp
  from setTypeConvert_ok [OF assms(1,3) this] obtain d where d: "setTypeConvert E z = Some (SHt d)" "dict_inv E d"
    "dom (dict_abs d) = to_string ` set (elems z)" by blast
  have v: "v \<notin> to_string ` set (elems z)" by (rule not_representable [OF assms(1,4)])
  have "dictSize d < 2 ^ 60" using card_dict_abs [OF d(2)] d(3) card_elems [OF assms(1)] assms(2) by simp
  from setTypeAdd_ht [OF d(2) this, of v] v d(3) obtain d' where
    "dictAdd E d v () = Some (d', True)" "dict_inv E d'" "dom (dict_abs d') = insert v (to_string ` set (elems z))"
    by auto
  with d(1) v assms(4) show ?thesis by (simp add: setTypeAdd_def)
qed

lemma intset_small:
  assumes "intset_inv z" "is_length z < 2 ^ 29"
  shows "small z"
proof -
  have "is_encoding z \<le> 8" using assms(1) by (auto simp: intset_inv_def rep_def)
  moreover have "is_length z \<le> 2 ^ 29 - 1" using assms(2) by simp
  ultimately have "is_length z * is_encoding z \<le> (2 ^ 29 - 1) * 8" by (intro mult_le_mono)
  then show ?thesis by (simp add: small_def)
qed

lemma setTypeAdd_int:
  assumes "intset_inv z" "is_length z \<le> maxe" "maxe < 2 ^ 29" "LONG_MIN \<notin> set (elems z)"
    and "in_64 l" "l \<noteq> LONG_MIN"
  shows "\<exists>s'. setTypeAdd E maxe junk (SIntset z) (to_string l) = Some (s', to_string l \<notin> to_string ` set (elems z)) \<and>
    set_inv E maxe s' \<and> set_abs s' = insert (to_string l) (to_string ` set (elems z))"
proof -
  have "is_length z < 2 ^ 29" using assms(2,3) by simp
  note a = elems_intsetAdd [OF assms(1) intset_small [OF assms(1) this] assms(5), of junk]
  obtain z' b where a': "intsetAdd junk z l = (z', b)" by force
  have r: "isSdsRepresentableAsLongLong (to_string l) = Some l" using assms(5) by (simp add: representable in_long_64)
  have b: "b \<longleftrightarrow> to_string l \<notin> to_string ` set (elems z)" using a a' by (auto simp: to_string_inj)
  have len: "is_length z' = (if b then Suc (is_length z) else is_length z)"
    using a a' length_elems [of z'] length_elems [of z] by (auto split: if_splits)
  have e: "set (elems z') = insert l (set (elems z))" "intset_inv z'"
    using a a' by (auto simp: set_insort_key split: if_splits)
  have lm: "LONG_MIN \<notin> set (elems z')" using e(1) assms(4,6) by auto
  have m: "\<not> maxe \<ge> 2 ^ 30" using assms(3) by simp
  show ?thesis
  proof (cases "b \<and> is_length z' > maxe")
    case True
    then have "is_length z' < 2 ^ 60" using len assms(2,3) by simp
    from setTypeConvert_ok [OF e(2) lm this] obtain d where
      "setTypeConvert E z' = Some (SHt d)" "dict_inv E d" "dom (dict_abs d) = to_string ` set (elems z')" by blast
    with True a' b e(1) m r show ?thesis by (simp add: setTypeAdd_def intsetLen_def Let_def)
  next
    case False
    with len assms(2) have "is_length z' \<le> maxe" by (cases b) auto
    with False a' b e lm m r show ?thesis by (auto simp: setTypeAdd_def intsetLen_def Let_def)
  qed
qed

lemma setTypeAdd_ok:
  assumes "set_inv E maxe s" "card (set_abs s) < 2 ^ 60" "maxe < 2 ^ 29" "v \<noteq> to_string LONG_MIN"
  shows "\<exists>s'. setTypeAdd E maxe junk s v = Some (s', v \<notin> set_abs s) \<and> set_inv E maxe s' \<and>
    set_abs s' = insert v (set_abs s)"
proof (cases s)
  case (SHt d)
  with assms(1,2) have "dict_inv E d" "dictSize d < 2 ^ 60" by (simp_all add: card_dict_abs)
  from setTypeAdd_ht [OF this, of v] SHt show ?thesis by (auto simp: setTypeAdd_def)
next
  case (SIntset z)
  with assms(1) have z: "intset_inv z" "is_length z \<le> maxe" "LONG_MIN \<notin> set (elems z)" by auto
  show ?thesis
  proof (cases "isSdsRepresentableAsLongLong v")
    case None
    have "is_length z < 2 ^ 29" using z(2) assms(3) by simp
    from setTypeAdd_text [OF z(1) this z(3) None, of E maxe junk] SIntset show ?thesis by auto
  next
    case (Some l)
    then have l: "v = to_string l" "in_64 l" by (auto simp: representable in_long_64)
    with assms(4) have "l \<noteq> LONG_MIN" by auto
    from setTypeAdd_int [OF z(1,2) assms(3) z(3) l(2) this] SIntset l(1) show ?thesis by simp
  qed
qed

lemma dict_delete_resize_ok:
  assumes "dict_inv E d"
  shows "\<exists>d'. setTypeRemove E junk (SHt d) v = Some (SHt d', v \<in> dom (dict_abs d)) \<and> dict_inv E d' \<and>
    dom (dict_abs d') = dom (dict_abs d) - {v}"
proof -
  from dictGenericDelete_ok [OF assms, of v] obtain d' where d': "dictGenericDelete E d v = Some (d', dict_abs d v)"
    "dict_inv E d'" "dict_abs d' = (dict_abs d)(v := None)" by blast
  have "dict_inv E (fst (dictResize E d'))" "dict_abs (fst (dictResize E d')) = dict_abs d'"
    using rehash_ok_abs(1,2) [OF dictResize_ok [OF d'(2)] d'(2)] .
  with d' show ?thesis by (cases "dict_abs d v") (auto simp: setTypeRemove_def dictDelete_def domIff)
qed

lemma setTypeRemove_int:
  assumes "intset_inv z" "is_length z < 2 ^ 29" "in_64 l"
  shows "\<exists>z'. setTypeRemove E junk (SIntset z) (to_string l) = Some (SIntset z', l \<in> set (elems z)) \<and> intset_inv z' \<and>
    set (elems z') = set (elems z) - {l} \<and> is_length z' \<le> is_length z"
proof -
  note a = elems_intsetRemove [OF assms(1) intset_small [OF assms(1,2)] assms(3), of junk]
  obtain z' b where a': "intsetRemove junk z l = (z', b)" by force
  have r: "isSdsRepresentableAsLongLong (to_string l) = Some l" using assms(3) by (simp add: representable in_long_64)
  have "distinct (elems z)" using assms(1) by (simp add: intset_inv_def strict_sorted_iff)
  then have "set (elems z') = set (elems z) - {l}" using a a' by (simp add: set_remove1_eq)
  moreover have "length (elems z') \<le> length (elems z)" using a a' by (simp add: length_remove1)
  ultimately show ?thesis using a a' r by (simp add: setTypeRemove_def length_elems)
qed

lemma setTypeRemove_ok:
  assumes "set_inv E maxe s" "maxe < 2 ^ 29"
  shows "\<exists>s'. setTypeRemove E junk s v = Some (s', v \<in> set_abs s) \<and> set_inv E maxe s' \<and>
    set_abs s' = set_abs s - {v}"
proof (cases s)
  case (SHt d)
  with assms(1) have "dict_inv E d" by simp
  from dict_delete_resize_ok [OF this, of junk v] obtain d' where
    "setTypeRemove E junk (SHt d) v = Some (SHt d', v \<in> dom (dict_abs d))" "dict_inv E d'"
    "dom (dict_abs d') = dom (dict_abs d) - {v}" by blast
  with SHt show ?thesis by (intro exI [of _ "SHt d'"]) simp
next
  case (SIntset z)
  with assms have z: "intset_inv z" "is_length z \<le> maxe" "LONG_MIN \<notin> set (elems z)" "is_length z < 2 ^ 29" by auto
  show ?thesis
  proof (cases "isSdsRepresentableAsLongLong v")
    case None
    with not_representable [OF z(1) None] SIntset assms(1) show ?thesis by (simp add: setTypeRemove_def)
  next
    case (Some l)
    then have l: "v = to_string l" "in_64 l" by (auto simp: representable in_long_64)
    from setTypeRemove_int [OF z(1,4) l(2)] obtain z' where
      "setTypeRemove E junk (SIntset z) (to_string l) = Some (SIntset z', l \<in> set (elems z))" "intset_inv z'"
      "set (elems z') = set (elems z) - {l}" "is_length z' \<le> is_length z" by blast
    moreover have "to_string l \<in> to_string ` A \<longleftrightarrow> l \<in> A" "to_string ` (A - {l}) = to_string ` A - {to_string l}" for A
      by (auto simp: to_string_inj)
    ultimately show ?thesis using SIntset l(1) z(2,3) by (intro exI [of _ "SIntset z'"]) simp
  qed
qed

lemma setTypeIsMember_ok:
  assumes "set_inv E maxe s"
  shows "\<exists>s'. setTypeIsMember E s v = Some (s', v \<in> set_abs s) \<and> set_inv E maxe s' \<and> set_abs s' = set_abs s"
proof (cases s)
  case (SHt d)
  with assms have d: "dict_inv E d" by simp
  from dictFind_ok [OF d, of v] obtain d' where d': "dictFind E d v = Some (d', dict_abs d v)" "rehash_ok E d d'" by blast
  from rehash_ok_abs(1,2) [OF d'(2) d] d'(1) SHt show ?thesis
    by (simp add: setTypeIsMember_def domIff)
next
  case (SIntset z)
  with assms have z: "intset_inv z" by simp
  show ?thesis
  proof (cases "isSdsRepresentableAsLongLong v")
    case None
    with not_representable [OF z None] SIntset assms show ?thesis by (auto simp: setTypeIsMember_def)
  next
    case (Some l)
    then have l: "v = to_string l" "in_64 l" by (auto simp: representable in_long_64)
    with SIntset Some intsetFind_correct [OF z l(2)] assms show ?thesis
      by (auto simp: setTypeIsMember_def to_string_inj)
  qed
qed

lemma setTypeSize_ok: "set_inv E maxe s \<Longrightarrow> setTypeSize s = card (set_abs s) \<and> finite (set_abs s)"
proof (cases s)
  case (SHt d)
  assume "set_inv E maxe s"
  with SHt show ?thesis by (simp add: setTypeSize_def card_dict_abs) (simp add: dict_abs_def finite_dom_map_of)
next
  case (SIntset z)
  assume "set_inv E maxe s"
  with SIntset show ?thesis by (simp add: setTypeSize_def intsetLen_def card_elems)
qed

lemma addReplyBulkLongLong_eq: "in_64 v \<Longrightarrow> addReplyBulkLongLong v = to_string v"
  using ll2string_correct [of v "replicate 64 NUL"] to_string_short [of v]
  by (simp add: addReplyBulkLongLong_def in_long_64)

lemma reply_ints_eq:
  assumes "intset_inv z"
  shows "reply_ints z ii = map to_string (drop ii (elems z))"
proof (induction "is_length z - ii" arbitrary: ii)
  case 0
  then show ?case by (subst reply_ints.simps) (simp add: intsetGet_def length_elems)
next
  case (Suc n)
  then have ii: "ii < is_length z" by simp
  then have "intsetGet z ii = Some (elems z ! ii)" by (simp add: intsetGet_def elems_def)
  moreover have "elems z ! ii \<in> set (elems z)" using ii by (simp add: length_elems)
  then have "addReplyBulkLongLong (elems z ! ii) = to_string (elems z ! ii)"
    using elems_in_64 [OF assms] addReplyBulkLongLong_eq by blast
  moreover have "drop ii (elems z) = elems z ! ii # drop (Suc ii) (elems z)"
    using ii by (simp add: Cons_nth_drop_Suc length_elems)
  ultimately show ?case using Suc(1) [of "Suc ii"] Suc(2) by (subst reply_ints.simps) simp
qed

lemma reply_members_ok:
  assumes "set_inv E maxe s"
  shows "distinct (reply_members s) \<and> set (reply_members s) = set_abs s"
proof (cases s)
  case (SHt d)
  with assms have d: "dict_inv E d" by simp
  have "fst (dict_collect (Suc (dictSize d)) d dictGetIterator) = dict_entries d"
    using dict_collect_entries [OF d, of "Suc (dictSize d)" dictGetIterator] by auto
  with SHt dict_invD(3) [OF d] show ?thesis
    by (simp add: reply_members_def dict_abs_def dom_map_of_conv_image_fst)
next
  case (SIntset z)
  with assms have z: "intset_inv z" by auto
  then have "distinct (elems z)" by (simp add: intset_inv_def strict_sorted_iff)
  with SIntset reply_ints_eq [OF z, of 0] show ?thesis
    by (simp add: reply_members_def distinct_map inj_on_def to_string_inj)
qed

subsection \<open>Commands\<close>

definition key_abs :: "set_obj option \<Rightarrow> string set" where
  "key_abs obj = (case obj of None \<Rightarrow> {} | Some s \<Rightarrow> set_abs s)"

text \<open>A key is deleted with its last member.\<close>

definition key_inv :: "string dictType \<Rightarrow> nat \<Rightarrow> set_obj option \<Rightarrow> bool" where
  "key_inv E maxe obj \<longleftrightarrow> (case obj of None \<Rightarrow> True | Some s \<Rightarrow> set_inv E maxe s \<and> set_abs s \<noteq> {})"

lemma key_simps [simp]:
  "key_abs None = {}" "key_abs (Some s) = set_abs s" "key_inv E maxe None"
  "key_inv E maxe (Some s) \<longleftrightarrow> set_inv E maxe s \<and> set_abs s \<noteq> {}"
  by (simp_all add: key_abs_def key_inv_def)

lemma sadd_loop_ok:
  assumes "set_inv E maxe s" "card (set_abs s) + length vs \<le> 2 ^ 60" "maxe < 2 ^ 29" "to_string LONG_MIN \<notin> set vs"
  shows "\<exists>s'. sadd_loop E maxe junk s vs n = Some (s', n + card (set vs - set_abs s)) \<and> set_inv E maxe s' \<and>
    set_abs s' = set_abs s \<union> set vs"
  using assms
proof (induction vs arbitrary: s n)
  case (Cons v vs)
  have fin: "finite (set_abs s)" using setTypeSize_ok [OF Cons.prems(1)] by simp
  have "card (set_abs s) < 2 ^ 60" "v \<noteq> to_string LONG_MIN" using Cons.prems(2,4) by auto
  from setTypeAdd_ok [OF Cons.prems(1) this(1) Cons.prems(3) this(2)] obtain s' where
    s': "setTypeAdd E maxe junk s v = Some (s', v \<notin> set_abs s)" "set_inv E maxe s'" "set_abs s' = insert v (set_abs s)"
    by blast
  have "card (set_abs s') \<le> Suc (card (set_abs s))" unfolding s'(3) by (rule card_insert_le_m1) simp_all
  with Cons.prems(2) have le: "card (set_abs s') + length vs \<le> 2 ^ 60" by simp
  have lm: "to_string LONG_MIN \<notin> set vs" using Cons.prems(4) by simp
  have "set (v # vs) - set_abs s = (if v \<in> set_abs s then set vs - set_abs s' else insert v (set vs - set_abs s'))"
    "v \<notin> set vs - set_abs s'" using s'(3) by auto
  then have "card (set (v # vs) - set_abs s) = (if v \<notin> set_abs s then 1 else 0) + card (set vs - set_abs s')" by simp
  with Cons.IH [OF s'(2) le Cons.prems(3) lm, of "if v \<notin> set_abs s then n + 1 else n"] s' show ?case
    by (auto simp: Un_insert_left)
qed simp

lemma setTypeCreate_ok: "set_inv E maxe (setTypeCreate v) \<and> set_abs (setTypeCreate v) = {}"
proof (cases "isSdsRepresentableAsLongLong v")
  case None
  then show ?thesis by (simp add: setTypeCreate_def dict_inv_Create)
next
  case (Some l)
  with intsetNew_ok show ?thesis by (simp add: setTypeCreate_def intsetNew_def)
qed

lemma srem_loop_ok:
  assumes "set_inv E maxe s" "set_abs s \<noteq> {}" "maxe < 2 ^ 29"
  shows "\<exists>obj. srem_loop E junk s vs n = Some (obj, n + card (set_abs s \<inter> set vs)) \<and> key_inv E maxe obj \<and>
    key_abs obj = set_abs s - set vs"
  using assms
proof (induction vs arbitrary: s n)
  case (Cons v vs)
  have fin: "finite (set_abs s)" using setTypeSize_ok [OF Cons.prems(1)] by simp
  from setTypeRemove_ok [OF Cons.prems(1,3), of junk v] obtain s' where
    s': "setTypeRemove E junk s v = Some (s', v \<in> set_abs s)" "set_inv E maxe s'" "set_abs s' = set_abs s - {v}" by blast
  have sz: "setTypeSize s' = 0 \<longleftrightarrow> set_abs s' = {}" using setTypeSize_ok [OF s'(2)] by simp
  have c: "card (set_abs s \<inter> set (v # vs)) = (if v \<in> set_abs s then 1 else 0) + card (set_abs s' \<inter> set vs)"
  proof (cases "v \<in> set_abs s")
    case True
    then have "set_abs s \<inter> set (v # vs) = insert v (set_abs s' \<inter> set vs)" "v \<notin> set_abs s' \<inter> set vs"
      using s'(3) by auto
    with True show ?thesis by simp
  next
    case False
    then have "set_abs s \<inter> set (v # vs) = set_abs s' \<inter> set vs" using s'(3) by auto
    with False show ?thesis by simp
  qed
  have d: "set_abs s - set (v # vs) = set_abs s' - set vs" using s'(3) by auto
  show ?case
  proof (cases "v \<in> set_abs s \<and> set_abs s' = {}")
    case True
    then show ?thesis using s'(1) sz c d by auto
  next
    case False
    then have ne: "set_abs s' \<noteq> {}" using s'(3) Cons.prems(2) by auto
    from Cons.IH [OF s'(2) ne Cons.prems(3), of "if v \<in> set_abs s then n + 1 else n"] s'(1) sz ne c d show ?thesis
      by (auto split: if_splits)
  qed
qed (use assms in simp)

lemma set_exec_ok:
  assumes "key_inv E maxe obj" "card (key_abs obj) + length (cmd_args c) \<le> 2 ^ 60" "maxe < 2 ^ 29"
    and "to_string LONG_MIN \<notin> set (cmd_args c)"
  shows "\<exists>obj' r. set_exec E maxe junk c obj = Some (obj', r) \<and> key_inv E maxe obj' \<and>
    key_abs obj' = spec_exec c (key_abs obj) \<and> spec_reply c (key_abs obj) r"
proof (cases c)
  case (SAdd v vs)
  define s where "s = (case obj of None \<Rightarrow> setTypeCreate v | Some s \<Rightarrow> s)"
  have s: "set_inv E maxe s" "set_abs s = key_abs obj"
    using assms(1) setTypeCreate_ok by (auto simp: s_def split: option.splits)
  from sadd_loop_ok [OF s(1), of "v # vs" junk 0] s(2) assms(2-4) SAdd show ?thesis
    by (auto simp: saddCommand_def s_def [symmetric] simp del: sadd_loop.simps)
next
  case (SRem vs)
  then show ?thesis using srem_loop_ok [of E maxe _ junk vs 0] assms(1,3)
    by (cases obj) (auto simp: sremCommand_def)
next
  case (SIsMember v)
  show ?thesis
  proof (cases obj)
    case (Some s)
    with assms(1) have "set_inv E maxe s" by simp
    from setTypeIsMember_ok [OF this, of v] obtain s' where
      "setTypeIsMember E s v = Some (s', v \<in> set_abs s)" "set_inv E maxe s'" "set_abs s' = set_abs s" by blast
    with Some assms(1) SIsMember show ?thesis
      by (intro exI [of _ "Some s'"] exI [of _ "RCount (if v \<in> set_abs s then 1 else 0)"])
        (simp add: sismemberCommand_def)
  qed (simp add: SIsMember sismemberCommand_def)
next
  case SCard
  then show ?thesis using assms(1) setTypeSize_ok [of E maxe] by (cases obj) (simp_all add: scardCommand_def)
next
  case SMembers
  show ?thesis
  proof (cases obj)
    case (Some s)
    with assms(1) have "set_inv E maxe s" by simp
    from reply_members_ok [OF this] Some assms(1) SMembers show ?thesis by (simp add: smembersCommand_def)
  qed (simp add: SMembers smembersCommand_def)
qed

lemma spec_exec_card: "finite S \<Longrightarrow> finite (spec_exec c S) \<and> card (spec_exec c S) \<le> card S + length (cmd_args c)"
proof (cases c)
  case (SAdd v vs)
  assume "finite S"
  have "insert v (S \<union> set vs) = S \<union> set (v # vs)" by auto
  then show ?thesis using SAdd \<open>finite S\<close> card_Un_le [of S "set (v # vs)"] card_length [of "v # vs"] by simp
next
  case (SRem vs)
  assume "finite S"
  with SRem show ?thesis by (simp add: card_mono)
qed simp_all

lemma key_finite: "key_inv E maxe obj \<Longrightarrow> finite (key_abs obj)"
  using setTypeSize_ok by (cases obj) auto

lemma set_run_ok:
  assumes "maxe < 2 ^ 29" "key_inv E maxe obj" "card (key_abs obj) + length (concat (map cmd_args cs)) \<le> 2 ^ 60"
    and "to_string LONG_MIN \<notin> set (concat (map cmd_args cs))"
  shows "\<exists>obj' rs. set_run E maxe junk cs obj = Some (obj', rs) \<and> key_inv E maxe obj' \<and>
    spec_run cs (key_abs obj) rs = Some (key_abs obj')"
  using assms(2-4)
proof (induction cs arbitrary: obj)
  case (Cons c cs)
  from set_exec_ok [OF Cons.prems(1) _ assms(1), of c junk] Cons.prems(2,3) obtain obj1 r where
    1: "set_exec E maxe junk c obj = Some (obj1, r)" "key_inv E maxe obj1" "key_abs obj1 = spec_exec c (key_abs obj)"
      "spec_reply c (key_abs obj) r" by auto
  have "card (key_abs obj1) + length (concat (map cmd_args cs)) \<le> 2 ^ 60"
    using spec_exec_card [OF key_finite [OF Cons.prems(1)], of c] 1(3) Cons.prems(2) by simp
  from Cons.IH [OF 1(2) this] Cons.prems(3) obtain obj2 rs where
    "set_run E maxe junk cs obj1 = Some (obj2, rs)" "key_inv E maxe obj2"
    "spec_run cs (key_abs obj1) rs = Some (key_abs obj2)" by auto
  with 1 show ?case by (intro exI [of _ obj2] exI [of _ "r # rs"]) simp
qed simp

subsection \<open>Properties\<close>

text \<open>
  C28.  The set commands on a key behave as operations on a mathematical set of strings, whatever the
  sequence of commands and through every change of encoding: no assertion fails, SADD and SREM report
  the number of members that changed, SISMEMBER and SCARD what they should, and SMEMBERS lists every
  member once.  The limit on the intset size (512 by default) is below the size at which the intset
  arithmetic wraps, and the text of the smallest 64-bit integer is not used as a member, since
  \<open>sdsll2str\<close> negates it.
\<close>

theorem set_commands_refine:
  assumes "maxe < 2 ^ 29" "length (concat (map cmd_args cs)) \<le> 2 ^ 60"
    and "to_string LONG_MIN \<notin> set (concat (map cmd_args cs))"
  shows "\<exists>obj rs. set_run E maxe junk cs None = Some (obj, rs) \<and> key_inv E maxe obj \<and>
    spec_run cs {} rs = Some (key_abs obj)"
  using set_run_ok [OF assms(1), of E None cs junk] assms(2,3) by simp

theorem set_commands_refine_witness:
  "\<exists>obj rs. set_run \<lparr>hashFunction = (\<lambda>_. 0), expandAllowed = (\<lambda>_ _ _. True), dict_can_resize = True\<rparr> 1 0
      [SAdd ''7'' [''8'', ''ab''], SRem [''7''], SMembers] None = Some (obj, rs) \<and>
    spec_run [SAdd ''7'' [''8'', ''ab''], SRem [''7''], SMembers] {} rs = Some (key_abs obj)"
proof -
  have "hd (to_string LONG_MIN) = CHR ''-''" by (simp add: to_string_def LONG_MIN_def)
  then have "to_string LONG_MIN \<notin> set (concat (map cmd_args [SAdd ''7'' [''8'', ''ab''], SRem [''7''], SMembers]))" by auto
  from set_commands_refine [OF _ _ this, of 1] show ?thesis by fastforce
qed

end
