(* ===== verification/Kanban.thy ===== *)
theory Kanban
  imports Codec Numbers
begin

text \<open>
  The Kanban server as its clients see it, and programs that talk to it.

  \<^item> The keyspace: every key holds a string, a hash, a set or a list.  One definition per command that the
    executors, the manager and the client send (\<open>kanban/src/t_string.c\<close>, \<open>t_hash.c\<close>, \<open>t_set.c\<close>, \<open>t_list.c\<close>), with
    the type check that each starts with.  Values are given by their contents; the encodings of
    sets are the subject of theory \<open>SetType\<close>.
  \<^item> A program is a tree of commands: \<open>Call c t k\<close> sends \<open>c\<close>, repeats it (after a \<open>sleep\<close>) until the reply
    satisfies \<open>t\<close>, and continues with \<open>k\<close>.  \<open>Raise\<close> is an exception nobody catches or an undefined
    operation, \<open>Diverge\<close> a local loop that does not end.  \<open>run\<close> executes a program alone, \<open>sys_step\<close> interleaves the commands of several daemons.
\<close>

subsection \<open>Keyspace and commands\<close>

datatype kval =
    KString string
  | KHash "(string \<times> string) list"
  | KSet "string set"
  | KList "string list"

type_synonym kstore = "string \<rightharpoonup> kval"

datatype kreply =
    RNil
  | ROk
  | RStr string
  | RInt int
  | RPairs "(string \<times> string) list"
  | RKeys "string set"
  | RList "string list"
  | RErr

definition getCommand :: "string \<Rightarrow> kstore \<Rightarrow> kreply \<times> kstore" where
  "getCommand k s =
     (case s k of None \<Rightarrow> (RNil, s) | Some (KString v) \<Rightarrow> (RStr v, s) | _ \<Rightarrow> (RErr, s))"

text \<open>SET without options replaces a value of any type.\<close>

definition setCommand :: "string \<Rightarrow> string \<Rightarrow> kstore \<Rightarrow> kreply \<times> kstore" where
  "setCommand k v s = (ROk, s(k \<mapsto> KString v))"

definition incrCommand :: "string \<Rightarrow> kstore \<Rightarrow> kreply \<times> kstore" where
  "incrCommand k s =
     (case (case s k of None \<Rightarrow> Some 0 | Some (KString v) \<Rightarrow> string2ll v | _ \<Rightarrow> None) of
        None \<Rightarrow> (RErr, s)
      | Some oldvalue \<Rightarrow>
          if oldvalue > 0 \<and> 1 > LONG_MAX - oldvalue then (RErr, s)
          else (RInt (oldvalue + 1), s(k \<mapsto> KString (to_string (oldvalue + 1)))))"

fun hashTypeSet :: "string \<Rightarrow> string \<Rightarrow> (string \<times> string) list \<Rightarrow> (string \<times> string) list" where
  "hashTypeSet f v [] = [(f, v)]"
| "hashTypeSet f v ((f', v') # h) = (if f = f' then (f, v) # h else (f', v') # hashTypeSet f v h)"

definition hsetCommand :: "string \<Rightarrow> string \<Rightarrow> string \<Rightarrow> kstore \<Rightarrow> kreply \<times> kstore" where
  "hsetCommand k f v s =
     (case (case s k of None \<Rightarrow> Some [] | Some (KHash h) \<Rightarrow> Some h | _ \<Rightarrow> None) of
        None \<Rightarrow> (RErr, s)
      | Some h \<Rightarrow> (RInt (if map_of h f = None then 1 else 0), s(k \<mapsto> KHash (hashTypeSet f v h))))"

definition hgetallCommand :: "string \<Rightarrow> kstore \<Rightarrow> kreply \<times> kstore" where
  "hgetallCommand k s =
     (case s k of None \<Rightarrow> (RPairs [], s) | Some (KHash h) \<Rightarrow> (RPairs h, s) | _ \<Rightarrow> (RErr, s))"

definition kb_saddCommand :: "string \<Rightarrow> string \<Rightarrow> kstore \<Rightarrow> kreply \<times> kstore" where
  "kb_saddCommand k v s =
     (case (case s k of None \<Rightarrow> Some {} | Some (KSet S) \<Rightarrow> Some S | _ \<Rightarrow> None) of
        None \<Rightarrow> (RErr, s)
      | Some S \<Rightarrow> (RInt (if v \<in> S then 0 else 1), s(k \<mapsto> KSet (insert v S))))"

definition kb_smembersCommand :: "string \<Rightarrow> kstore \<Rightarrow> kreply \<times> kstore" where
  "kb_smembersCommand k s =
     (case s k of None \<Rightarrow> (RKeys {}, s) | Some (KSet S) \<Rightarrow> (RKeys S, s) | _ \<Rightarrow> (RErr, s))"

definition rpushCommand :: "string \<Rightarrow> string \<Rightarrow> kstore \<Rightarrow> kreply \<times> kstore" where
  "rpushCommand k v s =
     (if length v > 2 ^ 32 - 1024 then (RErr, s)
      else case (case s k of None \<Rightarrow> Some [] | Some (KList l) \<Rightarrow> Some l | _ \<Rightarrow> None) of
        None \<Rightarrow> (RErr, s)
      | Some l \<Rightarrow> (RInt (int (length l) + 1), s(k \<mapsto> KList (l @ [v]))))"

definition addListRangeReply :: "string list \<Rightarrow> int \<Rightarrow> int \<Rightarrow> string list" where
  "addListRangeReply l start end' =
     (let llen = int (length l);
          start = (if start < 0 then llen + start else start);
          end' = (if end' < 0 then llen + end' else end');
          start = (if start < 0 then 0 else start)
      in if start > end' \<or> start \<ge> llen then []
         else let end' = (if end' \<ge> llen then llen - 1 else end')
              in take (nat (end' - start + 1)) (drop (nat start) l))"

definition lrangeCommand :: "string \<Rightarrow> int \<Rightarrow> int \<Rightarrow> kstore \<Rightarrow> kreply \<times> kstore" where
  "lrangeCommand k start end' s =
     (case s k of None \<Rightarrow> (RList [], s) | Some (KList l) \<Rightarrow> (RList (addListRangeReply l start end'), s) | _ \<Rightarrow> (RErr, s))"

datatype kcmd =
    CGet string
  | CSet string string
  | CIncr string
  | CHset string string string
  | CHgetall string
  | CSadd string string
  | CSmembers string
  | CRpush string string
  | CLrange string int int

fun kexec :: "kcmd \<Rightarrow> kstore \<Rightarrow> kreply \<times> kstore" where
  "kexec (CGet k) = getCommand k"
| "kexec (CSet k v) = setCommand k v"
| "kexec (CIncr k) = incrCommand k"
| "kexec (CHset k f v) = hsetCommand k f v"
| "kexec (CHgetall k) = hgetallCommand k"
| "kexec (CSadd k v) = kb_saddCommand k v"
| "kexec (CSmembers k) = kb_smembersCommand k"
| "kexec (CRpush k v) = rpushCommand k v"
| "kexec (CLrange k a b) = lrangeCommand k a b"

subsection \<open>Client programs\<close>

datatype 'a prog =
    Return 'a
  | Raise fault
  | Diverge
  | Call kcmd "kreply \<Rightarrow> bool" "kreply \<Rightarrow> 'a prog"

primrec pbind :: "'a prog \<Rightarrow> ('a \<Rightarrow> 'b prog) \<Rightarrow> 'b prog" where
  "pbind (Return x) f = f x"
| "pbind (Raise e) f = Raise e"
| "pbind Diverge f = Diverge"
| "pbind (Call c t k) f = Call c t (\<lambda>r. pbind (k r) f)"

definition lift :: "fault + 'a \<Rightarrow> 'a prog" where
  "lift x = (case x of Inl e \<Rightarrow> Raise e | Inr v \<Rightarrow> Return v)"

fun pfold :: "('a \<Rightarrow> 's \<Rightarrow> 's prog) \<Rightarrow> 'a list \<Rightarrow> 's \<Rightarrow> 's prog" where
  "pfold f [] st = Return st"
| "pfold f (x # xs) st = pbind (f x st) (pfold f xs)"

text \<open>The methods of the client library, which raises on an error reply.\<close>

definition kb_get :: "string \<Rightarrow> string option prog" where
  "kb_get k = Call (CGet k) (\<lambda>_. True)
     (\<lambda>r. case r of RNil \<Rightarrow> Return None | RStr v \<Rightarrow> Return (Some v) | _ \<Rightarrow> Raise FReply)"

definition kb_set :: "string \<Rightarrow> string \<Rightarrow> unit prog" where
  "kb_set k v = Call (CSet k v) (\<lambda>_. True) (\<lambda>r. case r of ROk \<Rightarrow> Return () | _ \<Rightarrow> Raise FReply)"

definition kb_incr :: "string \<Rightarrow> int prog" where
  "kb_incr k = Call (CIncr k) (\<lambda>_. True) (\<lambda>r. case r of RInt i \<Rightarrow> Return i | _ \<Rightarrow> Raise FReply)"

definition kb_hset :: "string \<Rightarrow> string \<Rightarrow> string \<Rightarrow> unit prog" where
  "kb_hset k f v = Call (CHset k f v) (\<lambda>_. True) (\<lambda>r. case r of RInt i \<Rightarrow> Return () | _ \<Rightarrow> Raise FReply)"

definition kb_hgetall :: "string \<Rightarrow> (string \<times> string) list prog" where
  "kb_hgetall k = Call (CHgetall k) (\<lambda>_. True) (\<lambda>r. case r of RPairs h \<Rightarrow> Return h | _ \<Rightarrow> Raise FReply)"

definition kb_sadd :: "string \<Rightarrow> string \<Rightarrow> unit prog" where
  "kb_sadd k v = Call (CSadd k v) (\<lambda>_. True) (\<lambda>r. case r of RInt i \<Rightarrow> Return () | _ \<Rightarrow> Raise FReply)"

definition kb_smembers :: "string \<Rightarrow> string set prog" where
  "kb_smembers k = Call (CSmembers k) (\<lambda>_. True) (\<lambda>r. case r of RKeys S \<Rightarrow> Return S | _ \<Rightarrow> Raise FReply)"

definition kb_rpush :: "string \<Rightarrow> string \<Rightarrow> unit prog" where
  "kb_rpush k v = Call (CRpush k v) (\<lambda>_. True) (\<lambda>r. case r of RInt i \<Rightarrow> Return () | _ \<Rightarrow> Raise FReply)"

definition kb_lrange :: "string \<Rightarrow> int \<Rightarrow> int \<Rightarrow> string list prog" where
  "kb_lrange k a b = Call (CLrange k a b) (\<lambda>_. True) (\<lambda>r. case r of RList l \<Rightarrow> Return l | _ \<Rightarrow> Raise FReply)"

subsection \<open>Execution\<close>

datatype 'a outcome = Done 'a | Failed fault | Hangs

text \<open>Alone, a reply that does not end a polling loop never changes: the program polls for ever.\<close>

primrec run :: "'a prog \<Rightarrow> kstore \<Rightarrow> 'a outcome \<times> kstore" where
  "run (Return x) = (\<lambda>s. (Done x, s))"
| "run (Raise e) = (\<lambda>s. (Failed e, s))"
| "run Diverge = (\<lambda>s. (Hangs, s))"
| "run (Call c t k) =
     (\<lambda>s. let r = fst (kexec c s); s' = snd (kexec c s) in if t r then run (k r) s' else (Hangs, s'))"

text \<open>
  Several daemons at once: a step is one command of one process; a process that has finished its pass
  starts another one of its programs \<open>B i\<close>.
\<close>

inductive sys_step ::
  "(nat \<Rightarrow> unit prog set) \<Rightarrow> kstore \<times> unit prog list \<Rightarrow> kstore \<times> unit prog list \<Rightarrow> bool" for B where
  command: "i < length ps \<Longrightarrow> ps ! i = Call c t k \<Longrightarrow> kexec c s = (r, s') \<Longrightarrow>
     sys_step B (s, ps) (s', ps[i := if t r then k r else ps ! i])"
| restart: "i < length ps \<Longrightarrow> ps ! i = Return () \<Longrightarrow> p \<in> B i \<Longrightarrow> sys_step B (s, ps) (s, ps[i := p])"

text \<open>
  \<open>I K s\<close> is an invariant of the store with what a process knows of it, \<open>K\<close>.  \<open>holds I E p K Q\<close>: started with \<open>K\<close> and run
  among processes that keep \<open>I\<close> for every knowledge, each command of \<open>p\<close> keeps it too, a result satisfies \<open>Q\<close> and a fault \<open>E\<close>.
\<close>

primrec holds ::
  "('k \<Rightarrow> kstore \<Rightarrow> bool) \<Rightarrow> (fault \<Rightarrow> bool) \<Rightarrow> 'a prog \<Rightarrow> 'k \<Rightarrow> ('a \<Rightarrow> 'k \<Rightarrow> bool) \<Rightarrow> bool" where
  "holds I E (Return x) = (\<lambda>K Q. Q x K)"
| "holds I E (Raise e) = (\<lambda>K Q. E e)"
| "holds I E Diverge = (\<lambda>K Q. True)"
| "holds I E (Call c t k) =
     (\<lambda>K Q. \<forall>s. I K s \<longrightarrow> (\<forall>K0. I K0 s \<longrightarrow> I K0 (snd (kexec c s))) \<and>
        (t (fst (kexec c s)) \<longrightarrow> (\<exists>K'. I K' (snd (kexec c s)) \<and> holds I E (k (fst (kexec c s))) K' Q)))"

subsection \<open>Laws\<close>

lemmas kcommand_defs = getCommand_def setCommand_def incrCommand_def hsetCommand_def hgetallCommand_def
  kb_saddCommand_def kb_smembersCommand_def rpushCommand_def lrangeCommand_def

lemmas kb_defs = kb_get_def kb_set_def kb_incr_def kb_hset_def kb_hgetall_def kb_sadd_def kb_smembers_def
  kb_rpush_def kb_lrange_def

lemma pbind_assoc: "pbind (pbind p f) g = pbind p (\<lambda>x. pbind (f x) g)"
  by (induction p) simp_all

lemma pbind_Return [simp]: "pbind p Return = p"
  by (induction p) simp_all

lemma lift_simps [simp]: "lift (Inl e) = Raise e" "lift (Inr v) = Return v"
  by (simp_all add: lift_def)

lemma run_pbind:
  "run (pbind p f) s =
     (case run p s of (Done x, s') \<Rightarrow> run (f x) s' | (Failed e, s') \<Rightarrow> (Failed e, s') | (Hangs, s') \<Rightarrow> (Hangs, s'))"
  by (induction p arbitrary: s) (simp_all add: Let_def)

lemma run_pbind_Done: "run p s = (Done x, s') \<Longrightarrow> run (pbind p f) s = run (f x) s'"
  by (simp add: run_pbind)

lemma run_pfold_Done:
  assumes "\<And>x acc. x \<in> set xs \<Longrightarrow> run (f x acc) s = (Done (g x acc), s)"
  shows "run (pfold f xs acc) s = (Done (fold g xs acc), s)"
  using assms by (induction xs arbitrary: acc) (simp_all add: run_pbind)

lemma map_of_hashTypeSet: "map_of (hashTypeSet f v h) = (map_of h)(f \<mapsto> v)"
  by (induction f v h rule: hashTypeSet.induct) auto

lemma set_hashTypeSet: "set (hashTypeSet f v h) \<subseteq> insert (f, v) (set h)"
  by (induction f v h rule: hashTypeSet.induct) auto

lemma keys_hashTypeSet: "fst ` set (hashTypeSet f v h) = insert f (fst ` set h)"
  by (induction f v h rule: hashTypeSet.induct) auto

lemma distinct_hashTypeSet: "distinct (map fst h) \<Longrightarrow> distinct (map fst (hashTypeSet f v h))"
proof (induction f v h rule: hashTypeSet.induct)
  case (2 f v f' v' h)
  then show ?case using keys_hashTypeSet [of f v h] by auto
qed simp

lemma addListRangeReply_all [simp]: "addListRangeReply l 0 (- 1) = l"
  by (auto simp: addListRangeReply_def Let_def)

lemma holds_pbind:
  assumes "holds I E p K R" "\<And>x K. R x K \<Longrightarrow> holds I E (f x) K Q"
  shows "holds I E (pbind p f) K Q"
  using assms(1)
proof (induction p arbitrary: K)
  case (Return x)
  then show ?case using assms(2) by simp
next
  case (Call c t k)
  show ?case
    unfolding pbind.simps holds.simps
  proof (intro allI impI conjI)
    fix s assume s: "I K s"
    show "I K0 (snd (kexec c s))" if "I K0 s" for K0 using Call.prems s that by simp
    assume "t (fst (kexec c s))"
    with Call.prems s obtain K' where "I K' (snd (kexec c s))" "holds I E (k (fst (kexec c s))) K' R" by auto
    with Call.IH show "\<exists>K'. I K' (snd (kexec c s)) \<and> holds I E (pbind (k (fst (kexec c s))) f) K' Q" by blast
  qed
qed simp_all

lemma holds_mono: "holds I E p K R \<Longrightarrow> (\<And>x K. R x K \<Longrightarrow> Q x K) \<Longrightarrow> holds I E p K Q"
  using holds_pbind [of I E p K R Return Q] by simp

lemma holds_lift: "(\<And>v. x = Inr v \<Longrightarrow> Q v K) \<Longrightarrow> (\<And>e. x = Inl e \<Longrightarrow> E e) \<Longrightarrow> holds I E (lift x) K Q"
  by (cases x) simp_all

lemma holds_pfold:
  assumes "\<And>x st K. x \<in> set xs \<Longrightarrow> R st K \<Longrightarrow> holds I E (f x st) K R" "R st K"
  shows "holds I E (pfold f xs st) K R"
  using assms
proof (induction xs arbitrary: st K)
  case (Cons x xs)
  then show ?case by (auto intro: holds_pbind [where R = R])
qed simp

text \<open>What a program does alone it can do among others.\<close>

lemma run_steps:
  assumes "run p s = (Done x, s')" "i < length ps" "ps ! i = pbind p f"
  shows "(sys_step B)\<^sup>*\<^sup>* (s, ps) (s', ps[i := f x])"
  using assms
proof (induction p arbitrary: s ps)
  case (Return y)
  then have "ps[i := f x] = ps" "s' = s" by (auto simp: list_update_same_conv)
  then show ?case by simp
next
  case (Call c t k)
  obtain r s1 where e: "kexec c s = (r, s1)" by fastforce
  with Call.prems(1) have t: "t r" "run (k r) s1 = (Done x, s')" by (auto simp: Let_def split: if_splits)
  from sys_step.command [OF Call.prems(2) _ e, of t "\<lambda>r. pbind (k r) f" B] Call.prems(3) t(1)
  have "sys_step B (s, ps) (s1, ps[i := pbind (k r) f])" by simp
  moreover have "(sys_step B)\<^sup>*\<^sup>* (s1, ps[i := pbind (k r) f]) (s', (ps[i := pbind (k r) f])[i := f x])"
    using Call.prems(2) by (intro Call.IH [OF _ t(2)]) simp_all
  ultimately show ?case by (simp add: converse_rtranclp_into_rtranclp)
qed simp_all

subsection \<open>Invariants of interleaved processes\<close>

text \<open>
  The contract between the invariant of a store and the processes that share it: the least knowledge always holds.
\<close>

locale shared_store =
  fixes I :: "'k \<Rightarrow> kstore \<Rightarrow> bool" and E :: "fault \<Rightarrow> bool" and bot :: 'k
  assumes weaken: "I K s \<Longrightarrow> I bot s"
begin

definition sys_ok :: "kstore \<times> unit prog list \<Rightarrow> bool" where
  "sys_ok c \<longleftrightarrow> I bot (fst c) \<and> (\<forall>p \<in> set (snd c). \<exists>K. I K (fst c) \<and> holds I E p K (\<lambda>_ _. True))"

lemma sys_step_keeps:
  assumes "sys_step B c c'" "\<forall>i. \<forall>p \<in> B i. holds I E p bot (\<lambda>_ _. True)" "sys_ok c"
  shows "sys_ok c'"
  using assms
proof (induction rule: sys_step.induct)
  case (command i ps c t k s r s')
  have "ps ! i \<in> set ps" by (rule nth_mem) (fact command)
  with command obtain K where K: "I K s" "holds I E (Call c t k) K (\<lambda>_ _. True)" by (auto simp: sys_ok_def)
  have e: "kexec c s = (r, s')" by (fact command)
  note h = K(2) [unfolded holds.simps, THEN spec, THEN mp, OF K(1), unfolded e fst_conv snd_conv]
  have keep: "I K0 s'" if "I K0 s" for K0 using h that by blast
  have new: "\<exists>K'. I K' s' \<and> holds I E (if t r then k r else Call c t k) K' (\<lambda>_ _. True)"
  proof (cases "t r")
    case True
    then show ?thesis using h by simp
  next
    case False
    then show ?thesis using K(2) keep [OF K(1)] by (auto simp del: holds.simps)
  qed
  have old: "\<exists>K'. I K' s' \<and> holds I E p K' (\<lambda>_ _. True)" if "p \<in> set ps" for p
  proof -
    from command.prems(2) that obtain K' where "I K' s" "holds I E p K' (\<lambda>_ _. True)" unfolding sys_ok_def fst_conv snd_conv by blast
    with keep show ?thesis by blast
  qed
  have "ps ! i = Call c t k" by (fact command)
  then have "set (ps[i := if t r then k r else ps ! i]) \<subseteq> insert (if t r then k r else Call c t k) (set ps)"
    using set_update_subset_insert by metis
  moreover have "I bot s'" using keep command.prems(2) by (simp add: sys_ok_def)
  ultimately show ?case using new old by (auto simp: sys_ok_def simp del: holds.simps)
next
  case (restart i ps p s)
  then have "I bot s" "holds I E p bot (\<lambda>_ _. True)" "\<forall>q \<in> set ps. \<exists>K. I K s \<and> holds I E q K (\<lambda>_ _. True)"
    unfolding sys_ok_def fst_conv snd_conv by blast+
  then have "\<forall>q \<in> insert p (set ps). \<exists>K. I K s \<and> holds I E q K (\<lambda>_ _. True)" by blast
  with \<open>I bot s\<close> set_update_subset_insert [of ps i p] show ?case unfolding sys_ok_def fst_conv snd_conv by blast
qed

lemma sys_steps_keep:
  assumes "(sys_step B)\<^sup>*\<^sup>* c c'" "\<forall>i. \<forall>p \<in> B i. holds I E p bot (\<lambda>_ _. True)" "sys_ok c"
  shows "sys_ok c'"
  using assms(1)
proof (induction rule: rtranclp_induct)
  case (step y z)
  then show ?case using sys_step_keeps [OF _ assms(2)] by blast
qed (rule assms(3))

lemma sys_start: "I bot s \<Longrightarrow> \<forall>p \<in> set ps. holds I E p bot (\<lambda>_ _. True) \<Longrightarrow> sys_ok (s, ps)"
  by (auto simp: sys_ok_def)

lemma sys_okD: "sys_ok (s, ps) \<Longrightarrow> I bot s \<and> (\<forall>e. Raise e \<in> set ps \<longrightarrow> E e)"
  by (force simp: sys_ok_def)

lemma reachable_ok:
  assumes "(sys_step B)\<^sup>*\<^sup>* (s, ps) (s', ps')" "\<forall>i. \<forall>p \<in> B i. holds I E p bot (\<lambda>_ _. True)"
    and "I bot s" "\<forall>p \<in> set ps. holds I E p bot (\<lambda>_ _. True)"
  shows "I bot s' \<and> (\<forall>e. Raise e \<in> set ps' \<longrightarrow> E e)"
  using sys_steps_keep [OF assms(1,2) sys_start [OF assms(3,4)]] sys_okD by blast

end

end
