(* ===== verification/Crypto.thy ===== *)
theory Crypto
  imports Codec
begin

text \<open>
  Hashes and signatures as text (\<open>enclave_key.cpp\<close>, and the same routines in \<open>client/utility.hpp\<close>
  and \<open>manager/utility.hpp\<close>), with the keys that are written into the sources.

  SHA-256 is OpenSSL's and Ed25519 the HACL* library's: both are fields of \<open>crypto_lib\<close>.  What the
  code relies on is stated by three predicates: \<open>crypto_sizes\<close> (digests of 32 and signatures of 64
  bytes), \<open>sig_correct\<close> (a signature of the secret key verifies under the public key) and
  \<open>sig_binds\<close> (the signature of one message does not verify for another one).
\<close>

record crypto_lib =
  sha256 :: "string \<Rightarrow> byte list"
  ed_sign :: "byte list \<Rightarrow> string \<Rightarrow> byte list"
  ed_verify :: "byte list \<Rightarrow> string \<Rightarrow> byte list \<Rightarrow> bool"

definition skey :: "byte list" where
  "skey =
    [0x9d, 0x61, 0xb1, 0x9d, 0xef, 0xfd, 0x5a, 0x60,
     0xba, 0x84, 0x4a, 0xf4, 0x92, 0xec, 0x2c, 0xc4,
     0x44, 0x49, 0xc5, 0x69, 0x7b, 0x32, 0x69, 0x19,
     0x70, 0x3b, 0xac, 0x03, 0x1c, 0xae, 0x7f, 0x60]"

definition pkey :: "byte list" where
  "pkey =
    [0xd7, 0x5a, 0x98, 0x01, 0x82, 0xb1, 0x0a, 0xb7,
     0xd5, 0x4b, 0xfe, 0xd3, 0xc9, 0x64, 0x07, 0x3a,
     0x0e, 0xe1, 0x72, 0xf3, 0xda, 0xa6, 0x23, 0x25,
     0xaf, 0x02, 0x1a, 0x68, 0xf7, 0x07, 0x51, 0x1a]"

definition crypto_sizes :: "crypto_lib \<Rightarrow> bool" where
  "crypto_sizes L \<longleftrightarrow> (\<forall>m. length (sha256 L m) = 32) \<and> (\<forall>k m. length (ed_sign L k m) = 64)"

definition sig_correct :: "crypto_lib \<Rightarrow> bool" where
  "sig_correct L \<longleftrightarrow> (\<forall>m. ed_verify L pkey m (ed_sign L skey m))"

text \<open>
  Message binding: the signature of \<open>m\<close> verifies for \<open>m'\<close> only if the two messages are the same.  For Ed25519 a
  different \<open>m'\<close> would be a collision of the SHA-512 challenge.
\<close>

definition sig_binds :: "crypto_lib \<Rightarrow> string \<Rightarrow> string \<Rightarrow> bool" where
  "sig_binds L m m' \<longleftrightarrow> (ed_verify L pkey m' (ed_sign L skey m) \<longrightarrow> m' = m)"

text \<open>An instance for examples: a weak checksum and the message's length as its signature.\<close>

definition crypto_example :: crypto_lib where
  "crypto_example = \<lparr>
     sha256 = \<lambda>m. replicate 31 0 @ [of_nat (length m)],
     ed_sign = \<lambda>k m. replicate 63 0 @ [of_nat (length m)],
     ed_verify = \<lambda>p m s. s = replicate 63 0 @ [of_nat (length m)]\<rparr>"

subsection \<open>Hexadecimal text\<close>

text \<open>\<open>"%02x"\<close> of a byte.\<close>

definition hex2 :: "byte \<Rightarrow> string" where
  "hex2 b = [digit_char (unat b div 16), digit_char (unat b mod 16)]"

definition ed25519_sig_to_string :: "byte list \<Rightarrow> string" where
  "ed25519_sig_to_string sig = concat (map hex2 (take 64 sig))"

definition ed25519_key_to_string :: "byte list \<Rightarrow> string" where
  "ed25519_key_to_string key = concat (map hex2 (take 32 key))"

text \<open>Reading \<open>data()[i]\<close> of a string: its terminator is readable, nothing behind it.\<close>

definition buf_at :: "string \<Rightarrow> nat \<Rightarrow> fault + char" where
  "buf_at s i = (if i < length s then Inr (s ! i) else if i = length s then Inr NUL else Inl FRead)"

definition hex_byte :: "string \<Rightarrow> nat \<Rightarrow> fault + byte" where
  "hex_byte inputBuffer i =
     ebind (buf_at inputBuffer (i * 2)) (\<lambda>a.
       ebind (buf_at inputBuffer (i * 2 + 1)) (\<lambda>b.
         Inr (word_of_int (strtol 16 [a, b, NUL]))))"

definition ed25519_string_to_sig :: "string \<Rightarrow> fault + byte list" where
  "ed25519_string_to_sig inputBuffer = emap (hex_byte inputBuffer) [0..<64]"

definition ed25519_string_to_key :: "string \<Rightarrow> fault + byte list" where
  "ed25519_string_to_key inputBuffer = emap (hex_byte inputBuffer) [0..<32]"

definition sha256_string :: "crypto_lib \<Rightarrow> string \<Rightarrow> string" where
  "sha256_string L m = concat (map hex2 (take 32 (sha256 L m)))"

text \<open>\<open>trim_string\<close>: the text between the first and the last character.\<close>

definition trim_string :: "string \<Rightarrow> fault + string" where
  "trim_string original_string =
     (if original_string = [] then Inl FSubstr
      else Inr (take (length original_string - 2) (drop 1 original_string)))"

subsection \<open>Lemmas\<close>

lemma crypto_example_ok: "crypto_sizes crypto_example" "sig_correct crypto_example"
  by (simp_all add: crypto_sizes_def sig_correct_def crypto_example_def)

lemma digit_char_cases: "d < 16 \<Longrightarrow> digit_char d \<in> set ''0123456789abcdef''"
proof -
  assume "d < 16"
  moreover have "list_all (\<lambda>d. digit_char d \<in> set ''0123456789abcdef'') [0..<16]" by code_simp
  ultimately show ?thesis by (simp add: list_all_iff)
qed

lemma strtol_hex2: "strtol 16 (hex2 b @ [NUL]) = int (unat b)"
proof -
  have "unat b < 2 ^ LENGTH(8)" by (rule unsigned_less)
  then have u: "unat b div 16 < 16" "unat b mod 16 < 16" by simp_all
  have sp: "\<not> isspace (digit_char d)" "digit_char d \<noteq> CHR ''-''" "digit_char d \<noteq> CHR ''+''"
    "digit_char d \<noteq> NUL" "digit_char d \<noteq> CHR ''x''" "digit_char d \<noteq> CHR ''X''" if "d < 16" for d
    using digit_char_cases [OF that] by (auto simp: isspace_def)
  have "strtol_parts 16 (hex2 b @ [NUL]) = (False, hex2 b)"
    using u sp [OF u(1)] sp [OF u(2)]
    by (simp add: strtol_parts_def hex2_def c_str_def Let_def)
  then have "strtol_raw 16 (hex2 b @ [NUL]) = Some (int (unat b))"
    using u by (simp add: strtol_raw_def hex2_def)
  moreover have "uint b < 2 ^ LENGTH(8)" by (rule unsigned_less)
  then have "in_long (int (unat b))"
    using order_trans [of LONG_MIN 0 "uint b"] by (simp add: in_long_def LONG_MIN_def LONG_MAX_def)
  ultimately show ?thesis by (simp add: strtol_def in_long_def)
qed

lemma concat_hex2_nth:
  "i < length bs \<Longrightarrow> concat (map hex2 bs) ! (2 * i) = hex2 (bs ! i) ! 0 \<and>
     concat (map hex2 bs) ! (2 * i + 1) = hex2 (bs ! i) ! 1"
proof (induction bs arbitrary: i)
  case (Cons b bs)
  then show ?case by (cases i) (auto simp: hex2_def)
qed simp

lemma length_concat_hex2 [simp]: "length (concat (map hex2 bs)) = 2 * length bs"
  by (induction bs) (auto simp: hex2_def)

lemma hex_byte_concat:
  assumes "i < length bs"
  shows "hex_byte (concat (map hex2 bs)) i = Inr (bs ! i)"
proof -
  have "strtol 16 [hex2 (bs ! i) ! 0, hex2 (bs ! i) ! 1, NUL] = int (unat (bs ! i))"
    using strtol_hex2 [of "bs ! i"] by (simp add: hex2_def)
  then show ?thesis
    using concat_hex2_nth [OF assms] assms by (simp add: hex_byte_def buf_at_def mult.commute)
qed

lemma hex_bytes_concat:
  "length bs = n \<Longrightarrow> emap (hex_byte (concat (map hex2 bs))) [0..<n] = Inr bs"
  using emap_Inr [of "[0..<n]" "hex_byte (concat (map hex2 bs))" "(!) bs"]
  using map_nth [of bs] by (auto simp: hex_byte_concat)

interpretation sig_codec: codec ed25519_sig_to_string ed25519_string_to_sig "\<lambda>sig. length sig = 64"
  by unfold_locales (simp add: ed25519_sig_to_string_def ed25519_string_to_sig_def hex_bytes_concat)

interpretation key_codec: codec ed25519_key_to_string ed25519_string_to_key "\<lambda>key. length key = 32"
  by unfold_locales (simp add: ed25519_key_to_string_def ed25519_string_to_key_def hex_bytes_concat)

lemma hex_chars: "c \<in> set (concat (map hex2 bs)) \<Longrightarrow> c \<in> set ''0123456789abcdef''"
proof -
  assume "c \<in> set (concat (map hex2 bs))"
  then obtain b where c: "c \<in> set (hex2 b)" by auto
  have "unat b < 2 ^ LENGTH(8)" by (rule unsigned_less)
  then have "unat b div 16 < 16" "unat b mod 16 < 16" by simp_all
  moreover have "c = digit_char (unat b div 16) \<or> c = digit_char (unat b mod 16)"
    using c by (auto simp: hex2_def)
  ultimately show ?thesis using digit_char_cases by metis
qed

lemma json_escape_plain: "(\<And>c. c \<in> set s \<Longrightarrow> json_escape_char c = [c]) \<Longrightarrow> json_escape s = s"
  by (induction s) (auto simp: json_escape_def)

lemma json_escape_to_string [simp]: "json_escape (to_string i) = to_string i"
proof (rule json_escape_plain)
  fix c assume "c \<in> set (to_string i)"
  then consider "is_digit c" | "c = CHR ''-''" using to_string_chars by blast
  then show "json_escape_char c = [c]"
  proof cases
    case 1
    then have "c \<noteq> CHR 0x22 \<and> c \<noteq> CHR 0x5C \<and> c \<noteq> CHR 0x08 \<and> c \<noteq> CHR 0x0C \<and> c \<noteq> CHR 0x0A \<and> c \<noteq> CHR 0x0D \<and> c \<noteq> CHR 0x09"
      by (auto simp: is_digit_def less_eq_char_def)
    then show ?thesis by (simp add: json_escape_char_def)
  qed (simp add: json_escape_char_def)
qed

lemma json_escape_hex [simp]: "json_escape (concat (map hex2 bs)) = concat (map hex2 bs)"
  by (rule json_escape_plain, drule hex_chars) (auto simp: json_escape_char_def)

lemma json_escape_sha256 [simp]: "json_escape (sha256_string L m) = sha256_string L m"
  by (simp add: sha256_string_def)

lemma json_escape_sig [simp]: "json_escape (ed25519_sig_to_string s) = ed25519_sig_to_string s"
  by (simp add: ed25519_sig_to_string_def)

lemma length_sha256_string [simp]: "crypto_sizes L \<Longrightarrow> length (sha256_string L m) = 64"
  by (simp add: sha256_string_def crypto_sizes_def)

lemma trim_string_quotes: "trim_string (q # s @ [q']) = Inr s"
  by (simp add: trim_string_def)

subsection \<open>Properties\<close>

text \<open>
  C40.  The hexadecimal texts of a signature and of a key read back as the signature and the key, and they have 128 and
  64 characters, the sizes of the buffers they are printed into.
\<close>

theorem signature_hex_roundtrip:
  assumes "length sig = 64" "length key = 32"
  shows "ed25519_string_to_sig (ed25519_sig_to_string sig) = Inr sig \<and>
    length (ed25519_sig_to_string sig) = 128 \<and>
    ed25519_string_to_key (ed25519_key_to_string key) = Inr key \<and>
    length (ed25519_key_to_string key) = 64"
  using sig_codec.dec_enc [of sig] key_codec.dec_enc [of key] assms
  by (simp add: ed25519_sig_to_string_def ed25519_key_to_string_def)

theorem signature_hex_roundtrip_witness:
  "ed25519_string_to_sig (ed25519_sig_to_string (replicate 64 0xaf)) = Inr (replicate 64 0xaf) \<and>
    length (ed25519_sig_to_string (replicate 64 0xaf)) = 128 \<and>
    ed25519_string_to_key (ed25519_key_to_string pkey) = Inr pkey \<and> length (ed25519_key_to_string pkey) = 64"
  by (rule signature_hex_roundtrip) (simp_all add: pkey_def)

end
