(* ===== verification/Witness.thy ===== *)
theory Witness
  imports Crypto
begin

text \<open>
  Witnesses (\<open>Enclave/enclave_witness.cpp\<close>): the signed record of one computation with the hashes of
  its inputs, its output and its code, and \<open>check_witness\<close> of the client, which rebuilds the signed
  text from the parsed record.

  \<open>w_stage\<close> is the field that orders the calls.  The local contexts of the callers start with an
  indeterminate stage, the argument of \<open>witness_fresh\<close>.
\<close>

record witness_context =
  w_tag :: string
  w_ins :: "string list"
  w_out :: string
  w_bin :: string
  w_stage :: int

definition witness_fresh :: "int \<Rightarrow> witness_context" where
  "witness_fresh g = \<lparr>w_tag = [], w_ins = [], w_out = [], w_bin = [], w_stage = g\<rparr>"

definition witness_clear :: "witness_context \<Rightarrow> witness_context" where
  "witness_clear context' = context'\<lparr>w_tag := [], w_out := [], w_bin := [], w_ins := [], w_stage := 0\<rparr>"

definition witness_init :: "string \<Rightarrow> witness_context \<Rightarrow> witness_context" where
  "witness_init tag context' = context'\<lparr>w_tag := tag, w_stage := 1\<rparr>"

definition witness_input :: "crypto_lib \<Rightarrow> string \<Rightarrow> witness_context \<Rightarrow> witness_context" where
  "witness_input L s context' =
     context'\<lparr>w_ins := w_ins context' @ [sha256_string L s], w_stage := 2\<rparr>"

definition witness_output :: "crypto_lib \<Rightarrow> string \<Rightarrow> witness_context \<Rightarrow> witness_context" where
  "witness_output L s context' =
     (if w_stage context' = 3 then context'
      else context'\<lparr>w_out := sha256_string L s, w_stage := 3\<rparr>)"

definition witness_func :: "crypto_lib \<Rightarrow> string \<Rightarrow> witness_context \<Rightarrow> witness_context" where
  "witness_func L s context' =
     (if w_stage context' = 4 then context'
      else context'\<lparr>w_bin := sha256_string L s, w_stage := 4\<rparr>)"

text \<open>The JSON object that is signed.\<close>

definition witness_json :: "witness_context \<Rightarrow> JSON" where
  "witness_json context' =
     (let j = set_key ''TAG'' (String (w_tag context')) Null;
          j = set_key ''IN'' (Make CArray) j;
          j = fold (\<lambda>i j. set_key ''IN'' (json_append (String i) (index_key ''IN'' j)) j) (w_ins context') j;
          j = set_key ''OUT'' (String (w_out context')) j
      in set_key ''FUNC'' (String (w_bin context')) j)"

text \<open>\<open>output_witness\<close> is the caller's string, returned as it is when the context is final already.\<close>

definition witness_finalize ::
    "fp_lib \<Rightarrow> crypto_lib \<Rightarrow> witness_context \<Rightarrow> string \<Rightarrow> string \<times> witness_context" where
  "witness_finalize fp L context' output_witness =
     (if w_stage context' = 5 then (output_witness, context')
      else let json_witness = witness_json context';
               sig = ed_sign L skey (json_dump fp json_witness);
               json_witness' = set_key ''SIG'' (String (ed25519_sig_to_string sig)) json_witness
        in (json_dump fp json_witness', context'\<lparr>w_stage := 5\<rparr>))"

text \<open>The parsed witness is indexed by the non-const \<open>operator[]\<close>, which only adds null members.\<close>

definition check_witness :: "fp_lib \<Rightarrow> crypto_lib \<Rightarrow> string \<Rightarrow> fault + bool" where
  "check_witness fp L s_witness =
     ebind (lift_json (JSON_Load fp s_witness)) (\<lambda>original_witness.
       let json_witness = set_key ''TAG'' (index_key ''TAG'' original_witness) Null;
           json_witness = set_key ''IN'' (index_key ''IN'' original_witness) json_witness;
           json_witness = set_key ''OUT'' (index_key ''OUT'' original_witness) json_witness;
           json_witness = set_key ''FUNC'' (index_key ''FUNC'' original_witness) json_witness
       in ebind (ed25519_string_to_sig (ToString (index_key ''SIG'' original_witness))) (\<lambda>sig.
            Inr (ed_verify L pkey (json_dump fp json_witness) sig)))"

subsection \<open>The signed object\<close>

lemma escape_fields [simp]:
  "json_escape ''TAG'' = ''TAG''" "json_escape ''IN'' = ''IN''" "json_escape ''OUT'' = ''OUT''"
  "json_escape ''FUNC'' = ''FUNC''" "json_escape ''SIG'' = ''SIG''"
  by (simp_all add: json_escape_def json_escape_char_def)

lemma witness_json_inputs:
  "fold (\<lambda>i j. set_key ''IN'' (json_append (String i) (index_key ''IN'' j)) j) is
      (Object [(''IN'', Array xs), (''TAG'', t)]) =
    Object [(''IN'', Array (xs @ map String is)), (''TAG'', t)]"
  by (induction "is" arbitrary: xs) simp_all

lemma witness_json_eq:
  "witness_json c = Object [(''FUNC'', String (w_bin c)), (''IN'', Array (map String (w_ins c))),
     (''OUT'', String (w_out c)), (''TAG'', String (w_tag c))]"
  by (simp add: witness_json_def Let_def witness_json_inputs)

lemma json_ok_witness [simp]: "json_ok (witness_json c)" "JSONType (witness_json c) = CObject"
  by (simp_all add: witness_json_eq)

definition signed_witness :: "crypto_lib \<Rightarrow> fp_lib \<Rightarrow> witness_context \<Rightarrow> JSON" where
  "signed_witness L fp c =
     Object [(''FUNC'', String (w_bin c)), (''IN'', Array (map String (w_ins c))),
       (''OUT'', String (w_out c)), 
       (''SIG'', String (ed25519_sig_to_string (ed_sign L skey (json_dump fp (witness_json c))))),
       (''TAG'', String (w_tag c))]"

lemma json_ok_signed_witness [simp]:
  "json_ok (signed_witness L fp c)" "JSONType (signed_witness L fp c) = CObject"
  by (simp_all add: signed_witness_def)

lemma witness_finalize_eq:
  "w_stage c \<noteq> 5 \<Longrightarrow>
   witness_finalize fp L c w = (json_dump fp (signed_witness L fp c), c\<lparr>w_stage := 5\<rparr>)"
  by (simp add: witness_finalize_def Let_def signed_witness_def witness_json_eq)

lemma index_signed_witness [simp]:
  "index_key ''TAG'' (signed_witness L fp c) = String (w_tag c)"
  "index_key ''IN'' (signed_witness L fp c) = Array (map String (w_ins c))"
  "index_key ''OUT'' (signed_witness L fp c) = String (w_out c)"
  "index_key ''FUNC'' (signed_witness L fp c) = String (w_bin c)"
  "index_key ''SIG'' (signed_witness L fp c) =
     String (ed25519_sig_to_string (ed_sign L skey (json_dump fp (witness_json c))))"
  by (simp_all add: signed_witness_def)

subsection \<open>Checking\<close>

text \<open>The object \<open>check_witness\<close> rebuilds from a parsed witness.\<close>

definition claimed :: "JSON \<Rightarrow> JSON" where
  "claimed j = Object [(''FUNC'', index_key ''FUNC'' j), (''IN'', index_key ''IN'' j),
     (''OUT'', index_key ''OUT'' j), (''TAG'', index_key ''TAG'' j)]"

lemma check_witness_eq:
  "check_witness fp L s =
     ebind (lift_json (JSON_Load fp s)) (\<lambda>j.
       ebind (ed25519_string_to_sig (ToString (index_key ''SIG'' j))) (\<lambda>sig.
         Inr (ed_verify L pkey (json_dump fp (claimed j)) sig)))"
  by (simp add: check_witness_def claimed_def Let_def)

lemma claimed_signed [simp]: "claimed (signed_witness L fp c) = witness_json c"
  by (simp add: claimed_def witness_json_eq)

lemma index_key_ok: "json_ok j \<Longrightarrow> json_ok (index_key k j)"
proof (cases j)
  case (Object m)
  assume "json_ok j"
  then have "json_ok v" if "map_of m k = Some v" for v
    using that Object map_of_SomeD by fastforce
  with Object show ?thesis by (simp split: option.splits)
qed (simp_all add: index_key_def SetType_def)

lemma json_ok_claimed: "json_ok j \<Longrightarrow> json_ok (claimed j)"
  by (simp add: claimed_def index_key_ok)

lemma check_signed:
  assumes "crypto_sizes L"
  shows "check_witness fp L (json_dump fp (signed_witness L fp c)) =
    Inr (ed_verify L pkey (json_dump fp (witness_json c)) (ed_sign L skey (json_dump fp (witness_json c))))"
  using assms sig_codec.dec_enc by (simp add: check_witness_eq Load_dump crypto_sizes_def)

subsection \<open>The stage field\<close>

text \<open>What the callers do: start, any number of inputs, the output, the code.\<close>

definition witness_of :: "crypto_lib \<Rightarrow> string \<Rightarrow> string list \<Rightarrow> string \<Rightarrow> string \<Rightarrow> witness_context" where
  "witness_of L tag ins out bin =
     \<lparr>w_tag = tag, w_ins = map (sha256_string L) ins, w_out = sha256_string L out,
      w_bin = sha256_string L bin, w_stage = 4\<rparr>"

lemma fold_witness_input:
  "ins \<noteq> [] \<Longrightarrow> fold (witness_input L) ins c =
     c\<lparr>w_ins := w_ins c @ map (sha256_string L) ins, w_stage := 2\<rparr>"
proof (induction ins arbitrary: c)
  case (Cons i ins)
  show ?case
  proof (cases "ins = []")
    case False
    from Cons.IH [OF this, of "witness_input L i c"] show ?thesis by (simp add: witness_input_def)
  qed (simp add: witness_input_def)
qed simp

lemma witness_calls:
  "witness_func L bin (witness_output L out (fold (witness_input L) ins
     (witness_init tag (witness_fresh g)))) = witness_of L tag ins out bin"
  by (cases "ins = []")
    (simp_all add: fold_witness_input witness_init_def witness_fresh_def witness_output_def
      witness_func_def witness_of_def)

subsection \<open>The length of a witness\<close>

lemma length_dump_hashes:
  assumes "crypto_sizes L"
  shows "length (dump_elements fp d skip (map (String \<circ> sha256_string L) ins)) \<le> 68 * length ins"
proof (induction ins arbitrary: skip)
  case (Cons i ins)
  from Cons [of False] assms show ?case by simp
qed simp

lemma witness_text_length:
  assumes "crypto_sizes L" "json_escape tag = tag"
  shows "length (json_dump fp (signed_witness L fp (witness_of L tag ins out bin))) \<le> 400 + length tag + 68 * length ins"
  using assms length_dump_hashes [OF assms(1), of fp "Suc (Suc 0)" True ins]
  by (simp add: signed_witness_def witness_of_def json_dump_def ed25519_sig_to_string_def crypto_sizes_def)

subsection \<open>Properties\<close>

text \<open>
  C23.  Completeness of the witness check: whatever calls an enclave made before, the witness text it
  finalises passes \<open>check_witness\<close>.
\<close>

theorem finalized_witness_checks:
  assumes "crypto_sizes L" "sig_correct L" "w_stage c \<noteq> 5"
  shows "check_witness fp L (fst (witness_finalize fp L c w)) = Inr True"
  using assms check_signed [OF assms(1)] by (simp add: witness_finalize_eq sig_correct_def)

theorem finalized_witness_checks_witness:
  "check_witness fp_example crypto_example (fst (witness_finalize fp_example crypto_example
     (witness_of crypto_example ''STEEMIT INDEXER'' [''a'', ''b''] ''c'' ''indexer'') [])) = Inr True"
  by (rule finalized_witness_checks) (simp_all add: crypto_example_ok witness_of_def)

text \<open>
  C24.  Tampering is detected.  A text that carries the signature of the witness of \<open>c\<close>, whatever else it contains and
  in whatever order and layout, passes the check if its tag, inputs, output and code hash are those of \<open>c\<close>, and fails
  it if one of them was changed.  The text parses to a value without floating-point numbers, and the statement it
  makes is not a different message for which the same signature verifies.
\<close>

theorem tampered_witness_rejected:
  assumes "crypto_sizes L" "sig_correct L" "sig_binds L (json_dump fp (witness_json c)) (json_dump fp (claimed j))"
    and "JSON_Load fp s = Inr j" "json_ok j"
    and "index_key ''SIG'' j = String (ed25519_sig_to_string (ed_sign L skey (json_dump fp (witness_json c))))"
  shows "check_witness fp L s = Inr (index_key ''TAG'' j = String (w_tag c) \<and>
    index_key ''IN'' j = Array (map String (w_ins c)) \<and>
    index_key ''OUT'' j = String (w_out c) \<and> index_key ''FUNC'' j = String (w_bin c))"
proof -
  let ?m = "json_dump fp (witness_json c)"
  have "check_witness fp L s = Inr (ed_verify L pkey (json_dump fp (claimed j)) (ed_sign L skey ?m))"
    using assms(1,4,6) sig_codec.dec_enc by (simp add: check_witness_eq crypto_sizes_def)
  moreover have "ed_verify L pkey (json_dump fp (claimed j)) (ed_sign L skey ?m) \<longleftrightarrow> json_dump fp (claimed j) = ?m"
    using assms(2,3) by (auto simp: sig_binds_def sig_correct_def)
  moreover have "json_dump fp (claimed j) = ?m \<longleftrightarrow> claimed j = witness_json c"
    using json_dump_inj [of fp "claimed j" "witness_json c"] json_ok_claimed [OF assms(5)] by (auto simp: claimed_def)
  ultimately show ?thesis by (auto simp: claimed_def witness_json_eq)
qed

text \<open>An instance in which one message has a signature of its own.\<close>

definition crypto_binding :: "string \<Rightarrow> crypto_lib" where
  "crypto_binding m0 = crypto_example\<lparr>
     ed_sign := \<lambda>k m. replicate 64 (if m = m0 then 1 else 0),
     ed_verify := \<lambda>p m s. s = replicate 64 (if m = m0 then 1 else 0)\<rparr>"

lemma crypto_binding_ok:
  "crypto_sizes (crypto_binding m)" "sig_correct (crypto_binding m)" "sig_binds (crypto_binding m) m m'"
  using crypto_example_ok by (auto simp: crypto_binding_def crypto_sizes_def sig_correct_def sig_binds_def)

theorem tampered_witness_rejected_witness:
  "check_witness fp_example (crypto_binding (json_dump fp_example (witness_json (witness_fresh 0))))
     (json_dump fp_example (set_key ''OUT'' (String ''other'') (signed_witness (crypto_binding
       (json_dump fp_example (witness_json (witness_fresh 0)))) fp_example (witness_fresh 0)))) = Inr False"
proof -
  let ?L = "crypto_binding (json_dump fp_example (witness_json (witness_fresh 0)))"
  let ?j = "set_key ''OUT'' (String ''other'') (signed_witness ?L fp_example (witness_fresh 0))"
  have ok: "json_ok ?j" by (rule json_ok_set_key) simp_all
  have k: "index_key k ?j = (if k = ''OUT'' then String ''other'' else index_key k (signed_witness ?L fp_example (witness_fresh 0)))" for k
    by (rule index_key_set_key) simp
  have "JSON_Load fp_example (json_dump fp_example ?j) = Inr ?j"
    by (rule Load_dump [OF ok]) (simp add: set_key_def)
  from tampered_witness_rejected [OF crypto_binding_ok this ok] k show ?thesis by (simp add: witness_fresh_def)
qed

end
