(* ===== verification/Manager.thy ===== *)
theory Manager
  imports Kanban Witness
begin

text \<open>
  Epochs (\<open>manager/manager.cpp\<close>, \<open>manager/main.cpp\<close>, and the readers in \<open>executor/App/epoch.cpp\<close> and
  \<open>client/utility.hpp\<close>, which are the same code): the epoch number is kept in Kanban as a signed packet;
  to end an epoch the manager waits for its witness keys, commits their root hash and signs the next number.

  \<open>srt\<close> is the \<open>std::sort\<close> with the comparison of last characters, which leaves the order of keys with the
  same last character to the library; manager and client use the same one.
\<close>

subsection \<open>Configuration\<close>

definition ITEMS_BULK_MAX :: nat where "ITEMS_BULK_MAX = 64"
definition ITEMS_POOL_MAX :: nat where "ITEMS_POOL_MAX = 16"
definition INDEX_BULK_MAX :: nat where "INDEX_BULK_MAX = 4"
definition INDEX_POOL_MAX :: nat where "INDEX_POOL_MAX = ITEMS_POOL_MAX div INDEX_BULK_MAX"
definition START_STEEM_BLOCK_ID :: int where "START_STEEM_BLOCK_ID = 62396745"

subsection \<open>Keys\<close>

definition witness_set_key :: "string \<Rightarrow> string" where
  "witness_set_key epoch = ''WITNESS-#EPOCH'' @ epoch"

definition root_hash_key :: "string \<Rightarrow> string" where
  "root_hash_key epoch = ''ROOT-HASH-#EPOCH'' @ epoch"

subsection \<open>The epoch packet\<close>

definition get_epoch :: "fp_lib \<Rightarrow> crypto_lib \<Rightarrow> string prog" where
  "get_epoch fp L =
     pbind (kb_get ''EPOCH'') (\<lambda>packet.
       case packet of
         None \<Rightarrow> Return ''-1''
       | Some string_epoch_packet \<Rightarrow>
           pbind (lift (lift_json (JSON_Load fp string_epoch_packet))) (\<lambda>epoch_packet.
             let string_sig = ToString (index_key ''SIG'' epoch_packet);
                 string_epoch = ToString (index_key ''EPOCH'' epoch_packet)
             in pbind (lift (ed25519_string_to_sig string_sig)) (\<lambda>sig.
                  Return (if ed_verify L pkey string_epoch sig then string_epoch else ''-1''))))"

definition lift_stoi :: "string \<Rightarrow> int prog" where
  "lift_stoi s = (case stoi s of Inl e \<Rightarrow> Raise (FNum e) | Inr i \<Rightarrow> Return i)"

definition get_epoch_int :: "fp_lib \<Rightarrow> crypto_lib \<Rightarrow> int prog" where
  "get_epoch_int fp L = pbind (get_epoch fp L) lift_stoi"

text \<open>The packet that is signed and stored.\<close>

definition epoch_packet :: "fp_lib \<Rightarrow> crypto_lib \<Rightarrow> string \<Rightarrow> string" where
  "epoch_packet fp L epoch =
     (let sig = ed25519_sig_to_string (ed_sign L skey epoch);
          j = set_key ''EPOCH'' (String epoch) Null;
          j = set_key ''SIG'' (String sig) j
      in json_dump fp j)"

definition init_epoch :: "fp_lib \<Rightarrow> crypto_lib \<Rightarrow> unit prog" where
  "init_epoch fp L =
     pbind (get_epoch fp L) (\<lambda>e.
       if ''-1'' \<noteq> e then Return () else kb_set ''EPOCH'' (epoch_packet fp L ''1''))"

subsection \<open>Ending an epoch\<close>

definition expected_key_size :: "int \<Rightarrow> nat" where
  "expected_key_size epoch =
     (if 1 = epoch then ITEMS_POOL_MAX
      else if 2 = epoch then ITEMS_POOL_MAX + INDEX_POOL_MAX
      else ITEMS_POOL_MAX + INDEX_POOL_MAX * 2)"

text \<open>\<open>s.back()\<close> of an empty string is undefined; the comparison runs when there are two keys or more.\<close>

definition omni_string :: "(string list \<Rightarrow> string list) \<Rightarrow> string set \<Rightarrow> string" where
  "omni_string srt witness_keys = concat (srt (sorted_list_of_set witness_keys))"

definition root_hash :: "(string list \<Rightarrow> string list) \<Rightarrow> crypto_lib \<Rightarrow> string set \<Rightarrow> fault + string" where
  "root_hash srt L witness_keys =
     (if [] \<in> witness_keys \<and> card witness_keys \<ge> 2 then Inl FRead
      else Inr (sha256_string L (omni_string srt witness_keys)))"

text \<open>The polling loop: the members of a set once there are enough.\<close>

definition wait_witness_keys :: "string \<Rightarrow> nat \<Rightarrow> string set prog" where
  "wait_witness_keys epoch_witness_key expected =
     Call (CSmembers epoch_witness_key)
       (\<lambda>r. case r of RKeys S \<Rightarrow> card S \<ge> expected | _ \<Rightarrow> True)
       (\<lambda>r. case r of RKeys S \<Rightarrow> Return S | _ \<Rightarrow> Raise FReply)"

definition increment_epoch :: "(string list \<Rightarrow> string list) \<Rightarrow> fp_lib \<Rightarrow> crypto_lib \<Rightarrow> unit prog" where
  "increment_epoch srt fp L =
     pbind (get_epoch fp L) (\<lambda>e.
     pbind (if ''-1'' = e then init_epoch fp L else Return ()) (\<lambda>_.
     pbind (get_epoch fp L) (\<lambda>current_epoch.
     pbind (get_epoch_int fp L) (\<lambda>current_epoch_int.
     pbind (wait_witness_keys (witness_set_key current_epoch) (expected_key_size current_epoch_int)) (\<lambda>witness_keys.
     pbind (lift (root_hash srt L witness_keys)) (\<lambda>root_hash.
     pbind (kb_set (root_hash_key current_epoch) root_hash) (\<lambda>_.
     pbind (get_epoch_int fp L) (\<lambda>n.
       if in_int (n + 1) then kb_set ''EPOCH'' (epoch_packet fp L (to_string (n + 1))) else Raise FIndet))))))))"

text \<open>
  The main program: before the loop, and one round with the static block number, whose signed
  overflow is undefined.
\<close>

definition manager_start :: "unit prog" where
  "manager_start = kb_set ''SHARDING-MAX'' (to_string (int INDEX_POOL_MAX))"

definition manager_round ::
  "(string list \<Rightarrow> string list) \<Rightarrow> fp_lib \<Rightarrow> crypto_lib \<Rightarrow> int \<Rightarrow> int prog" where
  "manager_round srt fp L steemit_block_id =
     pbind (kb_set ''Steemit-Block-ID'' (to_string steemit_block_id)) (\<lambda>_.
       let next = steemit_block_id + int (ITEMS_BULK_MAX * ITEMS_POOL_MAX) in
       if \<not> in_int next then Raise FIndet
       else pbind (increment_epoch srt fp L) (\<lambda>_. Return next))"

subsection \<open>Checking a root hash\<close>

definition strncmp_eq :: "nat \<Rightarrow> string \<Rightarrow> string \<Rightarrow> bool" where
  "strncmp_eq n a b \<longleftrightarrow> take n (c_str a) = take n (c_str b)"

definition check_root_hash :: "(string list \<Rightarrow> string list) \<Rightarrow> crypto_lib \<Rightarrow> int \<Rightarrow> bool prog" where
  "check_root_hash srt L epoch =
     pbind (kb_smembers (witness_set_key (to_string epoch))) (\<lambda>witness_keys.
     pbind (lift (root_hash srt L witness_keys)) (\<lambda>own_root_hash.
     pbind (kb_get (root_hash_key (to_string epoch))) (\<lambda>stored.
       case stored of None \<Rightarrow> Raise FIndet | Some h \<Rightarrow> Return (strncmp_eq 64 h own_root_hash))))"

subsection \<open>Lemmas\<close>

lemma key_neq [simp]:
  "witness_set_key a \<noteq> root_hash_key b" "root_hash_key b \<noteq> witness_set_key a"
  "witness_set_key a \<noteq> ''EPOCH''" "''EPOCH'' \<noteq> witness_set_key a"
  "root_hash_key a \<noteq> ''EPOCH''" "''EPOCH'' \<noteq> root_hash_key a"
  "witness_set_key a \<noteq> ''witness''" "''witness'' \<noteq> witness_set_key a"
  "root_hash_key a \<noteq> ''witness''" "''witness'' \<noteq> root_hash_key a"
  "witness_set_key a = witness_set_key b \<longleftrightarrow> a = b" "root_hash_key a = root_hash_key b \<longleftrightarrow> a = b"
  by (simp_all add: witness_set_key_def root_hash_key_def)

lemma escape_packet_fields [simp]: "json_escape ''EPOCH'' = ''EPOCH''"
  by (simp add: json_escape_def json_escape_char_def)

lemma epoch_packet_Load:
  "JSON_Load fp (epoch_packet fp L epoch) = Inr (Object [(''EPOCH'', String epoch),
     (''SIG'', String (ed25519_sig_to_string (ed_sign L skey epoch)))])"
  by (simp add: epoch_packet_def Let_def Load_dump)

text \<open>What the readers see: a store with a packet for the number \<open>e\<close>.\<close>

definition epoch_is :: "fp_lib \<Rightarrow> crypto_lib \<Rightarrow> int \<Rightarrow> kstore \<Rightarrow> bool" where
  "epoch_is fp L e s \<longleftrightarrow> s ''EPOCH'' = Some (KString (epoch_packet fp L (to_string e)))"

lemma run_get_epoch:
  assumes "crypto_sizes L" "sig_correct L" "epoch_is fp L e s"
  shows "run (get_epoch fp L) s = (Done (to_string e), s)"
  using assms sig_codec.dec_enc
  by (simp add: get_epoch_def kb_get_def getCommand_def epoch_is_def epoch_packet_Load crypto_sizes_def
      sig_correct_def Let_def)

lemma run_get_epoch_int:
  assumes "crypto_sizes L" "sig_correct L" "epoch_is fp L e s" "in_int e"
  shows "run (get_epoch_int fp L) s = (Done e, s)"
  using run_get_epoch [OF assms(1-3)] assms(4)
  by (simp add: get_epoch_int_def run_pbind lift_stoi_def roundtrip_simps)

lemma run_get_epoch_None: "s ''EPOCH'' = None \<Longrightarrow> run (get_epoch fp L) s = (Done ''-1'', s)"
  by (simp add: get_epoch_def kb_get_def getCommand_def)

definition members_of :: "kstore \<Rightarrow> string \<Rightarrow> string set" where
  "members_of s k = (case s k of Some (KSet S) \<Rightarrow> S | _ \<Rightarrow> {})"

definition is_set_key :: "kstore \<Rightarrow> string \<Rightarrow> bool" where
  "is_set_key s k \<longleftrightarrow> (case s k of None \<Rightarrow> True | Some (KSet S) \<Rightarrow> True | _ \<Rightarrow> False)"

lemma run_smembers: "is_set_key s k \<Longrightarrow> run (kb_smembers k) s = (Done (members_of s k), s)"
  by (auto simp: kb_smembers_def kb_smembersCommand_def is_set_key_def members_of_def split: option.splits kval.splits)

lemma run_wait_witness_keys:
  "is_set_key s k \<Longrightarrow> run (wait_witness_keys k n) s =
    (if card (members_of s k) \<ge> n then (Done (members_of s k), s) else (Hangs, s))"
  by (auto simp: wait_witness_keys_def kb_smembersCommand_def is_set_key_def members_of_def split: option.splits kval.splits)

lemma run_increment_epoch:
  assumes "crypto_sizes L" "sig_correct L" "epoch_is fp L e s" "in_int (e + 1)" "0 \<le> e"
    and "is_set_key s (witness_set_key (to_string e))" "[] \<notin> members_of s (witness_set_key (to_string e))"
  shows "run (increment_epoch srt fp L) s =
    (if card (members_of s (witness_set_key (to_string e))) < expected_key_size e then (Hangs, s)
     else (Done (), s(root_hash_key (to_string e) \<mapsto> KString (sha256_string L
             (omni_string srt (members_of s (witness_set_key (to_string e))))),
           ''EPOCH'' \<mapsto> KString (epoch_packet fp L (to_string (e + 1))))))"
proof -
  have e: "in_int e" using assms(4,5) by (simp add: in_int_def)
  have "hd (to_string e) \<noteq> CHR ''-''"
    using assms(5) hd_in_set_nat_to_string [of "nat e"] by (auto simp: to_string_def is_digit_def less_eq_char_def)
  then have m: "''-1'' \<noteq> to_string e" by (metis list.sel(1))
  let ?s = "s(root_hash_key (to_string e) \<mapsto> KString (sha256_string L
             (omni_string srt (members_of s (witness_set_key (to_string e))))))"
  have "epoch_is fp L e ?s" using assms(3) by (simp add: epoch_is_def)
  note g = run_get_epoch_int [OF assms(1,2) this e]
  show ?thesis
    by (simp add: increment_epoch_def run_pbind run_get_epoch [OF assms(1-3)] run_get_epoch_int [OF assms(1-3) e] m
        run_wait_witness_keys [OF assms(6)] root_hash_def assms(4,7) kb_set_def setCommand_def g not_le)
qed

text \<open>The committed value, and what the client compares it with.\<close>

lemma run_check_root_hash:
  assumes "is_set_key s (witness_set_key (to_string e))" "[] \<notin> members_of s (witness_set_key (to_string e))"
    and "s (root_hash_key (to_string e)) = Some (KString h)"
  shows "run (check_root_hash srt L e) s =
    (Done (strncmp_eq 64 h (sha256_string L (omni_string srt (members_of s (witness_set_key (to_string e)))))), s)"
  using assms by (simp add: check_root_hash_def run_pbind run_smembers root_hash_def kb_get_def getCommand_def)

lemma NUL_notin_sha256 [simp]: "NUL \<notin> set (sha256_string L m)"
  using hex_chars [of NUL] by (auto simp: sha256_string_def)

lemma strncmp_sha256:
  "crypto_sizes L \<Longrightarrow> strncmp_eq 64 (sha256_string L x) (sha256_string L y) \<longleftrightarrow> sha256_string L x = sha256_string L y"
  by (simp add: strncmp_eq_def)

lemma hex2_inj: "hex2 a = hex2 b \<Longrightarrow> a = b"
proof -
  assume "hex2 a = hex2 b"
  moreover have "unat x div 16 < 16" "unat x mod 16 < 16" for x :: byte
    using unsigned_less [of x, where 'a = nat] by simp_all
  ultimately have "unat a div 16 = unat b div 16" "unat a mod 16 = unat b mod 16"
    unfolding hex2_def by (metis digit_val_digit_char list.inject)+
  then have "unat a = unat b" by (metis div_mult_mod_eq)
  then show "a = b" by (simp add: word_unat_eq_iff)
qed

lemma concat_blocks_inj:
  assumes "concat xs = concat ys" "\<forall>x \<in> set xs \<union> set ys. length x = n" "0 < n"
  shows "xs = ys"
  using assms(1,2)
proof (induction xs arbitrary: ys)
  case Nil
  then show ?case using assms(3) by (cases ys) auto
next
  case (Cons x xs)
  then obtain y ys' where "ys = y # ys'" using assms(3) by (cases ys) auto
  with Cons show ?case by auto
qed

lemma sha256_string_inj:
  assumes "crypto_sizes L" "sha256_string L x = sha256_string L y"
  shows "sha256 L x = sha256 L y"
proof -
  have "concat (map hex2 (sha256 L x)) = concat (map hex2 (sha256 L y))"
    using assms by (simp add: sha256_string_def crypto_sizes_def)
  then have "map hex2 (sha256 L x) = map hex2 (sha256 L y)"
    by (rule concat_blocks_inj [where n = 2]) (auto simp: hex2_def)
  moreover have "inj hex2" by (simp add: inj_on_def hex2_inj)
  ultimately show ?thesis by (simp add: inj_map_eq_map)
qed

text \<open>What the development assumes of \<open>std::sort\<close>: it permutes its argument.\<close>

definition is_sort :: "(string list \<Rightarrow> string list) \<Rightarrow> bool" where
  "is_sort srt \<longleftrightarrow> (\<forall>xs. mset (srt xs) = mset xs)"

lemma length_concat_blocks: "\<forall>x \<in> set xs. length x = n \<Longrightarrow> length (concat xs) = n * length xs"
  by (induction xs) simp_all

lemma omni_string_inj:
  assumes "is_sort srt" "finite K" "finite K'" "\<forall>k \<in> K \<union> K'. length k = 64"
    and "omni_string srt K = omni_string srt K'"
  shows "K = K'"
proof -
  have m: "set (srt xs) = set xs" for xs using assms(1) by (metis is_sort_def set_mset_mset)
  have "srt (sorted_list_of_set K) = srt (sorted_list_of_set K')"
    using assms(2-5) by (intro concat_blocks_inj [where n = 64]) (auto simp: omni_string_def m)
  then show ?thesis using assms(2,3) by (metis m set_sorted_list_of_set)
qed

subsection \<open>Properties\<close>

text \<open>
  C11.  Ending an epoch, from a store that holds the packet of epoch \<open>e\<close>.  While the epoch has fewer
  witness keys than expected the manager keeps polling and changes nothing.  Otherwise it stops after
  writing the root hash and the next packet, and then every reader sees epoch \<open>e + 1\<close> and the check of
  the root hash of epoch \<open>e\<close> succeeds.
\<close>

theorem increment_epoch_commits:
  assumes "crypto_sizes L" "sig_correct L" "epoch_is fp L e s" "in_int (e + 1)" "0 \<le> e"
    and "is_set_key s (witness_set_key (to_string e))" "[] \<notin> members_of s (witness_set_key (to_string e))"
  shows "if card (members_of s (witness_set_key (to_string e))) < expected_key_size e
    then run (increment_epoch srt fp L) s = (Hangs, s)
    else \<exists>s'. run (increment_epoch srt fp L) s = (Done (), s') \<and>
      run (get_epoch_int fp L) s' = (Done (e + 1), s') \<and> run (check_root_hash srt L e) s' = (Done True, s') \<and>
      (\<forall>k. k \<noteq> ''EPOCH'' \<and> k \<noteq> root_hash_key (to_string e) \<longrightarrow> s' k = s k)"
proof -
  let ?w = "witness_set_key (to_string e)" and ?r = "root_hash_key (to_string e)"
  let ?h = "sha256_string L (omni_string srt (members_of s ?w))"
  define s' where "s' = s(?r \<mapsto> KString ?h, ''EPOCH'' \<mapsto> KString (epoch_packet fp L (to_string (e + 1))))"
  have s': "epoch_is fp L (e + 1) s'" "s' ?r = Some (KString ?h)" "s' ?w = s ?w"
    "\<forall>k. k \<noteq> ''EPOCH'' \<and> k \<noteq> ?r \<longrightarrow> s' k = s k"
    by (simp_all add: s'_def epoch_is_def)
  have "is_set_key s' ?w" "members_of s' ?w = members_of s ?w"
    using assms(6) s'(3) by (simp_all add: is_set_key_def members_of_def)
  from run_check_root_hash [OF this(1) _ s'(2), of srt L] this(2) assms(7)
  have "run (check_root_hash srt L e) s' = (Done True, s')" by (simp add: strncmp_eq_def)
  moreover note run_get_epoch_int [OF assms(1,2) s'(1) assms(4)] s'(4)
  moreover note run_increment_epoch [OF assms, of srt, folded s'_def]
  ultimately show ?thesis by (cases "card (members_of s ?w) < expected_key_size e") simp_all
qed

definition example_keys :: kstore where
  "example_keys = [''EPOCH'' \<mapsto> KString (epoch_packet fp_example crypto_example (to_string 1)),
     witness_set_key (to_string 1) \<mapsto> KSet ((\<lambda>i. replicate i CHR ''a'') ` {1..16})]"

theorem increment_epoch_commits_witness:
  "\<exists>s'. run (increment_epoch id fp_example crypto_example) example_keys = (Done (), s') \<and>
     run (get_epoch_int fp_example crypto_example) s' = (Done 2, s') \<and>
     run (check_root_hash id crypto_example 1) s' = (Done True, s')"
proof -
  have s: "epoch_is fp_example crypto_example 1 example_keys" "is_set_key example_keys (witness_set_key (to_string 1))"
    "members_of example_keys (witness_set_key (to_string 1)) = (\<lambda>i. replicate i CHR ''a'') ` {1..16}"
    "expected_key_size 1 = 16"
    by (simp_all add: example_keys_def epoch_is_def is_set_key_def members_of_def expected_key_size_def ITEMS_POOL_MAX_def)
  have "inj_on (\<lambda>i. replicate i CHR ''a'') {1..16}" by (auto simp: inj_on_def)
  then have c: "card ((\<lambda>i. replicate i CHR ''a'') ` {1..16 :: nat}) = 16" by (simp add: card_image)
  have "[] \<notin> (\<lambda>i. replicate i CHR ''a'') ` {1..16 :: nat}" by auto
  then show ?thesis
    using increment_epoch_commits [OF crypto_example_ok s(1) _ _ s(2), of id] c unfolding s(3,4) by (simp add: in_int_def) blast
qed

text \<open>
  C12.  A root hash binds the set of witness keys of its epoch: if two states of the store show the same
  root hash and both pass the check, they have the same witness keys.  A key that is added, removed or
  replaced after the commit makes the check fail.  Keys are hexadecimal digests of 64 characters, and the
  two concatenations are not a collision of SHA-256.
\<close>

theorem root_hash_binding:
  assumes "crypto_sizes L" "is_sort srt"
    and "run (check_root_hash srt L e) s = (Done True, s)" "run (check_root_hash srt L e) s' = (Done True, s')"
    and "s (root_hash_key (to_string e)) = s' (root_hash_key (to_string e))"
    and "\<forall>k \<in> K \<union> K'. length k = 64" "finite K" "finite K'"
    and "s (witness_set_key (to_string e)) = Some (KSet K)" "s' (witness_set_key (to_string e)) = Some (KSet K')"
    and "sha256 L (omni_string srt K) = sha256 L (omni_string srt K') \<longrightarrow> omni_string srt K = omni_string srt K'"
  shows "K = K'"
proof -
  have m: "is_set_key s (witness_set_key (to_string e))" "members_of s (witness_set_key (to_string e)) = K"
    "is_set_key s' (witness_set_key (to_string e))" "members_of s' (witness_set_key (to_string e)) = K'"
    using assms(9,10) by (simp_all add: is_set_key_def members_of_def)
  have n: "[] \<notin> K" "[] \<notin> K'" using assms(6) by force+
  obtain h where h: "s (root_hash_key (to_string e)) = Some (KString h)"
    using assms(3) n m
    by (auto simp: check_root_hash_def run_pbind run_smembers root_hash_def kb_get_def getCommand_def
        split: option.splits kval.splits)
  note c = run_check_root_hash [OF m(1) _ h, of srt L] run_check_root_hash [OF m(3) _ h [unfolded assms(5)], of srt L]
  have "strncmp_eq 64 h (sha256_string L (omni_string srt K))" "strncmp_eq 64 h (sha256_string L (omni_string srt K'))"
    using c assms(3,4) m n by simp_all
  then have "strncmp_eq 64 (sha256_string L (omni_string srt K)) (sha256_string L (omni_string srt K'))"
    by (simp add: strncmp_eq_def)
  then have "sha256 L (omni_string srt K) = sha256 L (omni_string srt K')"
    using strncmp_sha256 [OF assms(1)] sha256_string_inj [OF assms(1)] by blast
  with assms(11) have "omni_string srt K = omni_string srt K'" by blast
  from omni_string_inj [OF assms(2,7,8,6) this] show ?thesis .
qed

definition example_commit :: kstore where
  "example_commit = [witness_set_key (to_string 1) \<mapsto> KSet {replicate 64 CHR ''a''},
     root_hash_key (to_string 1) \<mapsto> KString (sha256_string crypto_example (replicate 64 CHR ''a''))]"

definition example_tampered :: kstore where
  "example_tampered = example_commit(witness_set_key (to_string 1) \<mapsto> KSet {replicate 64 CHR ''a'', replicate 64 CHR ''b''})"

theorem root_hash_binding_witness:
  "run (check_root_hash id crypto_example 1) example_commit = (Done True, example_commit) \<and>
   run (check_root_hash id crypto_example 1) example_tampered \<noteq> (Done True, example_tampered)"
proof -
  let ?K = "{replicate 64 CHR ''a''}" and ?K' = "{replicate 64 CHR ''a'', replicate 64 CHR ''b''}"
  have w: "example_commit (witness_set_key (to_string 1)) = Some (KSet ?K)"
      "example_tampered (witness_set_key (to_string 1)) = Some (KSet ?K')"
    and h: "example_commit (root_hash_key (to_string 1)) = Some (KString (sha256_string crypto_example (replicate 64 CHR ''a'')))"
      "example_commit (root_hash_key (to_string 1)) = example_tampered (root_hash_key (to_string 1))"
    by (simp_all add: example_commit_def example_tampered_def)
  have r: "run (check_root_hash id crypto_example 1) example_commit = (Done True, example_commit)"
    using run_check_root_hash [where s = example_commit and e = 1, OF _ _ h(1), of id crypto_example]
    by (simp add: is_set_key_def members_of_def w omni_string_def strncmp_eq_def)
  have "length (omni_string id ?K) = 64" "length (omni_string id ?K') = 128"
    by (simp_all add: omni_string_def length_concat_blocks [where n = 64])
  then have c: "sha256 crypto_example (omni_string id ?K) \<noteq> sha256 crypto_example (omni_string id ?K')"
    by (simp add: crypto_example_def)
  have "?K \<noteq> ?K'" by (simp add: replicate_eq_replicate)
  then show ?thesis
    using root_hash_binding [where s = example_commit and s' = example_tampered and e = 1,
        OF crypto_example_ok(1) _ r _ h(2) _ _ _ w] r c by (auto simp: is_sort_def)
qed

end
