(* ===== verification/Crawler.thy ===== *)
theory Crawler
  imports Witness
begin

text \<open>
  The crawler enclave (\<open>Enclave/enclave_crawler.cpp\<close>): it takes a batch of blocks, extracts the posts and returns
  them as a JSON array of strings together with a witness.  The theory also holds what all enclave
  entry points share: how a result is copied to a buffer of the caller.

  \<open>item_candidates\<close> is the static vector of the enclave, passed in and out; an exception leaves it filled, so the
  state is returned with success only.
\<close>

subsection \<open>Returning results\<close>

text \<open>
  An \<open>int\<close> compared with a \<open>size_t\<close> is converted first.  \<open>expose\<close> is the guarded \<open>memcpy\<close> to the caller's buffer:
  nothing is written when the announced size does not exceed the length of the data.
\<close>

definition size_t_of :: "int \<Rightarrow> nat" where
  "size_t_of i = nat (i mod 2 ^ 64)"

definition expose :: "string \<Rightarrow> bool \<Rightarrow> string \<Rightarrow> fault + string" where
  "expose buf enough data =
     (if enough then
        if length data \<le> length buf then Inr (data @ drop (length data) buf) else Inl FWrite
      else Inr buf)"

subsection \<open>Extracting posts\<close>

definition CRAWLER_TAG :: string where
  "CRAWLER_TAG = ''cralwer'' @ [NUL]"

definition create_cralwer_witness :: "fp_lib \<Rightarrow> crypto_lib \<Rightarrow> int \<Rightarrow> string list \<Rightarrow> string \<Rightarrow> string" where
  "create_cralwer_witness fp L g inputs output =
     (let crawler_context = witness_init ''STEEMIT CRAWLER'' (witness_fresh g);
          crawler_context = fold (witness_input L) inputs crawler_context;
          crawler_context = witness_output L output crawler_context;
          crawler_context = witness_func L CRAWLER_TAG crawler_context
      in fst (witness_finalize fp L crawler_context []))"

text \<open>\<open>arr[pos++] = item\<close> over a vector, from a null value.\<close>

definition string_array :: "string list \<Rightarrow> JSON" where
  "string_array items =
     fold (\<lambda>(pos, item) arr. set_index pos (String item) arr) (zip [0..<length items] items) Null"

definition parse_fake_item :: "fp_lib \<Rightarrow> string list \<Rightarrow> string" where
  "parse_fake_item fp inputs = json_dump fp (string_array inputs)"

definition parse_post :: "JSON \<Rightarrow> string list" where
  "parse_post post =
     (if ''comment_operation'' = ToString (index_key ''type'' post) then
        [ToString (index_key ''title'' (index_key ''value'' post)) @
         ''  '' @ ToString (index_key ''body'' (index_key ''value'' post))]
      else [])"

definition block_posts :: "JSON \<Rightarrow> string list" where
  "block_posts item =
     (let transactions = index_key ''transactions'' (index_key ''block'' (index_key ''result'' item))
      in concat (map (\<lambda>txn. concat (map parse_post (ArrayRange (index_key ''operations'' txn))))
           (ArrayRange transactions)))"

fun post_candidates :: "fp_lib \<Rightarrow> string list \<Rightarrow> fault + string list" where
  "post_candidates fp [] = Inr []"
| "post_candidates fp (item # items) =
     ebind (lift_json (JSON_Load fp item)) (\<lambda>j.
       ebind (post_candidates fp items) (\<lambda>ps. Inr (block_posts j @ ps)))"

definition parse_steemit_item :: "fp_lib \<Rightarrow> crypto_lib \<Rightarrow> string list \<Rightarrow> fault + string" where
  "parse_steemit_item fp L inputs =
     ebind (post_candidates fp inputs) (\<lambda>posts.
       ebind (if length posts = 0 then
                if inputs = [] then Inl FRead
                else ebind (lift_json (JSON_Load fp (inputs ! 0))) (\<lambda>item.
                       Inr [sha256_string L (json_dump fp item)])
              else Inr posts) (\<lambda>posts.
         Inr (json_dump fp (string_array posts))))"

subsection \<open>The entry point\<close>

definition ecall_parse_items ::
  "fp_lib \<Rightarrow> crypto_lib \<Rightarrow> int \<Rightarrow> bool \<Rightarrow> string list \<Rightarrow> string \<Rightarrow> string \<Rightarrow> int \<Rightarrow> string \<Rightarrow> int \<Rightarrow>
   fault + (string \<times> string \<times> string list)" where
  "ecall_parse_items fp L g use_steemit item_candidates app_input app_output app_output_size
       app_witness app_witness_size =
     ebind (Binary2Digest app_input (c_int (int (length app_input))) item_candidates) (\<lambda>item_candidates.
       ebind (if use_steemit then parse_steemit_item fp L item_candidates
              else Inr (parse_fake_item fp item_candidates)) (\<lambda>output.
         let witness = create_cralwer_witness fp L g item_candidates output in
         ebind (expose app_output (size_t_of app_output_size > length output) output) (\<lambda>app_output.
           ebind (expose app_witness (size_t_of app_witness_size > length witness) witness) (\<lambda>app_witness.
             Inr (app_output, app_witness, [])))))"

subsection \<open>Lemmas\<close>

lemma expose_exact: "length data \<le> length buf \<Longrightarrow> expose buf True data = Inr (data @ drop (length data) buf)"
  by (simp add: expose_def)

lemma expose_take: "expose buf True data = Inr r \<Longrightarrow> take (length data) r = data"
  by (auto simp: expose_def split: if_splits)

lemma set_index_append: "set_index (length xs) v (Array xs) = Array (xs @ [v])"
  by (simp add: set_index_def SetType_def)

lemma string_array_step:
  "fold (\<lambda>(pos, item) arr. set_index pos (String item) arr) (zip [length xs..<length xs + length items] items) (Array xs) =
     Array (xs @ map String items)"
proof (induction items arbitrary: xs)
  case (Cons a items)
  from Cons [of "xs @ [String a]"] show ?case
    by (simp add: upt_conv_Cons set_index_append del: upt_Suc)
qed simp

lemma string_array_eq: "string_array items = (if items = [] then Null else Array (map String items))"
proof (cases items)
  case (Cons a as)
  have "set_index 0 (String a) Null = Array [String a]" by (simp add: set_index_def SetType_def)
  with Cons string_array_step [of "[String a]" as] show ?thesis
    by (simp add: string_array_def upt_conv_Cons del: upt_Suc)
qed (simp add: string_array_def)

lemma Load_string_array:
  "JSON_Load fp (json_dump fp (string_array items)) = Inr (if items = [] then Null else Array (map String items))"
  by (auto simp: string_array_eq intro!: Load_dump)

lemma create_cralwer_witness_eq:
  "create_cralwer_witness fp L g inputs output =
     json_dump fp (signed_witness L fp (witness_of L ''STEEMIT CRAWLER'' inputs output CRAWLER_TAG))"
  using witness_calls [of L CRAWLER_TAG "output" inputs "''STEEMIT CRAWLER''" g]
  by (simp add: create_cralwer_witness_def Let_def witness_finalize_eq witness_of_def)

lemma crawler_witness_length:
  assumes "crypto_sizes L"
  shows "length (create_cralwer_witness fp L g inputs out) \<le> 415 + 68 * length inputs"
  using witness_text_length [OF assms, of "''STEEMIT CRAWLER''"]
  by (simp add: create_cralwer_witness_eq json_escape_def json_escape_char_def)

lemma Load_null: "JSON_Load fp ''null'' = Inr Null"
  using Load_dump [of Null fp] by (simp add: json_dump_def)

lemma post_candidates_append:
  "post_candidates fp (xs @ ys) =
     ebind (post_candidates fp xs) (\<lambda>p. ebind (post_candidates fp ys) (\<lambda>q. Inr (p @ q)))"
proof (induction xs)
  case Nil
  then show ?case by (cases "post_candidates fp ys") simp_all
next
  case (Cons x xs)
  then show ?case
    by (cases "lift_json (JSON_Load fp x)"; cases "post_candidates fp xs"; cases "post_candidates fp ys") simp_all
qed

lemma parse_steemit_item_Inr:
  assumes "parse_steemit_item fp L inputs = Inr out"
  obtains posts item where "post_candidates fp inputs = Inr posts"
    "out = json_dump fp (string_array (if posts = [] then [sha256_string L (json_dump fp item)] else posts))"
    "posts = [] \<longrightarrow> inputs \<noteq> [] \<and> JSON_Load fp (hd inputs) = Inr item"
proof -
  from assms obtain posts ps where p: "post_candidates fp inputs = Inr posts"
    "(if length posts = 0 then if inputs = [] then Inl FRead
      else ebind (lift_json (JSON_Load fp (inputs ! 0))) (\<lambda>item. Inr [sha256_string L (json_dump fp item)])
      else Inr posts) = Inr ps" "out = json_dump fp (string_array ps)"
    unfolding parse_steemit_item_def by auto
  show ?thesis
  proof (cases "posts = []")
    case True
    with p(2) obtain item where "JSON_Load fp (hd inputs) = Inr item" "ps = [sha256_string L (json_dump fp item)]" "inputs \<noteq> []"
      by (auto simp: lift_json_def hd_conv_nth split: if_splits sum.splits)
    with True p show ?thesis by (intro that [of posts item]) auto
  qed (use p that in auto)
qed

subsection \<open>Properties\<close>

text \<open>
  C15. The output of the crawler is a JSON text from which the next stage reads back exactly the posts of all
  blocks of the batch, in order, and when there are none exactly one document, the hash of the
  first block, so that the output never is an empty array.
\<close>

theorem crawler_documents:
  assumes "parse_steemit_item fp L inputs = Inr out" "post_candidates fp inputs = Inr posts"
  shows "\<exists>item. JSON_Load fp out = Inr (Array (map String
      (if posts = [] then [sha256_string L (json_dump fp item)] else posts))) \<and>
    (posts = [] \<longrightarrow> JSON_Load fp (hd inputs) = Inr item)"
proof -
  obtain posts' item where "post_candidates fp inputs = Inr posts'"
    "out = json_dump fp (string_array (if posts' = [] then [sha256_string L (json_dump fp item)] else posts'))"
    "posts' = [] \<longrightarrow> inputs \<noteq> [] \<and> JSON_Load fp (hd inputs) = Inr item"
    using parse_steemit_item_Inr [OF assms(1)] by metis
  with assms(2) show ?thesis by (auto simp: Load_string_array)
qed

definition example_block :: JSON where
  "example_block = Object [(''result'', Object [(''block'', Object [(''transactions'',
     Array [Object [(''operations'', Array [Object [(''type'', String ''comment_operation''),
       (''value'', Object [(''body'', String ''b''), (''title'', String ''t'')])]])]])])])]"

lemma example_block_ok: "JSON_Load fp (json_dump fp example_block) = Inr example_block"
  "block_posts example_block = [''t  b'']"
  by (auto simp: example_block_def block_posts_def parse_post_def ArrayRange_def json_escape_def
      json_escape_char_def intro!: Load_dump)

theorem crawler_documents_witness:
  "\<exists>item. JSON_Load fp_example (json_dump fp_example (string_array [''t  b''])) = Inr (Array (map String
      (if [''t  b''] = [] then [sha256_string crypto_example (json_dump fp_example item)] else [''t  b'']))) \<and>
    ([''t  b''] = [] \<longrightarrow> JSON_Load fp_example (hd [json_dump fp_example example_block]) = Inr item)"
  by (rule crawler_documents) (simp_all add: parse_steemit_item_def example_block_ok)

text \<open>
  C14. A call of the crawler enclave on the binary form of the items, of less than \<open>2 ^ 31\<close> bytes, with large enough
  buffers returns the document text and a witness that passes the client's check and records the hash of every item of
  the input and of the returned text; the list of candidates is empty afterwards, so that the next call starts afresh.
\<close>

theorem crawler_call:
  assumes "crypto_sizes L" "sig_correct L" "digests_ok items" "digest_total items < 2 ^ 31"
    and "parse_steemit_item fp L items = Inr output"
    and "size_t_of osz > length output" "length output \<le> length obuf"
    and "size_t_of wsz > length (create_cralwer_witness fp L g items output)"
    and "length (create_cralwer_witness fp L g items output) \<le> length wbuf"
  shows "\<exists>o' w'. ebind (Digest2Binary items) (\<lambda>input. ecall_parse_items fp L g True [] input obuf osz wbuf wsz) =
      Inr (o', w', []) \<and>
    take (length output) o' = output \<and>
    (let w = take (length (create_cralwer_witness fp L g items output)) w' in
       check_witness fp L w = Inr True \<and>
       w = json_dump fp (signed_witness L fp (witness_of L ''STEEMIT CRAWLER'' items output CRAWLER_TAG)))"
proof -
  have "Binary2Digest (digest_bytes items) (c_int (int (length (digest_bytes items)))) [] = Inr items"
    using Binary2Digest_input [OF assms(3,4), of "[]"] by simp
  then show ?thesis
    using assms(4-9) check_signed [OF assms(1)] assms(2)
    by (simp add: Digest2Binary_fits ecall_parse_items_def Let_def expose_exact create_cralwer_witness_eq sig_correct_def)
qed

theorem crawler_call_witness:
  "\<exists>o' w'. ebind (Digest2Binary [''null'']) (\<lambda>input. ecall_parse_items fp_example crypto_example 0 True [] input
     (replicate 1000 NUL) 1000 (replicate 1000 NUL) 1000) = Inr (o', w', [])"
proof -
  let ?out = "json_dump fp_example (string_array [sha256_string crypto_example ''null''])"
  have p: "parse_steemit_item fp_example crypto_example [''null''] = Inr ?out"
    by (simp add: parse_steemit_item_def Load_null block_posts_def ArrayRange_def index_key_def SetType_def json_dump_def)
  have o: "length ?out < 1000" by (simp add: string_array_eq json_dump_def crypto_example_ok)
  have w: "length (create_cralwer_witness fp_example crypto_example 0 [''null''] ?out) < 1000"
    using crawler_witness_length [OF crypto_example_ok(1), of fp_example 0 "[''null'']" ?out] by simp
  have d: "digests_ok [''null'']" "digest_total [''null''] < 2 ^ 31" by (simp_all add: digests_ok_def TEMP_DIGEST_LEN_def)
  have s: "size_t_of 1000 = 1000" by (simp add: size_t_of_def)
  have "\<exists>o' w'. ebind (Digest2Binary [''null'']) (\<lambda>input. ecall_parse_items fp_example crypto_example 0 True [] input
      (replicate 1000 NUL) 1000 (replicate 1000 NUL) 1000) = Inr (o', w', []) \<and>
      take (length ?out) o' = ?out \<and>
      (let w = take (length (create_cralwer_witness fp_example crypto_example 0 [''null''] ?out)) w' in
       check_witness fp_example crypto_example w = Inr True \<and>
       w = json_dump fp_example (signed_witness crypto_example fp_example
         (witness_of crypto_example ''STEEMIT CRAWLER'' [''null''] ?out CRAWLER_TAG)))"
    by (rule crawler_call [OF crypto_example_ok d p]) (use o w s in simp_all)
  then show ?thesis by (elim exE conjE) (rule exI, rule exI)
qed

end
