(* ===== verification/Auditor.thy ===== *)
theory Auditor
  imports Manager Crawler
begin

text \<open>
  The local auditor (\<open>client/local_auditor.cpp\<close>): given the inputs of a querier's witness, it loads all
  witnesses from Kanban, walks from the inputs to the leaves of the witness graph and checks that every item
  crawled two epochs ago or earlier is among the leaves.

  \<open>ord\<close> is the iteration order of an \<open>unordered_map\<close>.  The walk is a loop without a bound: \<open>audit_leaves\<close> is
  \<open>None\<close> where it does not end.
\<close>

record audit_state =
  verify_cache :: "string list"
  verify_epoch :: int

definition json_ins :: "fp_lib \<Rightarrow> string \<Rightarrow> fault + string list" where
  "json_ins fp w =
     ebind (lift_json (JSON_Load fp w)) (\<lambda>j. Inr (map ToString (ArrayRange (index_key ''IN'' j))))"

definition verdict :: "string \<Rightarrow> bool \<Rightarrow> string" where
  "verdict epoch pass =
     ''epoch '' @ epoch @
     (if pass then '': end-to-end witness (completeness + freshness) verification pass''
      else '': end-to-end witness (completeness + freshness) verification fail'')"

text \<open>
  Step 1.  A witness that fails the check is erased from the map that the range-based loop iterates over; the
  loop then uses the erased node.
\<close>

fun audit_check :: "fp_lib \<Rightarrow> crypto_lib \<Rightarrow> (string \<times> string) list \<Rightarrow> fault + unit" where
  "audit_check fp L [] = Inr ()"
| "audit_check fp L (w # ws) =
     ebind (check_witness fp L (snd w)) (\<lambda>ok. if \<not> ok then Inl FRead else audit_check fp L ws)"

text \<open>Step 2.\<close>

partial_function (option) audit_leaves ::
  "fp_lib \<Rightarrow> (string \<times> string) list \<Rightarrow> string list \<Rightarrow> string set \<Rightarrow> (fault + string set) option" where
  "audit_leaves fp kb_witness scratch_pad leaves_set =
     (if scratch_pad = [] then Some (Inr leaves_set)
      else let top = last scratch_pad; scratch_pad = butlast scratch_pad in
        (case map_of kb_witness top of
           None \<Rightarrow> audit_leaves fp kb_witness scratch_pad (insert top leaves_set)
         | Some parent \<Rightarrow>
             (case json_ins fp parent of
                Inl e \<Rightarrow> Some (Inl e)
              | Inr ins \<Rightarrow> audit_leaves fp kb_witness (scratch_pad @ ins) leaves_set)))"

text \<open>Step 3.\<close>

definition audit_keys :: "(string list \<Rightarrow> string list) \<Rightarrow> crypto_lib \<Rightarrow> int \<Rightarrow> string set prog" where
  "audit_keys srt L current_epoch =
     pfold (\<lambda>e witness_keys.
         pbind (check_root_hash srt L e) (\<lambda>ok.
           if \<not> ok then Return witness_keys
           else pbind (kb_smembers (witness_set_key (to_string e))) (\<lambda>ks. Return (witness_keys \<union> ks))))
       [1..current_epoch - 2] {}"

text \<open>Step 4.\<close>

fun audit_items :: "fp_lib \<Rightarrow> string \<Rightarrow> (string \<times> string) list \<Rightarrow> fault + string set" where
  "audit_items fp func [] = Inr {}"
| "audit_items fp func (k # ks) =
     (if sublist func (snd k) then
        ebind (json_ins fp (snd k)) (\<lambda>ins. ebind (audit_items fp func ks) (\<lambda>items. Inr (set ins \<union> items)))
      else audit_items fp func ks)"

definition well_witness :: "(string \<times> string) list \<Rightarrow> string set \<Rightarrow> (string \<times> string) list" where
  "well_witness kb_witness witness_keys =
     map (\<lambda>k. (k, case map_of kb_witness k of None \<Rightarrow> [] | Some w \<Rightarrow> w)) (sorted_list_of_set witness_keys)"

definition do_local_verify ::
  "(string list \<Rightarrow> string list) \<Rightarrow> ((string \<times> string) list \<Rightarrow> (string \<times> string) list) \<Rightarrow> fp_lib \<Rightarrow> crypto_lib \<Rightarrow>
   audit_state \<Rightarrow> string \<Rightarrow> string \<Rightarrow> (audit_state \<times> string) prog" where
  "do_local_verify srt ord fp L st needs_to_verify verify_results =
     pbind (get_epoch fp L) (\<lambda>current_epoch.
     pbind (get_epoch_int fp L) (\<lambda>current_epoch_int.
     if current_epoch_int < 3 then Return (st, verify_results) else
     pbind (lift (json_ins fp needs_to_verify)) (\<lambda>scratch_pad.
     let cnt_v = length (filter (\<lambda>s. s \<in> set (verify_cache st)) scratch_pad) in
     pbind (get_epoch_int fp L) (\<lambda>epoch1.
     if epoch1 = verify_epoch st \<and> 0 \<noteq> length (verify_cache st) \<and> length (verify_cache st) = cnt_v
     then Return (st, verdict current_epoch True) else
     pbind (get_epoch_int fp L) (\<lambda>epoch2.
     let st = (if epoch2 \<noteq> verify_epoch st then st\<lparr>verify_cache := []\<rparr> else st) in
     pbind (kb_hgetall ''witness'') (\<lambda>kb_witness.
     pbind (lift (audit_check fp L (ord kb_witness))) (\<lambda>_.
     case audit_leaves fp kb_witness scratch_pad {} of None \<Rightarrow> Diverge | Some r \<Rightarrow>
     pbind (lift r) (\<lambda>leaves_set.
     pbind (audit_keys srt L current_epoch_int) (\<lambda>witness_keys.
     pbind (lift (audit_items fp (sha256_string L CRAWLER_TAG) (ord (well_witness kb_witness witness_keys)))) (\<lambda>items_set.
     if items_set - leaves_set = {} then
       pbind (get_epoch_int fp L) (\<lambda>epoch3.
         Return (st\<lparr>verify_cache := scratch_pad, verify_epoch := epoch3\<rparr>, verdict current_epoch True))
     else Return (st, verdict current_epoch False)))))))))))"

text \<open>The request that the web client composes from the inputs it has collected.\<close>

definition verify_request :: "fp_lib \<Rightarrow> string list \<Rightarrow> string" where
  "verify_request fp witness_in_list =
     json_dump fp (fold (\<lambda>i j. set_key ''IN'' (json_append (String i) (index_key ''IN'' j)) j) witness_in_list
       (set_key ''IN'' (Make CArray) Null))"

subsection \<open>The witness graph\<close>

text \<open>The inputs named by the witness that is stored under a key.\<close>

definition kids :: "fp_lib \<Rightarrow> (string \<times> string) list \<Rightarrow> string \<Rightarrow> string list" where
  "kids fp kbw k =
     (case map_of kbw k of None \<Rightarrow> [] | Some w \<Rightarrow> (case json_ins fp w of Inl e \<Rightarrow> [] | Inr ins \<Rightarrow> ins))"

definition edges :: "fp_lib \<Rightarrow> (string \<times> string) list \<Rightarrow> (string \<times> string) set" where
  "edges fp kbw = {(k, c). c \<in> set (kids fp kbw k)}"

definition leaf_set :: "fp_lib \<Rightarrow> (string \<times> string) list \<Rightarrow> string set \<Rightarrow> string set" where
  "leaf_set fp kbw S = {l. map_of kbw l = None \<and> (\<exists>k \<in> S. (k, l) \<in> (edges fp kbw)\<^sup>*)}"

lemma leaf_set_empty [simp]: "leaf_set fp kbw {} = {}"
  by (simp add: leaf_set_def)

lemma leaf_set_Un: "leaf_set fp kbw (A \<union> B) = leaf_set fp kbw A \<union> leaf_set fp kbw B"
  by (auto simp: leaf_set_def)

lemma leaf_set_leaf: "map_of kbw k = None \<Longrightarrow> leaf_set fp kbw {k} = {k}"
  by (auto simp: leaf_set_def edges_def kids_def elim: converse_rtranclE)

lemma leaf_set_node:
  assumes "map_of kbw k = Some w"
  shows "leaf_set fp kbw {k} = leaf_set fp kbw (set (kids fp kbw k))"
proof -
  have "(k, l) \<in> (edges fp kbw)\<^sup>* \<longleftrightarrow> (\<exists>c \<in> set (kids fp kbw k). (c, l) \<in> (edges fp kbw)\<^sup>*)" if "map_of kbw l = None" for l
  proof
    assume "(k, l) \<in> (edges fp kbw)\<^sup>*"
    moreover have "k \<noteq> l" using assms that by auto
    ultimately show "\<exists>c \<in> set (kids fp kbw k). (c, l) \<in> (edges fp kbw)\<^sup>*"
      by (auto simp: edges_def elim: converse_rtranclE)
  next
    assume "\<exists>c \<in> set (kids fp kbw k). (c, l) \<in> (edges fp kbw)\<^sup>*"
    then show "(k, l) \<in> (edges fp kbw)\<^sup>*" by (auto simp: edges_def intro: converse_rtrancl_into_rtrancl)
  qed
  then show ?thesis by (auto simp: leaf_set_def)
qed

text \<open>All stored witnesses parse, and \<open>rank\<close> decreases from a key to the inputs of its witness.\<close>

definition readable :: "fp_lib \<Rightarrow> (string \<times> string) list \<Rightarrow> bool" where
  "readable fp kbw \<longleftrightarrow> (\<forall>k w. map_of kbw k = Some w \<longrightarrow> (\<exists>ins. json_ins fp w = Inr ins))"

definition ranked :: "(string \<Rightarrow> nat) \<Rightarrow> fp_lib \<Rightarrow> (string \<times> string) list \<Rightarrow> bool" where
  "ranked rank fp kbw \<longleftrightarrow> (\<forall>(k, c) \<in> edges fp kbw. rank c < rank k)"

lemma mset_butlast: "xs \<noteq> [] \<Longrightarrow> mset xs = add_mset (last xs) (mset (butlast xs))"
  by (metis add_mset_add_single append_butlast_last_id mset_append mset_single_iff_right mset.simps(1) mset.simps(2))

lemma audit_leaves_correct:
  assumes "readable fp kbw" "ranked rank fp kbw"
  shows "audit_leaves fp kbw pad leaves = Some (Inr (leaves \<union> leaf_set fp kbw (set pad)))"
proof -
  have "wf (inv_image (mult less_than) (\<lambda>pad. image_mset rank (mset pad)))" by (intro wf_inv_image wf_mult wf_less_than)
  then show ?thesis
  proof (induction pad arbitrary: leaves rule: wf_induct_rule)
    case (less pad)
    show ?case
    proof (cases "pad = []")
      case False
      let ?top = "last pad" and ?pad = "butlast pad"
      have m: "image_mset rank (mset pad) = add_mset (rank ?top) (image_mset rank (mset ?pad))"
        using mset_butlast [OF False] by simp
      have "set pad = set ?pad \<union> {?top}" using False by (metis append_butlast_last_id set_append list.set)
      then have ls: "leaf_set fp kbw (set pad) = leaf_set fp kbw (set ?pad) \<union> leaf_set fp kbw {?top}" by (metis leaf_set_Un)
      show ?thesis
      proof (cases "map_of kbw ?top")
        case None
        have "(?pad, pad) \<in> inv_image (mult less_than) (\<lambda>pad. image_mset rank (mset pad))"
          using one_step_implies_mult [of "{#rank ?top#}" "{#}" less_than "image_mset rank (mset ?pad)"] m by simp
        from less.IH [OF this] None False ls leaf_set_leaf [OF None, of fp] show ?thesis
          by (subst audit_leaves.simps) (simp add: Un_ac)
      next
        case (Some w)
        with assms(1) obtain ins where i: "json_ins fp w = Inr ins" by (auto simp: readable_def)
        then have k: "kids fp kbw ?top = ins" using Some by (simp add: kids_def)
        then have "\<forall>c \<in> set ins. rank c < rank ?top" using assms(2) by (auto simp: ranked_def edges_def)
        then have "(?pad @ ins, pad) \<in> inv_image (mult less_than) (\<lambda>pad. image_mset rank (mset pad))"
          using one_step_implies_mult [of "{#rank ?top#}" "image_mset rank (mset ins)" less_than "image_mset rank (mset ?pad)"] m
          by (auto simp: add.commute)
        from less.IH [OF this] Some i k False ls leaf_set_node [OF Some, of fp] show ?thesis
          by (subst audit_leaves.simps) (simp add: leaf_set_Un Un_ac)
      qed
    qed (simp add: audit_leaves.simps)
  qed
qed

subsection \<open>The audited items\<close>

definition committed :: "kstore \<Rightarrow> int \<Rightarrow> bool" where
  "committed s e \<longleftrightarrow> is_set_key s (witness_set_key (to_string e)) \<and>
     [] \<notin> members_of s (witness_set_key (to_string e)) \<and> finite (members_of s (witness_set_key (to_string e))) \<and>
     (\<exists>h. s (root_hash_key (to_string e)) = Some (KString h))"

definition audited_keys :: "(string list \<Rightarrow> string list) \<Rightarrow> crypto_lib \<Rightarrow> kstore \<Rightarrow> int set \<Rightarrow> string set" where
  "audited_keys srt L s es =
     \<Union> {members_of s (witness_set_key (to_string e)) | e. e \<in> es \<and> run (check_root_hash srt L e) s = (Done True, s)}"

text \<open>The inputs of the crawler witnesses stored under the given keys.\<close>

definition crawled :: "fp_lib \<Rightarrow> crypto_lib \<Rightarrow> (string \<times> string) list \<Rightarrow> string set \<Rightarrow> string set" where
  "crawled fp L kbw K =
     {c. \<exists>k \<in> K. \<exists>w. map_of kbw k = Some w \<and> sublist (sha256_string L CRAWLER_TAG) w \<and> c \<in> set (kids fp kbw k)}"

lemma run_audit_keys:
  assumes "\<And>e. 1 \<le> e \<Longrightarrow> e \<le> n - 2 \<Longrightarrow> committed s e"
  shows "run (audit_keys srt L n) s = (Done (audited_keys srt L s {1..n - 2}), s)"
proof -
  let ?ok = "\<lambda>e. run (check_root_hash srt L e) s = (Done True, s)"
  let ?g = "\<lambda>e K. if ?ok e then K \<union> members_of s (witness_set_key (to_string e)) else K"
  have "run (audit_keys srt L n) s = (Done (fold ?g [1..n - 2] {}), s)"
    unfolding audit_keys_def
  proof (rule run_pfold_Done)
    fix e K assume "e \<in> set [1..n - 2]"
    with assms have c: "committed s e" by simp
    then obtain b where "run (check_root_hash srt L e) s = (Done b, s)"
      using run_check_root_hash [of s e _ srt L] by (auto simp: committed_def)
    with c show "run (pbind (check_root_hash srt L e) (\<lambda>ok. if \<not> ok then Return K
        else pbind (kb_smembers (witness_set_key (to_string e))) (\<lambda>ks. Return (K \<union> ks)))) s = (Done (?g e K), s)"
      by (simp add: run_pbind run_smembers committed_def)
  qed
  moreover have "fold ?g es K = K \<union> audited_keys srt L s (set es)" for es K
  proof (induction es arbitrary: K)
    case (Cons e es)
    have "audited_keys srt L s (set (e # es)) =
        (if ?ok e then members_of s (witness_set_key (to_string e)) else {}) \<union> audited_keys srt L s (set es)"
      unfolding audited_keys_def by auto
    with Cons show ?case by (simp add: Un_assoc)
  qed (simp add: audited_keys_def)
  ultimately show ?thesis by simp
qed

lemma audit_items_eq:
  assumes "\<And>k. k \<in> set ks \<Longrightarrow> sublist func (snd k) \<Longrightarrow> \<exists>ins. json_ins fp (snd k) = Inr ins"
  shows "\<exists>items. audit_items fp func ks = Inr items \<and>
    (\<forall>x. x \<in> items \<longleftrightarrow> (\<exists>k \<in> set ks. sublist func (snd k) \<and> (\<exists>ins. json_ins fp (snd k) = Inr ins \<and> x \<in> set ins)))"
  using assms
proof (induction ks)
  case (Cons k ks)
  then obtain items where i: "audit_items fp func ks = Inr items"
    "\<forall>x. x \<in> items \<longleftrightarrow> (\<exists>k \<in> set ks. sublist func (snd k) \<and> (\<exists>ins. json_ins fp (snd k) = Inr ins \<and> x \<in> set ins))"
    by auto
  show ?case
  proof (cases "sublist func (snd k)")
    case True
    with Cons.prems obtain ins where "json_ins fp (snd k) = Inr ins" by (meson list.set_intros(1))
    with True i show ?thesis by (simp add: bex_simps(5))
  next
    case False
    with i show ?thesis by simp
  qed
qed simp

lemma audit_items_well:
  assumes "readable fp kbw" "finite K" "\<And>xs. set (ord xs) = set xs" "crypto_sizes L"
  shows "audit_items fp (sha256_string L CRAWLER_TAG) (ord (well_witness kbw K)) = Inr (crawled fp L kbw K)"
proof -
  let ?f = "sha256_string L CRAWLER_TAG"
  let ?w = "\<lambda>k. case map_of kbw k of None \<Rightarrow> [] | Some w \<Rightarrow> w"
  have "length ?f = 64" using assms(4) by simp
  then have ne: "\<not> sublist ?f []" by auto
  have m: "set (ord (well_witness kbw K)) = (\<lambda>k. (k, ?w k)) ` K"
    using assms(2,3) by (simp add: well_witness_def)
  have r: "\<exists>ins. json_ins fp (?w k) = Inr ins" if "sublist ?f (?w k)" for k
    using that assms(1) ne by (cases "map_of kbw k") (auto simp: readable_def)
  have c: "x \<in> crawled fp L kbw K \<longleftrightarrow> (\<exists>k \<in> K. sublist ?f (?w k) \<and> (\<exists>ins. json_ins fp (?w k) = Inr ins \<and> x \<in> set ins))" for x
    unfolding crawled_def mem_Collect_eq
  proof (rule bex_cong [OF refl])
    fix k
    show "(\<exists>w. map_of kbw k = Some w \<and> sublist ?f w \<and> x \<in> set (kids fp kbw k)) \<longleftrightarrow>
        sublist ?f (?w k) \<and> (\<exists>ins. json_ins fp (?w k) = Inr ins \<and> x \<in> set ins)"
      using r [of k] ne by (cases "map_of kbw k") (auto simp: kids_def)
  qed
  have p: "\<exists>ins. json_ins fp (snd x) = Inr ins" if "x \<in> set (ord (well_witness kbw K))" "sublist ?f (snd x)" for x
    using that r unfolding m by force
  obtain items where i: "audit_items fp ?f (ord (well_witness kbw K)) = Inr items"
    "\<forall>x. x \<in> items \<longleftrightarrow> (\<exists>k \<in> set (ord (well_witness kbw K)). sublist ?f (snd k) \<and> (\<exists>ins. json_ins fp (snd k) = Inr ins \<and> x \<in> set ins))"
    using audit_items_eq [of "ord (well_witness kbw K)" ?f fp, OF p] by blast
  then have "items = crawled fp L kbw K" unfolding set_eq_iff c m by simp
  with i(1) show ?thesis by simp
qed

lemma audit_check_ok: "(\<And>w. w \<in> set ws \<Longrightarrow> check_witness fp L (snd w) = Inr True) \<Longrightarrow> audit_check fp L ws = Inr ()"
  by (induction ws) simp_all

lemma check_readable: "check_witness fp L w = Inr b \<Longrightarrow> \<exists>ins. json_ins fp w = Inr ins"
  by (cases "JSON_Load fp w") (simp_all add: check_witness_eq json_ins_def lift_json_def)

lemma checked_readable: "\<forall>w \<in> set kbw. check_witness fp L (snd w) = Inr True \<Longrightarrow> readable fp kbw"
  using check_readable by (fastforce simp: readable_def dest!: map_of_SomeD)

lemma finite_audited_keys:
  assumes "\<forall>e \<in> {1..n}. committed s e"
  shows "finite (audited_keys srt L s {1..n})"
proof -
  have "audited_keys srt L s {1..n} \<subseteq> (\<Union>e \<in> {1..n}. members_of s (witness_set_key (to_string e)))"
    by (auto simp: audited_keys_def)
  moreover have "finite (\<Union>e \<in> {1..n}. members_of s (witness_set_key (to_string e)))"
    using assms by (simp add: committed_def)
  ultimately show ?thesis by (rule finite_subset)
qed

lemma run_hgetall: "s k = Some (KHash h) \<Longrightarrow> run (kb_hgetall k) s = (Done h, s)"
  by (simp add: kb_hgetall_def hgetallCommand_def)

text \<open>Keys whose stored witnesses always lead to another one of them.\<close>

definition cyclic :: "fp_lib \<Rightarrow> (string \<times> string) list \<Rightarrow> string set \<Rightarrow> bool" where
  "cyclic fp kbw C \<longleftrightarrow> (\<forall>k \<in> C. map_of kbw k \<noteq> None \<and> set (kids fp kbw k) \<inter> C \<noteq> {})"

lemma audit_leaves_cycle:
  assumes "readable fp kbw" "cyclic fp kbw C" "set pad \<inter> C \<noteq> {}"
  shows "audit_leaves fp kbw pad leaves = None"
proof -
  let ?P = "\<lambda>fp kbw pad leaves y. readable fp kbw \<and> cyclic fp kbw C \<and> set pad \<inter> C \<noteq> {} \<longrightarrow> False"
  have "?P fp kbw pad leaves y" if s: "audit_leaves fp kbw pad leaves = Some y" for y
  proof (rule audit_leaves.raw_induct [where P = ?P, OF _ s], rule impI, elim conjE)
    fix f fp kbw pad leaves y
    assume IH: "\<And>fp kbw pad leaves y. f fp kbw pad leaves = Some y \<Longrightarrow> ?P fp kbw pad leaves y"
      and b: "(if pad = [] then Some (Inr leaves)
        else let top = last pad; scratch_pad = butlast pad in
          case map_of kbw top of None \<Rightarrow> f fp kbw scratch_pad (insert top leaves)
          | Some parent \<Rightarrow> (case json_ins fp parent of Inl e \<Rightarrow> Some (Inl e)
              | Inr ins \<Rightarrow> f fp kbw (scratch_pad @ ins) leaves)) = Some y"
      and a: "readable fp kbw" "cyclic fp kbw C" "set pad \<inter> C \<noteq> {}"
    have ne: "pad \<noteq> []" using a(3) by auto
    then have st: "set pad = set (butlast pad) \<union> {last pad}" by (metis append_butlast_last_id set_append list.set)
    show False
    proof (cases "map_of kbw (last pad)")
      case None
      then have "last pad \<notin> C" using a(2) by (auto simp: cyclic_def)
      then have "set (butlast pad) \<inter> C \<noteq> {}" using a(3) st by auto
      moreover have "f fp kbw (butlast pad) (insert (last pad) leaves) = Some y" using b ne None by simp
      ultimately show False using IH a(1,2) by blast
    next
      case (Some w)
      with a(1) obtain ins where i: "json_ins fp w = Inr ins" by (auto simp: readable_def)
      then have "kids fp kbw (last pad) = ins" using Some by (simp add: kids_def)
      then have "set (butlast pad @ ins) \<inter> C \<noteq> {}" using a(2,3) st by (auto simp: cyclic_def)
      moreover have "f fp kbw (butlast pad @ ins) leaves = Some y" using b ne Some i by simp
      ultimately show False using IH a(1,2) by blast
    qed
  qed
  then show ?thesis using assms by (cases "audit_leaves fp kbw pad leaves") auto
qed

lemma json_ins_request:
  assumes "\<forall>i \<in> set ins. json_escape i = i"
  shows "json_ins fp (verify_request fp ins) = Inr ins"
proof -
  have f: "fold (\<lambda>i j. set_key ''IN'' (json_append (String i) (index_key ''IN'' j)) j) ins (Object [(''IN'', Array xs)]) =
      Object [(''IN'', Array (xs @ map String ins))]" for xs
    by (induction ins arbitrary: xs) simp_all
  have "map (ToString \<circ> String) ins = ins" using assms by (simp add: map_idI)
  then show ?thesis
    using f [of "[]"] by (simp add: verify_request_def json_ins_def Load_dump ArrayRange_def comp_def)
qed

lemma json_ins_signed:
  assumes "\<forall>i \<in> set (w_ins c). json_escape i = i"
  shows "json_ins fp (json_dump fp (signed_witness L fp c)) = Inr (w_ins c)"
  using assms by (simp add: json_ins_def Load_dump ArrayRange_def map_idI)

lemma check_signed_True:
  "crypto_sizes L \<Longrightarrow> sig_correct L \<Longrightarrow> check_witness fp L (json_dump fp (signed_witness L fp c)) = Inr True"
  by (simp add: check_signed sig_correct_def)

lemma run_do_local_verify:
  assumes "crypto_sizes L" "sig_correct L" "epoch_is fp L n s" "3 \<le> n" "in_int n"
    and "s ''witness'' = Some (KHash kbw)" "\<forall>w \<in> set kbw. check_witness fp L (snd w) = Inr True"
    and "ranked rank fp kbw" "\<forall>e \<in> {1..n - 2}. committed s e"
    and "json_ins fp needs = Inr pad" "\<forall>xs. set (ord xs) = set xs" "verify_epoch st \<noteq> n"
  shows "run (do_local_verify srt ord fp L st needs results) s =
    (let pass = crawled fp L kbw (audited_keys srt L s {1..n - 2}) \<subseteq> leaf_set fp kbw (set pad)
     in (Done (if pass then st\<lparr>verify_cache := pad, verify_epoch := n\<rparr> else st\<lparr>verify_cache := []\<rparr>,
           verdict (to_string n) pass), s))"
proof -
  have r: "readable fp kbw" using checked_readable [OF assms(7)] .
  have "audit_check fp L (ord kbw) = Inr ()" using assms(7,11) by (intro audit_check_ok) metis
  moreover have "audit_items fp (sha256_string L CRAWLER_TAG) (ord (well_witness kbw (audited_keys srt L s {1..n - 2}))) =
      Inr (crawled fp L kbw (audited_keys srt L s {1..n - 2}))"
    using assms(11) finite_audited_keys [OF assms(9)] by (intro audit_items_well [OF r _ _ assms(1)]) simp_all
  moreover have "run (audit_keys srt L n) s = (Done (audited_keys srt L s {1..n - 2}), s)"
    using assms(9) by (intro run_audit_keys) simp
  moreover note run_get_epoch [OF assms(1-3)] run_get_epoch_int [OF assms(1-3,5)] run_hgetall [where s = s and k = "''witness''", OF assms(6)]
    audit_leaves_correct [OF r assms(8), of pad "{}"]
  ultimately show ?thesis
    using assms(4,12) by (simp add: do_local_verify_def run_pbind assms(10) Let_def)
qed

subsection \<open>Properties\<close>

text \<open>
  C2.  The verdict.  Kanban holds authentic witnesses only, whose graph has no cycle, and a root hash for
  each epoch up to two before the current one, and the verdict of this epoch is not cached yet (the last audit that
  passed was in another epoch).  Then the audit ends, and it passes exactly when every input of
  a crawler witness that is listed under a matching root hash can be reached as a leaf from the given inputs
  along the witnesses.
\<close>

theorem audit_verdict:
  assumes "crypto_sizes L" "sig_correct L" "epoch_is fp L n s" "3 \<le> n" "in_int n"
    and "s ''witness'' = Some (KHash kbw)" "\<forall>w \<in> set kbw. check_witness fp L (snd w) = Inr True"
    and "ranked rank fp kbw" "\<forall>e \<in> {1..n - 2}. committed s e"
    and "json_ins fp needs = Inr pad" "\<forall>xs. set (ord xs) = set xs" "verify_epoch st \<noteq> n"
  shows "run (do_local_verify srt ord fp L st needs results) s =
    (let pass = crawled fp L kbw (audited_keys srt L s {1..n - 2}) \<subseteq> leaf_set fp kbw (set pad)
     in (Done (if pass then st\<lparr>verify_cache := pad, verify_epoch := n\<rparr> else st\<lparr>verify_cache := []\<rparr>,
           verdict (to_string n) pass), s))"
  by (rule run_do_local_verify [OF assms])

text \<open>
  C25.  The walk has no protection against a cycle: if some of the given inputs belong to a set of keys whose
  stored witnesses, all authentic, always name another key of the set, the audit never returns.  One
  authentic witness stored under the key of one of its own inputs is enough.
\<close>

theorem audit_hangs:
  assumes "crypto_sizes L" "sig_correct L" "epoch_is fp L n s" "3 \<le> n" "in_int n"
    and "s ''witness'' = Some (KHash kbw)" "\<forall>w \<in> set kbw. check_witness fp L (snd w) = Inr True"
    and "cyclic fp kbw C" "json_ins fp needs = Inr pad" "set pad \<inter> C \<noteq> {}"
    and "\<forall>xs. set (ord xs) = set xs" "verify_epoch st \<noteq> n"
  shows "run (do_local_verify srt ord fp L st needs results) s = (Hangs, s)"
proof -
  have "audit_check fp L (ord kbw) = Inr ()" using assms(7,11) by (intro audit_check_ok) metis
  moreover note run_get_epoch [OF assms(1-3)] run_get_epoch_int [OF assms(1-3,5)]
    run_hgetall [where s = s and k = "''witness''", OF assms(6)]
    audit_leaves_cycle [OF checked_readable [OF assms(7)] assms(8,10), of "{}"]
  ultimately show ?thesis
    using assms(4,12) by (simp add: do_local_verify_def run_pbind assms(9) Let_def)
qed

definition example_loop :: witness_context where
  "example_loop = \<lparr>w_tag = [], w_ins = [''k''], w_out = ''h'', w_bin = [], w_stage = 4\<rparr>"

definition example_epoch :: "(string \<times> string) list \<Rightarrow> kstore" where
  "example_epoch h = [''EPOCH'' \<mapsto> KString (epoch_packet fp_example crypto_example (to_string 3)),
     ''witness'' \<mapsto> KHash h, root_hash_key (to_string 1) \<mapsto> KString (sha256_string crypto_example [])]"

lemma example_epoch_simps:
  "epoch_is fp_example crypto_example 3 (example_epoch h)" "example_epoch h ''witness'' = Some (KHash h)"
  "committed (example_epoch h) 1" "in_int 3"
  "members_of (example_epoch h) (witness_set_key (to_string 1)) = {}"
  by (simp_all add: example_epoch_def epoch_is_def committed_def is_set_key_def members_of_def in_int_def)

lemma plain_k: "json_escape ''k'' = ''k''"
  by (simp add: json_escape_def json_escape_char_def)

theorem audit_hangs_witness:
  "\<exists>s. run (do_local_verify id id fp_example crypto_example \<lparr>verify_cache = [], verify_epoch = 0\<rparr>
    (verify_request fp_example [''k'']) []) s = (Hangs, s)"
proof -
  let ?w = "json_dump fp_example (signed_witness crypto_example fp_example example_loop)"
  have "json_ins fp_example ?w = Inr [''k'']"
    using json_ins_signed [of example_loop] plain_k by (simp add: example_loop_def)
  then have c: "cyclic fp_example [(''k'', ?w)] {''k''}" by (simp add: cyclic_def kids_def)
  have v: "\<forall>w \<in> set [(''k'', ?w)]. check_witness fp_example crypto_example (snd w) = Inr True"
    by (simp add: check_signed_True crypto_example_ok)
  have i: "json_ins fp_example (verify_request fp_example [''k'']) = Inr [''k'']"
    by (rule json_ins_request) (simp add: plain_k)
  from audit_hangs [where s = "example_epoch [(''k'', ?w)]" and ord = id and srt = id and results = "[]",
      OF crypto_example_ok example_epoch_simps(1) _ example_epoch_simps(4,2) v c i,
      of "\<lparr>verify_cache = [], verify_epoch = 0\<rparr>"] show ?thesis by auto
qed

text \<open>
  C26.  The audit does not compare the key under which a witness is stored with the output the witness
  names.  Take any authentic crawler witness, properly listed and committed in epoch 1, and a key \<open>q\<close> that has
  nothing to do with it, such as the digest of an index that was never built from the crawled items.  If Kanban
  stores the same witness under \<open>q\<close> too, the audit of a query answered from \<open>q\<close> passes.
\<close>

theorem audit_relabelled_passes:
  assumes "crypto_sizes L" "sig_correct L" "epoch_is fp L 3 s" "\<forall>xs. set (ord xs) = set xs" "verify_epoch st \<noteq> 3"
    and "c = witness_of L tag items out CRAWLER_TAG" "w = json_dump fp (signed_witness L fp c)"
    and "s ''witness'' = Some (KHash [(w_out c, w), (q, w)])"
    and "s (witness_set_key (to_string 1)) = Some (KSet {w_out c})"
    and "s (root_hash_key (to_string 1)) = Some (KString (sha256_string L (omni_string srt {w_out c})))"
    and "json_escape q = q" "q \<noteq> w_out c" "q \<notin> set (w_ins c)" "w_out c \<notin> set (w_ins c)"
  shows "\<exists>st'. run (do_local_verify srt ord fp L st (verify_request fp [q]) results) s =
    (Done (st', verdict (to_string 3) True), s)"
proof -
  let ?kbw = "[(w_out c, w), (q, w)]"
  have "json_ins fp w = Inr (w_ins c)" unfolding assms(7) by (rule json_ins_signed) (simp add: assms(6) witness_of_def)
  then have k: "kids fp ?kbw q = w_ins c" "kids fp ?kbw (w_out c) = w_ins c"
      "\<And>x. x \<noteq> q \<Longrightarrow> x \<noteq> w_out c \<Longrightarrow> kids fp ?kbw x = []"
    using assms(12) by (simp_all add: kids_def)
  have v: "\<forall>x \<in> set ?kbw. check_witness fp L (snd x) = Inr True"
    by (simp add: assms(7) check_signed_True [OF assms(1,2)])
  let ?rank = "\<lambda>x. if x = q \<or> x = w_out c then 1 else 0 :: nat"
  have r: "ranked ?rank fp ?kbw"
    unfolding ranked_def edges_def using k assms(13,14) by (auto split: if_splits)
  have "length (w_out c) = 64" using assms(1) by (simp add: assms(6) witness_of_def)
  then have "w_out c \<noteq> []" by auto
  then have m: "\<forall>e \<in> {1..3 - 2}. committed s e"
    using assms(9,10) by (simp add: committed_def is_set_key_def members_of_def)
  have c1: "crawled fp L ?kbw K \<subseteq> set (w_ins c)" for K
    using k(1,2) by (auto simp: crawled_def split: if_splits)
  have c2: "set (w_ins c) \<subseteq> leaf_set fp ?kbw {q}"
  proof
    fix i assume i: "i \<in> set (w_ins c)"
    then have "map_of ?kbw i = None" using assms(13,14) by auto
    moreover have "(q, i) \<in> edges fp ?kbw" using i k(1) by (simp add: edges_def)
    ultimately show "i \<in> leaf_set fp ?kbw {q}" by (auto simp: leaf_set_def)
  qed
  have sub: "crawled fp L ?kbw K \<subseteq> leaf_set fp ?kbw {q}" for K by (rule subset_trans [OF c1 c2])
  have i: "json_ins fp (verify_request fp [q]) = Inr [q]" by (rule json_ins_request) (simp add: assms(11))
  have n: "3 \<le> (3 :: int)" "in_int 3" by (simp_all add: in_int_def)
  from run_do_local_verify [OF assms(1,2,3) n assms(8) v r m i assms(4,5), of srt results]
  show ?thesis by (simp add: sub)
qed

definition example_crawl :: witness_context where
  "example_crawl = witness_of crypto_example ''STEEMIT CRAWLER'' [''ab''] ''abc'' CRAWLER_TAG"

lemma example_hashes:
  "''k'' \<noteq> sha256_string crypto_example x"
  "sha256_string crypto_example ''abc'' \<noteq> sha256_string crypto_example ''ab''"
proof
  assume "''k'' = sha256_string crypto_example x"
  moreover have "length (sha256_string crypto_example x) = 64" using crypto_example_ok(1) by simp
  ultimately have "length ''k'' = 64" by metis
  then show False by simp
next
  show "sha256_string crypto_example ''abc'' \<noteq> sha256_string crypto_example ''ab''"
    using sha256_string_inj [OF crypto_example_ok(1), of "''abc''" "''ab''"] by (auto simp: crypto_example_def)
qed

theorem audit_relabelled_passes_witness:
  "\<exists>st s. run (do_local_verify id id fp_example crypto_example \<lparr>verify_cache = [], verify_epoch = 0\<rparr>
    (verify_request fp_example [''k'']) []) s = (Done (st, verdict (to_string 3) True), s)"
proof -
  let ?w = "json_dump fp_example (signed_witness crypto_example fp_example example_crawl)"
  define s :: kstore where "s = [''EPOCH'' \<mapsto> KString (epoch_packet fp_example crypto_example (to_string 3)),
     ''witness'' \<mapsto> KHash [(w_out example_crawl, ?w), (''k'', ?w)],
     witness_set_key (to_string 1) \<mapsto> KSet {w_out example_crawl},
     root_hash_key (to_string 1) \<mapsto> KString (sha256_string crypto_example (omni_string id {w_out example_crawl}))]"
  have s: "epoch_is fp_example crypto_example 3 s"
    "s ''witness'' = Some (KHash [(w_out example_crawl, ?w), (''k'', ?w)])"
    "s (witness_set_key (to_string 1)) = Some (KSet {w_out example_crawl})"
    "s (root_hash_key (to_string 1)) = Some (KString (sha256_string crypto_example (omni_string id {w_out example_crawl})))"
    by (simp_all add: s_def epoch_is_def)
  have "w_out example_crawl = sha256_string crypto_example ''abc''"
    "w_ins example_crawl = [sha256_string crypto_example ''ab'']"
    by (simp_all add: example_crawl_def witness_of_def)
  then show ?thesis
    using example_hashes audit_relabelled_passes [where srt = id and ord = id and st = "\<lparr>verify_cache = [], verify_epoch = 0\<rparr>" and
        tag = "''STEEMIT CRAWLER''" and items = "[''ab'']" and out = "''abc''" and results = "[]",
        OF crypto_example_ok s(1) _ _ _ refl s(2-4) plain_k]
    by (auto simp: example_crawl_def)
qed

lemma sublist_intros:
  "sublist x (x @ ys)" "sublist x ys \<Longrightarrow> sublist x (a @ ys)" "sublist x ys \<Longrightarrow> sublist x (c # ys)"
  by (simp_all add: sublist_Cons_right sublist_append)

lemma sublist_func:
  "sublist (sha256_string L bin) (json_dump fp (signed_witness L fp (witness_of L tag ins out bin)))"
  unfolding signed_witness_def json_dump_def witness_of_def by simp (intro sublist_intros)

definition example_audit :: kstore where
  "example_audit = [''EPOCH'' \<mapsto> KString (epoch_packet fp_example crypto_example (to_string 3)),
     ''witness'' \<mapsto> KHash [(w_out example_crawl, json_dump fp_example (signed_witness crypto_example fp_example example_crawl))],
     witness_set_key (to_string 1) \<mapsto> KSet {w_out example_crawl},
     root_hash_key (to_string 1) \<mapsto> KString (sha256_string crypto_example (omni_string id {w_out example_crawl}))]"

lemma example_audit_ok:
  "epoch_is fp_example crypto_example 3 example_audit" "committed example_audit 1"
  "example_audit ''witness'' =
     Some (KHash [(w_out example_crawl, json_dump fp_example (signed_witness crypto_example fp_example example_crawl))])"
  "audited_keys id crypto_example example_audit {1..1} = {w_out example_crawl}"
proof -
  have "length (w_out example_crawl) = 64" using crypto_example_ok(1) by (simp add: example_crawl_def witness_of_def)
  then have ne: "w_out example_crawl \<noteq> []" by auto
  show "epoch_is fp_example crypto_example 3 example_audit"
    "example_audit ''witness'' =
       Some (KHash [(w_out example_crawl, json_dump fp_example (signed_witness crypto_example fp_example example_crawl))])"
    by (simp_all add: example_audit_def epoch_is_def)
  have m: "is_set_key example_audit (witness_set_key (to_string 1))"
    "members_of example_audit (witness_set_key (to_string 1)) = {w_out example_crawl}"
    by (simp_all add: example_audit_def is_set_key_def members_of_def)
  then show "committed example_audit 1" using ne by (simp add: committed_def example_audit_def)
  have "run (check_root_hash id crypto_example 1) example_audit = (Done True, example_audit)"
    using run_check_root_hash [where e = 1, OF m(1) _, of _ id crypto_example] m(2) ne
    by (simp add: example_audit_def strncmp_eq_def)
  with m(2) show "audited_keys id crypto_example example_audit {1..1} = {w_out example_crawl}"
    by (auto simp: audited_keys_def)
qed

theorem audit_verdict_witness:
  "\<exists>st s. run (do_local_verify id id fp_example crypto_example \<lparr>verify_cache = [], verify_epoch = 0\<rparr>
    (verify_request fp_example [''k'']) []) s = (Done (st, verdict (to_string 3) False), s)"
proof -
  let ?w = "json_dump fp_example (signed_witness crypto_example fp_example example_crawl)"
  let ?h = "[(w_out example_crawl, ?w)]"
  have c: "w_out example_crawl = sha256_string crypto_example ''abc''"
    "w_ins example_crawl = [sha256_string crypto_example ''ab'']"
    by (simp_all add: example_crawl_def witness_of_def)
  have k: "kids fp_example ?h (w_out example_crawl) = w_ins example_crawl"
    "\<And>x. x \<noteq> w_out example_crawl \<Longrightarrow> kids fp_example ?h x = []"
    using json_ins_signed [of example_crawl] c by (simp_all add: kids_def)
  have r: "ranked (\<lambda>x. if x = w_out example_crawl then 1 else 0) fp_example ?h"
    using k c by (auto simp: ranked_def edges_def example_hashes example_hashes [symmetric] split: if_splits)
  have v: "\<forall>w \<in> set ?h. check_witness fp_example crypto_example (snd w) = Inr True"
    by (simp add: check_signed_True crypto_example_ok)
  have i: "json_ins fp_example (verify_request fp_example [''k'']) = Inr [''k'']"
    by (rule json_ins_request) (simp add: plain_k)
  have m: "\<forall>e \<in> {1..3 - 2}. committed example_audit e" using example_audit_ok(2) by simp
  have "leaf_set fp_example ?h {''k''} = {''k''}" using example_hashes(1) [of "''abc''"] c by (intro leaf_set_leaf) auto
  moreover have "sublist (sha256_string crypto_example CRAWLER_TAG) ?w" unfolding example_crawl_def by (rule sublist_func)
  ultimately have "\<not> crawled fp_example crypto_example ?h {w_out example_crawl} \<subseteq> leaf_set fp_example ?h {''k''}"
    using k(1) c(2) example_hashes(1) [of "''ab''"] by (auto simp: crawled_def)
  with audit_verdict [where s = example_audit and ord = id and srt = id and results = "[]",
      OF crypto_example_ok example_audit_ok(1) _ _ example_audit_ok(3) v r m i,
      of "\<lparr>verify_cache = [], verify_epoch = 0\<rparr>"] example_audit_ok(4)
  show ?thesis by (auto simp: Let_def in_int_def)
qed

end
