(* ===== verification/Crc32.thy ===== *)
theory Crc32
  imports Codec
begin

unbundle bit_operations_syntax

text \<open>
  The hash that turns words into identifiers: \<open>sphCRC32\<close> of \<open>contrib/sphinx/sphinxstd.cpp\<close>, driven by
  a table of 256 entries, and the bit-serial CRC-32 it has to agree with.
\<close>

definition g_dSphinxCRC32 :: "DWORD list" where
  "g_dSphinxCRC32 =
    [0x00000000, 0x77073096, 0xee0e612c, 0x990951ba, 0x076dc419, 0x706af48f,
     0xe963a535, 0x9e6495a3, 0x0edb8832, 0x79dcb8a4, 0xe0d5e91e, 0x97d2d988,
     0x09b64c2b, 0x7eb17cbd, 0xe7b82d07, 0x90bf1d91, 0x1db71064, 0x6ab020f2,
     0xf3b97148, 0x84be41de, 0x1adad47d, 0x6ddde4eb, 0xf4d4b551, 0x83d385c7,
     0x136c9856, 0x646ba8c0, 0xfd62f97a, 0x8a65c9ec, 0x14015c4f, 0x63066cd9,
     0xfa0f3d63, 0x8d080df5, 0x3b6e20c8, 0x4c69105e, 0xd56041e4, 0xa2677172,
     0x3c03e4d1, 0x4b04d447, 0xd20d85fd, 0xa50ab56b, 0x35b5a8fa, 0x42b2986c,
     0xdbbbc9d6, 0xacbcf940, 0x32d86ce3, 0x45df5c75, 0xdcd60dcf, 0xabd13d59,
     0x26d930ac, 0x51de003a, 0xc8d75180, 0xbfd06116, 0x21b4f4b5, 0x56b3c423,
     0xcfba9599, 0xb8bda50f, 0x2802b89e, 0x5f058808, 0xc60cd9b2, 0xb10be924,
     0x2f6f7c87, 0x58684c11, 0xc1611dab, 0xb6662d3d, 0x76dc4190, 0x01db7106,
     0x98d220bc, 0xefd5102a, 0x71b18589, 0x06b6b51f, 0x9fbfe4a5, 0xe8b8d433,
     0x7807c9a2, 0x0f00f934, 0x9609a88e, 0xe10e9818, 0x7f6a0dbb, 0x086d3d2d,
     0x91646c97, 0xe6635c01, 0x6b6b51f4, 0x1c6c6162, 0x856530d8, 0xf262004e,
     0x6c0695ed, 0x1b01a57b, 0x8208f4c1, 0xf50fc457, 0x65b0d9c6, 0x12b7e950,
     0x8bbeb8ea, 0xfcb9887c, 0x62dd1ddf, 0x15da2d49, 0x8cd37cf3, 0xfbd44c65,
     0x4db26158, 0x3ab551ce, 0xa3bc0074, 0xd4bb30e2, 0x4adfa541, 0x3dd895d7,
     0xa4d1c46d, 0xd3d6f4fb, 0x4369e96a, 0x346ed9fc, 0xad678846, 0xda60b8d0,
     0x44042d73, 0x33031de5, 0xaa0a4c5f, 0xdd0d7cc9, 0x5005713c, 0x270241aa,
     0xbe0b1010, 0xc90c2086, 0x5768b525, 0x206f85b3, 0xb966d409, 0xce61e49f,
     0x5edef90e, 0x29d9c998, 0xb0d09822, 0xc7d7a8b4, 0x59b33d17, 0x2eb40d81,
     0xb7bd5c3b, 0xc0ba6cad, 0xedb88320, 0x9abfb3b6, 0x03b6e20c, 0x74b1d29a,
     0xead54739, 0x9dd277af, 0x04db2615, 0x73dc1683, 0xe3630b12, 0x94643b84,
     0x0d6d6a3e, 0x7a6a5aa8, 0xe40ecf0b, 0x9309ff9d, 0x0a00ae27, 0x7d079eb1,
     0xf00f9344, 0x8708a3d2, 0x1e01f268, 0x6906c2fe, 0xf762575d, 0x806567cb,
     0x196c3671, 0x6e6b06e7, 0xfed41b76, 0x89d32be0, 0x10da7a5a, 0x67dd4acc,
     0xf9b9df6f, 0x8ebeeff9, 0x17b7be43, 0x60b08ed5, 0xd6d6a3e8, 0xa1d1937e,
     0x38d8c2c4, 0x4fdff252, 0xd1bb67f1, 0xa6bc5767, 0x3fb506dd, 0x48b2364b,
     0xd80d2bda, 0xaf0a1b4c, 0x36034af6, 0x41047a60, 0xdf60efc3, 0xa867df55,
     0x316e8eef, 0x4669be79, 0xcb61b38c, 0xbc66831a, 0x256fd2a0, 0x5268e236,
     0xcc0c7795, 0xbb0b4703, 0x220216b9, 0x5505262f, 0xc5ba3bbe, 0xb2bd0b28,
     0x2bb45a92, 0x5cb36a04, 0xc2d7ffa7, 0xb5d0cf31, 0x2cd99e8b, 0x5bdeae1d,
     0x9b64c2b0, 0xec63f226, 0x756aa39c, 0x026d930a, 0x9c0906a9, 0xeb0e363f,
     0x72076785, 0x05005713, 0x95bf4a82, 0xe2b87a14, 0x7bb12bae, 0x0cb61b38,
     0x92d28e9b, 0xe5d5be0d, 0x7cdcefb7, 0x0bdbdf21, 0x86d3d2d4, 0xf1d4e242,
     0x68ddb3f8, 0x1fda836e, 0x81be16cd, 0xf6b9265b, 0x6fb077e1, 0x18b74777,
     0x88085ae6, 0xff0f6a70, 0x66063bca, 0x11010b5c, 0x8f659eff, 0xf862ae69,
     0x616bffd3, 0x166ccf45, 0xa00ae278, 0xd70dd2ee, 0x4e048354, 0x3903b3c2,
     0xa7672661, 0xd06016f7, 0x4969474d, 0x3e6e77db, 0xaed16a4a, 0xd9d65adc,
     0x40df0b66, 0x37d83bf0, 0xa9bcae53, 0xdebb9ec5, 0x47b2cf7f, 0x30b5ffe9,
     0xbdbdf21c, 0xcabac28a, 0x53b39330, 0x24b4a3a6, 0xbad03605, 0xcdd70693,
     0x54de5729, 0x23d967bf, 0xb3667a2e, 0xc4614ab8, 0x5d681b02, 0x2a6f2b94,
     0xb40bbe37, 0xc30c8ea1, 0x5a05df1b, 0x2d02ef8d]"

definition crc_step :: "DWORD \<Rightarrow> byte \<Rightarrow> DWORD" where
  "crc_step crc b = drop_bit 8 crc XOR g_dSphinxCRC32 ! unat ((crc XOR ucast b) AND 0xff)"

text \<open>The overload with a NUL-terminated argument, the one with a length, and the one that
  continues an earlier checksum.\<close>

definition sphCRC32 :: "byte list \<Rightarrow> DWORD" where
  "sphCRC32 s = NOT (fold (\<lambda>b crc. crc_step crc b) (takeWhile (\<lambda>b. b \<noteq> 0) s) (NOT 0))"

definition sphCRC32_len :: "byte list \<Rightarrow> DWORD" where
  "sphCRC32_len s = NOT (fold (\<lambda>b crc. crc_step crc b) s (NOT 0))"

definition sphCRC32_prev :: "byte list \<Rightarrow> DWORD \<Rightarrow> DWORD" where
  "sphCRC32_prev s uPrevCRC = NOT (fold (\<lambda>b crc. crc_step crc b) s (NOT uPrevCRC))"

subsection \<open>The bit-serial reference\<close>

definition crc_bit :: "DWORD \<Rightarrow> DWORD" where
  "crc_bit c = (if c AND 1 \<noteq> 0 then drop_bit 1 c XOR 0xedb88320 else drop_bit 1 c)"

definition crc_byte_ref :: "DWORD \<Rightarrow> byte \<Rightarrow> DWORD" where
  "crc_byte_ref crc b = (crc_bit ^^ 8) (crc XOR ucast b)"

definition crc32_ref :: "byte list \<Rightarrow> DWORD" where
  "crc32_ref s = NOT (fold (\<lambda>b crc. crc_byte_ref crc b) s (NOT 0))"

lemma length_table [simp]: "length g_dSphinxCRC32 = 256"
  by (simp add: g_dSphinxCRC32_def)

text \<open>The step is linear, so the table is determined by its entries at the powers of two.\<close>

lemma crc_bit_xor: "crc_bit (a XOR b) = crc_bit a XOR crc_bit b"
proof -
  have "crc_bit c = drop_bit 1 c XOR (if bit c 0 then 0xedb88320 else 0)" for c
    by (simp add: crc_bit_def and_one_eq odd_iff_mod_2_eq_one bit_0)
  then show ?thesis by (auto simp: bit_simps ac_simps)
qed

lemma crc_bits_xor: "(crc_bit ^^ n) (a XOR b) = (crc_bit ^^ n) a XOR (crc_bit ^^ n) b"
  by (induction n) (simp_all add: crc_bit_xor)

lemma crc_bit_eval:
  "crc_bit 0 = 0" "crc_bit 1 = 0xedb88320"
  "crc_bit (numeral n) =
     (if numeral n AND 1 \<noteq> (0 :: DWORD) then drop_bit 1 (numeral n) XOR 0xedb88320 else drop_bit 1 (numeral n))"
  by (simp_all add: crc_bit_def)

lemma funpow_8: "(f ^^ 8) x = f (f (f (f (f (f (f (f x)))))))"
  by (simp add: eval_nat_numeral)

lemma crc_powers:
  "(crc_bit ^^ 8) 0 = 0" "(crc_bit ^^ 8) 1 = 0x77073096" "(crc_bit ^^ 8) 2 = 0xee0e612c"
  "(crc_bit ^^ 8) 4 = 0x076dc419" "(crc_bit ^^ 8) 8 = 0x0edb8832" "(crc_bit ^^ 8) 16 = 0x1db71064"
  "(crc_bit ^^ 8) 32 = 0x3b6e20c8" "(crc_bit ^^ 8) 64 = 0x76dc4190" "(crc_bit ^^ 8) 128 = 0xedb88320"
  by (simp_all only: funpow_8) (simp_all add: crc_bit_eval)

fun xor_grow :: "DWORD list \<Rightarrow> DWORD list \<Rightarrow> DWORD list" where
  "xor_grow [] t = t"
| "xor_grow (p # ps) t = xor_grow ps (t @ map (\<lambda>x. x XOR p) t)"

lemma table_grown:
  "g_dSphinxCRC32 = xor_grow [0x77073096, 0xee0e612c, 0x076dc419, 0x0edb8832, 0x1db71064, 0x3b6e20c8,
     0x76dc4190, 0xedb88320] [0]"
  by (simp add: g_dSphinxCRC32_def)

lemma xor_power_add: "(r :: nat) < 2 ^ k \<Longrightarrow> r XOR 2 ^ k = 2 ^ k + r"
proof -
  assume r: "r < 2 ^ k"
  have "\<not> bit r n \<or> \<not> bit (2 ^ k :: nat) n" for n
  proof (cases "n = k")
    case True
    have "take_bit k r = r" using r by (simp add: take_bit_nat_eq_self)
    then have "\<not> bit r k" by (metis bit_take_bit_iff less_irrefl)
    with True show ?thesis by simp
  qed (simp add: bit_exp_iff)
  then have "r + 2 ^ k = r XOR 2 ^ k"
    by (simp add: disjunctive_add_eq_xor bit_eq_iff bit_simps)
  then show ?thesis by simp
qed

definition crc_row :: "nat \<Rightarrow> DWORD" where
  "crc_row n = (crc_bit ^^ 8) (word_of_nat n)"

lemma crc_rows_grow:
  assumes "t = map crc_row [0..<2 ^ k]" "p = crc_row (2 ^ k)"
  shows "t @ map (\<lambda>x. x XOR p) t = map crc_row [0..<2 ^ Suc k]"
proof -
  have "crc_row r XOR p = crc_row (2 ^ k + r)" if "r < 2 ^ k" for r
    unfolding assms(2) crc_row_def crc_bits_xor [symmetric] of_nat_xor_eq [symmetric] xor_power_add [OF that] ..
  then have "map (\<lambda>x. x XOR p) t = map crc_row (map (\<lambda>i. i + 2 ^ k) [0..<2 ^ k])"
    unfolding assms(1) by (simp add: add.commute)
  also have "map (\<lambda>i. i + 2 ^ k) [0..<2 ^ k] = [2 ^ k..<2 ^ k + 2 ^ k]"
    by (rule map_add_upt)
  finally show ?thesis
    unfolding assms(1) by (simp add: upt_add_eq_append [of 0 "2 ^ k", simplified] mult_2)
qed

lemma table_rows: "g_dSphinxCRC32 = map crc_row [0..<2 ^ 8]"
proof -
  have z: "[0] = map crc_row [0..<2 ^ 0]" using crc_powers(1) by (simp add: crc_row_def)
  note g = crc_rows_grow [OF crc_rows_grow [OF crc_rows_grow [OF crc_rows_grow [OF crc_rows_grow
      [OF crc_rows_grow [OF crc_rows_grow [OF crc_rows_grow [OF z]]]]]]]]
  show ?thesis unfolding table_grown xor_grow.simps
    by (subst g) (simp_all add: crc_row_def crc_powers)
qed

lemma crc_bits_zero: "take_bit n c = 0 \<Longrightarrow> (crc_bit ^^ n) c = drop_bit n c"
proof (induction n arbitrary: c)
  case (Suc n)
  have b: "\<not> bit c i" if "i < Suc n" for i
    using Suc.prems that by (metis bit_0_eq bit_take_bit_iff bot_apply bot_bool_def)
  then have "\<not> bit c 0" by blast
  then have "crc_bit c = drop_bit 1 c" by (simp add: crc_bit_def and_one_eq bit_0 odd_iff_mod_2_eq_one)
  moreover have "take_bit n (drop_bit 1 c) = 0"
    using b by (intro bit_word_eqI) (auto simp: bit_simps)
  ultimately show ?case using Suc.IH [of "drop_bit 1 c"] by (simp add: funpow_Suc_right del: funpow.simps)
qed simp

lemma crc_step_ref: "crc_step crc b = crc_byte_ref crc b"
proof -
  let ?x = "crc XOR ucast b"
  define lo where "lo = ?x AND 0xff"
  define hi where "hi = push_bit 8 (drop_bit 8 ?x)"
  have lo: "lo = take_bit 8 ?x" by (simp add: lo_def take_bit_eq_mask mask_eq_exp_minus_1)
  have x: "?x = hi XOR lo"
    unfolding lo hi_def by (rule bit_word_eqI) (auto simp: bit_simps)
  have "take_bit 8 hi = 0" unfolding hi_def by (rule bit_word_eqI) (auto simp: bit_simps)
  then have "(crc_bit ^^ 8) hi = drop_bit 8 hi" by (rule crc_bits_zero)
  also have "\<dots> = drop_bit 8 crc"
    unfolding hi_def by (rule bit_word_eqI) (auto simp: bit_simps dest: bit_imp_le_length)
  finally have h: "(crc_bit ^^ 8) hi = drop_bit 8 crc" .
  have "unat lo = take_bit 8 (unat ?x)" unfolding lo by (rule unsigned_take_bit_eq)
  then have "unat lo < 2 ^ 8" by (metis take_bit_nat_less_exp)
  then have "g_dSphinxCRC32 ! unat lo = (crc_bit ^^ 8) lo" by (simp add: table_rows crc_row_def)
  then have "crc_step crc b = (crc_bit ^^ 8) hi XOR (crc_bit ^^ 8) lo"
    unfolding crc_step_def h by (simp add: lo_def)
  also have "\<dots> = crc_byte_ref crc b"
    unfolding crc_byte_ref_def crc_bits_xor [symmetric] x [symmetric] ..
  finally show ?thesis .
qed

lemma crc_fold_ref: "fold (\<lambda>b crc. crc_step crc b) s c = fold (\<lambda>b crc. crc_byte_ref crc b) s c"
  by (simp add: crc_step_ref)

subsection \<open>Properties\<close>

text \<open>
  C38.  The table-driven checksum is the bit-serial CRC-32 with the reflected polynomial \<open>0xedb88320\<close>, on
  every input; the overload for C strings is the one with a length on the text before the NUL.
\<close>

theorem crc32_reference:
  "sphCRC32_len s = crc32_ref s \<and> sphCRC32 (s @ 0 # t) = crc32_ref (takeWhile (\<lambda>b. b \<noteq> 0) s)"
proof -
  have "takeWhile (\<lambda>b. b \<noteq> 0) (s @ 0 # t) = takeWhile (\<lambda>b. b \<noteq> 0) s"
    by (induction s) auto
  then show ?thesis by (simp add: sphCRC32_len_def sphCRC32_def crc32_ref_def crc_fold_ref)
qed

lemma sphCRC32_prev_ref: "sphCRC32_prev t (crc32_ref s) = crc32_ref (s @ t)"
  by (simp add: sphCRC32_prev_def crc32_ref_def crc_step_ref)

text \<open>
  C39.  A checksum can be computed piecewise: the checksum of the first piece, continued over any further pieces, is
  the bit-serial CRC-32 of their concatenation.
\<close>

theorem crc32_incremental:
  "fold sphCRC32_prev ts (sphCRC32_len s) = crc32_ref (s @ concat ts)"
proof -
  have "fold sphCRC32_prev ts (crc32_ref s) = crc32_ref (s @ concat ts)"
    by (induction ts arbitrary: s) (simp_all add: sphCRC32_prev_ref)
  moreover have "sphCRC32_len s = crc32_ref s" by (simp add: sphCRC32_len_def crc32_ref_def crc_fold_ref)
  ultimately show ?thesis by simp
qed

end
