(* ===== verification/Indexer.thy ===== *)
theory Indexer
  imports Crawler Stopwords
begin

text \<open>
  The indexer enclave (\<open>Enclave/enclave_indexer.cpp\<close>): it reads document batches of crawlers, cuts every document
  into words with the Sphinx tokenizer and builds the inverted index from the checksum of a word to the
  ascending list of document numbers.

  The tokenizer is the argument \<open>T\<close>, from a text to its words.  \<open>STX\<close> is an array of one character without a
  terminator; \<open>stx\<close> is the text that the checksum reads from its address, so it starts with the
  character 2 and continues with what follows it in memory.
\<close>

subsection \<open>Building the table\<close>

definition INDEXER_TAG :: string where
  "INDEXER_TAG = ''indexer'' @ [NUL]"

definition DIGEST_MAX_LENGTH :: nat where
  "DIGEST_MAX_LENGTH = 256"

definition create_indexer_witness :: "fp_lib \<Rightarrow> crypto_lib \<Rightarrow> int \<Rightarrow> string list \<Rightarrow> string \<Rightarrow> string" where
  "create_indexer_witness fp L g inputs index =
     (let indexer_context = witness_init ''STEEMIT INDEXER'' (witness_fresh g);
          indexer_context = fold (witness_input L) inputs indexer_context;
          indexer_context = witness_output L index indexer_context;
          indexer_context = witness_func L INDEXER_TAG indexer_context
      in fst (witness_finalize fp L indexer_context []))"

text \<open>\<open>t[k].pop_back()\<close> and \<open>t.erase(k)\<close>.\<close>

fun tbl_pop :: "'k \<Rightarrow> ('k \<times> 'v list) list \<Rightarrow> ('k \<times> 'v list) list" where
  "tbl_pop k [] = []"
| "tbl_pop k ((k', vs) # t) = (if k = k' then (k', butlast vs) # t else (k', vs) # tbl_pop k t)"

definition tbl_erase :: "'k \<Rightarrow> ('k \<times> 'v list) list \<Rightarrow> ('k \<times> 'v list) list" where
  "tbl_erase k t = filter (\<lambda>x. fst x \<noteq> k) t"

definition word_id :: "string \<Rightarrow> DWORD" where
  "word_id sTok = sphCRC32_len (bytes_of (c_str sTok))"

definition index_word :: "DWORD \<Rightarrow> DWORD \<Rightarrow> index_table \<Rightarrow> index_table" where
  "index_word wordID docID tbl =
     (let tbl = tbl_push wordID docID tbl; v = tbl_get wordID tbl
      in if length v > 1 \<and> v ! (length v - 1) = v ! (length v - 2) then tbl_pop wordID tbl else tbl)"

definition yield_index :: "(string \<Rightarrow> string list) \<Rightarrow> int \<Rightarrow> string \<Rightarrow> index_table \<Rightarrow> index_table" where
  "yield_index T docID doc tbl =
     fold (\<lambda>sTok. index_word (word_id sTok) (word_of_int docID)) (T doc) tbl"

fun digest_items :: "fp_lib \<Rightarrow> string list \<Rightarrow> fault + string list" where
  "digest_items fp [] = Inr []"
| "digest_items fp (inputs # rest) =
     ebind (lift_json (JSON_Load fp inputs)) (\<lambda>j_item_vector.
       ebind (emap (\<lambda>item. trim_string (json_dump fp item)) (ArrayRange j_item_vector)) (\<lambda>ds.
         ebind (digest_items fp rest) (\<lambda>ds'. Inr (ds @ ds'))))"

text \<open>The loop over the documents: the table and the shortened digests.\<close>

fun index_docs :: "(string \<Rightarrow> string list) \<Rightarrow> int \<Rightarrow> string list \<Rightarrow> index_table \<Rightarrow> index_table \<times> string list" where
  "index_docs T docID [] tbl = (tbl, [])"
| "index_docs T docID (doc # docs) tbl =
     (let tbl = yield_index T docID doc tbl;
          digest = (if length doc > DIGEST_MAX_LENGTH then take DIGEST_MAX_LENGTH doc else doc)
      in case index_docs T (docID + 1) docs tbl of (tbl, digests) \<Rightarrow> (tbl, digest # digests))"

definition remove_stopwords :: "string \<Rightarrow> index_table \<Rightarrow> index_table" where
  "remove_stopwords stx tbl =
     tbl_erase (sphCRC32 (bytes_of stx)) (fold (\<lambda>word. tbl_erase (sphCRC32 (bytes_of word))) stopwords tbl)"

record indexer_state =
  i_inputs :: "string list"
  i_digest_tbl :: "string list"
  i_index_tbl :: index_table

definition indexer_clear :: indexer_state where
  "indexer_clear = \<lparr>i_inputs = [], i_digest_tbl = [], i_index_tbl = []\<rparr>"

definition build_index :: "fp_lib \<Rightarrow> (string \<Rightarrow> string list) \<Rightarrow> string \<Rightarrow> indexer_state \<Rightarrow> fault + indexer_state" where
  "build_index fp T stx st =
     ebind (digest_items fp (i_inputs st)) (\<lambda>ds.
       case index_docs T 1 (i_digest_tbl st @ ds) (i_index_tbl st) of (tbl, digests) \<Rightarrow>
         Inr (st\<lparr>i_digest_tbl := digests, i_index_tbl := remove_stopwords stx tbl\<rparr>))"

subsection \<open>The entry point\<close>

text \<open>The results are the caller's buffers, the size that is reported, and the cleared state.\<close>

definition ecall_build_index ::
  "fp_lib \<Rightarrow> crypto_lib \<Rightarrow> int \<Rightarrow> (string \<Rightarrow> string list) \<Rightarrow> string \<Rightarrow> (index_table \<Rightarrow> index_table) \<Rightarrow> indexer_state \<Rightarrow>
   string \<Rightarrow> string \<Rightarrow> int \<Rightarrow> string \<Rightarrow> int \<Rightarrow> fault + (string \<times> int \<times> string \<times> indexer_state)" where
  "ecall_build_index fp L g T stx ord st index_inputs index_output index_output_size index_witness index_witness_size =
     ebind (Binary2Digest index_inputs (c_int (int (length index_inputs))) (i_inputs st)) (\<lambda>inputs.
       ebind (build_index fp T stx (st\<lparr>i_inputs := inputs\<rparr>)) (\<lambda>st.
         ebind (Merge2Binary ord (i_digest_tbl st) (i_index_tbl st)) (\<lambda>out.
           let witness = create_indexer_witness fp L g (i_inputs st) out in
           ebind (expose index_output (index_output_size > int (length out)) out) (\<lambda>index_output.
             ebind (expose index_witness (size_t_of index_witness_size > length witness) witness) (\<lambda>index_witness.
               Inr (index_output, int (length out), index_witness, indexer_clear))))))"

subsection \<open>Specification\<close>

text \<open>The document numbers, from \<open>k\<close> on, of the documents with a word of the given checksum.\<close>

definition has_word :: "(string \<Rightarrow> string list) \<Rightarrow> DWORD \<Rightarrow> string \<Rightarrow> bool" where
  "has_word T w doc \<longleftrightarrow> w \<in> word_id ` set (T doc)"

fun postings :: "(string \<Rightarrow> string list) \<Rightarrow> DWORD \<Rightarrow> nat \<Rightarrow> string list \<Rightarrow> DWORD list" where
  "postings T w k [] = []"
| "postings T w k (doc # docs) = (if has_word T w doc then [word_of_nat k] else []) @ postings T w (Suc k) docs"

definition stop_ids :: "string \<Rightarrow> DWORD set" where
  "stop_ids stx = insert (sphCRC32 (bytes_of stx)) ((\<lambda>word. sphCRC32 (bytes_of word)) ` set stopwords)"

subsection \<open>Tables\<close>

lemma tbl_get_pop [simp]: "tbl_get k (tbl_pop k' t) = (if k = k' then butlast (tbl_get k t) else tbl_get k t)"
  by (induction k' t rule: tbl_pop.induct) (auto simp: tbl_get_def)

lemma keys_tbl_pop: "map fst (tbl_pop k t) = map fst t"
  by (induction k t rule: tbl_pop.induct) auto

lemma tbl_get_erase: "tbl_get k (tbl_erase k' t) = (if k = k' then [] else tbl_get k t)"
  by (induction t) (auto simp: tbl_erase_def tbl_get_def)

lemma distinct_tbl_erase: "distinct (map fst t) \<Longrightarrow> distinct (map fst (tbl_erase k t))"
  by (simp add: tbl_erase_def distinct_map_filter)

lemma set_tbl_erase: "set (tbl_erase k t) \<subseteq> set t"
  by (auto simp: tbl_erase_def)

lemma tbl_get_index_word:
  "tbl_get w (index_word w' d t) =
     (if w = w' \<and> (tbl_get w t = [] \<or> last (tbl_get w t) \<noteq> d) then tbl_get w t @ [d] else tbl_get w t)"
proof -
  have "length (v @ [d]) > 1 \<and> (v @ [d]) ! (length (v @ [d]) - 1) = (v @ [d]) ! (length (v @ [d]) - 2) \<longleftrightarrow>
      v \<noteq> [] \<and> last v = d" for v :: "DWORD list"
    by (cases v rule: rev_cases) (auto simp: nth_append)
  then show ?thesis by (auto simp: index_word_def Let_def tbl.get_push)
qed

lemma tbl_get_yield_index:
  assumes "tbl_get w t = [] \<or> last (tbl_get w t) \<noteq> word_of_int d"
  shows "tbl_get w (yield_index T d doc t) = tbl_get w t @ (if has_word T w doc then [word_of_int d] else [])"
proof -
  have rest: "tbl_get w (fold (\<lambda>s. index_word (word_id s) (word_of_int d)) ts t') = tbl_get w t'"
    if "tbl_get w t' \<noteq> []" "last (tbl_get w t') = word_of_int d" for ts t'
    using that by (induction ts arbitrary: t') (auto simp: tbl_get_index_word)
  have "tbl_get w (fold (\<lambda>s. index_word (word_id s) (word_of_int d)) ts t) =
      tbl_get w t @ (if w \<in> word_id ` set ts then [word_of_int d] else [])" for ts
    using assms
  proof (induction ts arbitrary: t)
    case (Cons s ts)
    let ?t = "index_word (word_id s) (word_of_int d) t"
    show ?case
    proof (cases "w = word_id s")
      case True
      with Cons.prems have "tbl_get w ?t = tbl_get w t @ [word_of_int d]" by (simp add: tbl_get_index_word)
      with rest [of ?t ts] True show ?thesis by simp
    next
      case False
      with Cons.prems have "tbl_get w ?t = tbl_get w t" by (simp add: tbl_get_index_word)
      with Cons.IH [of ?t] Cons.prems False show ?thesis by simp
    qed
  qed simp
  then show ?thesis by (simp add: yield_index_def has_word_def)
qed

lemma word_of_nat_neq: "j < k \<Longrightarrow> k < 2 ^ 32 \<Longrightarrow> (word_of_nat j :: DWORD) \<noteq> word_of_nat k"
proof
  assume jk: "j < k" "k < 2 ^ 32" and e: "(word_of_nat j :: DWORD) = word_of_nat k"
  have "unat (word_of_nat j :: DWORD) = j" "unat (word_of_nat k :: DWORD) = k"
    using jk by (simp_all add: unsigned_of_nat take_bit_nat_eq_self)
  with e jk show False by simp
qed

lemma postings_range: "x \<in> set (postings T w k docs) \<Longrightarrow> \<exists>j. k \<le> j \<and> j < k + length docs \<and> x = word_of_nat j"
proof (induction docs arbitrary: k)
  case (Cons doc docs)
  show ?case
  proof (cases "x \<in> set (postings T w (Suc k) docs)")
    case True
    from Cons.IH [OF this] show ?thesis by (auto intro: Suc_leD)
  next
    case False
    with Cons.prems have "x = word_of_nat k" by (auto split: if_splits)
    then show ?thesis by (intro exI [of _ k]) simp
  qed
qed simp

lemma postings_filter:
  "postings T w k ds = map word_of_nat (filter (\<lambda>d. has_word T w (ds ! (d - k))) [k..<k + length ds])"
proof (induction ds arbitrary: k)
  case (Cons d ds)
  have "filter (\<lambda>j. has_word T w ((d # ds) ! (j - k))) [Suc k..<Suc k + length ds] =
      filter (\<lambda>j. has_word T w (ds ! (j - Suc k))) [Suc k..<Suc k + length ds]"
    by (rule filter_cong) (auto simp: nth_Cons' Suc_diff_le)
  with Cons [of "Suc k"] show ?case by (simp add: upt_conv_Cons del: upt_Suc)
qed simp

lemma tbl_get_index_docs:
  assumes "k + length docs \<le> 2 ^ 32" "\<forall>x \<in> set (tbl_get w t). \<exists>j < k. x = word_of_nat j"
  shows "tbl_get w (fst (index_docs T (int k) docs t)) = tbl_get w t @ postings T w k docs"
  using assms
proof (induction docs arbitrary: k t)
  case (Cons doc docs)
  let ?t = "yield_index T (int k) doc t"
  have "tbl_get w t = [] \<or> last (tbl_get w t) \<noteq> word_of_int (int k)"
  proof (rule disjCI)
    assume "\<not> last (tbl_get w t) \<noteq> word_of_int (int k)"
    show "tbl_get w t = []"
    proof (rule ccontr)
      assume n: "tbl_get w t \<noteq> []"
      then obtain j where "j < k" "last (tbl_get w t) = word_of_nat j" using Cons.prems(2) by (meson last_in_set)
      with word_of_nat_neq [of j k] Cons.prems(1) \<open>\<not> last (tbl_get w t) \<noteq> word_of_int (int k)\<close> show False by simp
    qed
  qed
  from tbl_get_yield_index [OF this]
  have y: "tbl_get w ?t = tbl_get w t @ (if has_word T w doc then [word_of_nat k] else [])" by simp
  have "\<forall>x \<in> set (tbl_get w ?t). \<exists>j < Suc k. x = word_of_nat j"
    using Cons.prems(2) unfolding y by (fastforce simp: less_Suc_eq)
  with Cons.IH [of "Suc k" ?t] Cons.prems(1)
  have "tbl_get w (fst (index_docs T (int (Suc k)) docs ?t)) = tbl_get w ?t @ postings T w (Suc k) docs" by simp
  with y show ?case by (simp add: Let_def add.commute case_prod_beta)
qed simp

lemma digests_index_docs: "snd (index_docs T d docs t) = map (take DIGEST_MAX_LENGTH) docs"
  by (induction docs arbitrary: d t) (auto simp: Let_def case_prod_beta)

lemma tbl_pop_set: "x \<in> set (tbl_pop k t) \<Longrightarrow> \<exists>y \<in> set t. fst y = fst x \<and> set (snd x) \<subseteq> set (snd y)"
  by (induction k t rule: tbl_pop.induct) (auto split: if_splits dest: in_set_butlastD)

lemma tbl_push_set: "x \<in> set (tbl_push k v t) \<Longrightarrow> set (snd x) \<subseteq> {v} \<or> (\<exists>y \<in> set t. set (snd x) \<subseteq> insert v (set (snd y)))"
  by (induction k v t rule: tbl_push.induct) (auto split: if_splits)

lemma index_ok_index_word: "index_ok t \<Longrightarrow> d \<noteq> 0 \<Longrightarrow> index_ok (index_word w d t)"
proof -
  assume i: "index_ok t" "d \<noteq> 0"
  have p: "index_ok (tbl_push w d t)"
    using i distinct_tbl_push [of t w d] by (auto simp: index_ok_def dest!: tbl_push_set)
  then have "index_ok (tbl_pop w (tbl_push w d t))"
    by (auto simp: index_ok_def keys_tbl_pop dest!: tbl_pop_set)
  with p show ?thesis by (simp add: index_word_def Let_def)
qed

lemma index_ok_yield_index: "index_ok t \<Longrightarrow> word_of_int d \<noteq> (0 :: DWORD) \<Longrightarrow> index_ok (yield_index T d doc t)"
proof -
  assume "index_ok t" "word_of_int d \<noteq> (0 :: DWORD)"
  then have "index_ok (fold (\<lambda>s. index_word (word_id s) (word_of_int d)) ts t)" for ts
    by (induction ts arbitrary: t) (simp_all add: index_ok_index_word)
  then show ?thesis by (simp add: yield_index_def)
qed

lemma index_ok_index_docs:
  "index_ok t \<Longrightarrow> 1 \<le> k \<Longrightarrow> k + length docs \<le> 2 ^ 32 \<Longrightarrow> index_ok (fst (index_docs T (int k) docs t))"
proof (induction docs arbitrary: k t)
  case (Cons doc docs)
  have "word_of_int (int k) \<noteq> (0 :: DWORD)" using word_of_nat_neq [of 0 k] Cons.prems by simp
  then have "index_ok (yield_index T (int k) doc t)" using Cons.prems by (intro index_ok_yield_index)
  with Cons.IH [of "yield_index T (int k) doc t" "Suc k"] Cons.prems show ?case
    by (simp add: Let_def add.commute case_prod_beta)
qed simp

lemma tbl_erase_all:
  "tbl_get w (fold (\<lambda>word. tbl_erase (f word)) ws t) = (if w \<in> f ` set ws then [] else tbl_get w t)"
  by (induction ws arbitrary: t) (auto simp: tbl_get_erase)

lemma index_ok_erase: "index_ok t \<Longrightarrow> index_ok (tbl_erase k t)"
  using set_tbl_erase [of k t] by (auto simp: index_ok_def distinct_tbl_erase)

lemma index_ok_erase_all: "index_ok t \<Longrightarrow> index_ok (fold (\<lambda>word. tbl_erase (f word)) ws t)"
  by (induction ws arbitrary: t) (simp_all add: index_ok_erase)

lemma remove_stopwords_spec:
  "tbl_get w (remove_stopwords stx t) = (if w \<in> stop_ids stx then [] else tbl_get w t)"
  "index_ok t \<Longrightarrow> index_ok (remove_stopwords stx t)"
  by (auto simp: remove_stopwords_def stop_ids_def tbl_get_erase tbl_erase_all index_ok_erase index_ok_erase_all)

text \<open>The index of a list of documents; \<open>index_spec\<close> says what a table must hold for them.\<close>

definition index_spec :: "(string \<Rightarrow> string list) \<Rightarrow> string \<Rightarrow> string list \<Rightarrow> index_table \<Rightarrow> bool" where
  "index_spec T stx docs tbl \<longleftrightarrow> index_ok tbl \<and>
     (\<forall>w. tbl_get w tbl = (if w \<in> stop_ids stx then [] else postings T w 1 docs))"

lemma build_index_spec:
  assumes "digest_items fp inputs = Inr docs" "length docs < 2 ^ 32"
  obtains tbl where "build_index fp T stx (indexer_clear\<lparr>i_inputs := inputs\<rparr>) =
      Inr \<lparr>i_inputs = inputs, i_digest_tbl = map (take DIGEST_MAX_LENGTH) docs, i_index_tbl = tbl\<rparr>"
    "index_spec T stx docs tbl"
proof
  let ?t = "fst (index_docs T 1 docs [])"
  show "build_index fp T stx (indexer_clear\<lparr>i_inputs := inputs\<rparr>) =
      Inr \<lparr>i_inputs = inputs, i_digest_tbl = map (take DIGEST_MAX_LENGTH) docs,
           i_index_tbl = remove_stopwords stx ?t\<rparr>"
    using assms(1) digests_index_docs [of T 1 docs "[]"]
    by (auto simp: build_index_def indexer_clear_def split: prod.splits)
  have "index_ok ?t" using index_ok_index_docs [of "[]" 1 docs T] assms(2) by (simp add: index_ok_def)
  moreover have "tbl_get w ?t = postings T w 1 docs" for w
    using tbl_get_index_docs [of 1 docs w "[]" T] assms(2) by (simp add: tbl_get_def)
  ultimately show "index_spec T stx docs (remove_stopwords stx ?t)"
    by (simp add: index_spec_def remove_stopwords_spec)
qed

lemma digest_items_string_array:
  "digest_items fp [json_dump fp (string_array ps)] = Inr (map json_escape ps)"
proof -
  have "emap (\<lambda>item. trim_string (json_dump fp item)) (map String ps) = Inr (map json_escape ps)"
    by (induction ps) (simp_all add: json_dump_def trim_string_quotes)
  then show ?thesis by (simp add: Load_string_array ArrayRange_def)
qed

lemma digest_items_append:
  "digest_items fp (xs @ ys) = ebind (digest_items fp xs) (\<lambda>p. ebind (digest_items fp ys) (\<lambda>q. Inr (p @ q)))"
proof (induction xs)
  case Nil
  then show ?case by (cases "digest_items fp ys") simp_all
next
  case (Cons x xs)
  show ?case
  proof (cases "lift_json (JSON_Load fp x)")
    case (Inr j)
    with Cons show ?thesis
      by (cases "emap (\<lambda>item. trim_string (json_dump fp item)) (ArrayRange j)";
          cases "digest_items fp xs"; cases "digest_items fp ys") simp_all
  qed simp
qed

lemma create_indexer_witness_eq:
  "create_indexer_witness fp L g inputs index =
     json_dump fp (signed_witness L fp (witness_of L ''STEEMIT INDEXER'' inputs index INDEXER_TAG))"
  using witness_calls [of L INDEXER_TAG index inputs "''STEEMIT INDEXER''" g]
  by (simp add: create_indexer_witness_def Let_def witness_finalize_eq witness_of_def)

lemma index_ok_Nil [simp]: "index_ok []"
  by (simp add: index_ok_def)

lemma index_ok_push: "index_ok t \<Longrightarrow> v \<noteq> 0 \<Longrightarrow> index_ok (tbl_push k v t)"
  using distinct_tbl_push [of t k v] by (auto simp: index_ok_def dest!: tbl_push_set)

lemma index_ok_Binary2Index_loop: "index_ok t \<Longrightarrow> index_ok (Binary2Index_loop f k t ws)"
  by (induction f k t ws rule: Binary2Index_loop.induct) (simp_all add: index_ok_push)

lemma split_file_ok: "split_file b = Inr (t, ds) \<Longrightarrow> index_ok t"
  by (auto simp: split_file_def Binary2Index_def Let_def split: if_splits intro!: index_ok_Binary2Index_loop)

lemma indexer_witness_length:
  assumes "crypto_sizes L"
  shows "length (create_indexer_witness fp L g inputs out) \<le> 415 + 68 * length inputs"
  using witness_text_length [OF assms, of "''STEEMIT INDEXER''"]
  by (simp add: create_indexer_witness_eq json_escape_def json_escape_char_def)

lemma digests_ok_take: "\<forall>d \<in> set docs. NUL \<notin> set d \<Longrightarrow> digests_ok (map (take DIGEST_MAX_LENGTH) docs)"
  by (auto simp: digests_ok_def list_all_iff DIGEST_MAX_LENGTH_def TEMP_DIGEST_LEN_def dest: in_set_takeD)

subsection \<open>Properties\<close>

text \<open>
  C6. The index is complete and exact: building the index of a batch gives, for the checksum of any word that is
  not a stop word, the ascending list of the numbers, from 1, of exactly the documents that contain a word with
  this checksum, each number once, and the empty list for a stop word; the digests are the first 256
  characters of the documents.
\<close>

theorem index_complete:
  assumes "digest_items fp inputs = Inr docs" "length docs < 2 ^ 32"
  shows "\<exists>st. build_index fp T stx (indexer_clear\<lparr>i_inputs := inputs\<rparr>) = Inr st \<and>
    i_digest_tbl st = map (take DIGEST_MAX_LENGTH) docs \<and>
    (\<forall>w. tbl_get w (i_index_tbl st) =
      (if w \<in> stop_ids stx then []
       else map word_of_nat (filter (\<lambda>d. has_word T w (docs ! (d - 1))) [1..<Suc (length docs)])))"
proof -
  obtain tbl where "build_index fp T stx (indexer_clear\<lparr>i_inputs := inputs\<rparr>) =
      Inr \<lparr>i_inputs = inputs, i_digest_tbl = map (take DIGEST_MAX_LENGTH) docs, i_index_tbl = tbl\<rparr>"
    "index_spec T stx docs tbl" using build_index_spec [OF assms] .
  then show ?thesis by (simp add: index_spec_def postings_filter [of _ _ "Suc 0"] del: upt_Suc)
qed

theorem index_complete_witness:
  "\<exists>st. build_index fp_example (\<lambda>s. [s]) [CHR 0x02] (indexer_clear\<lparr>i_inputs := [json_dump fp_example (string_array [''x''])]\<rparr>) =
     Inr st \<and> i_digest_tbl st = [''x'']"
proof -
  have "json_escape ''x'' = ''x''" by (simp add: json_escape_def json_escape_char_def)
  with digest_items_string_array [of fp_example "[''x'']"]
  have "digest_items fp_example [json_dump fp_example (string_array [''x''])] = Inr [''x'']" by simp
  from index_complete [OF this, of "\<lambda>s. [s]" "[CHR 0x02]"] show ?thesis by (auto simp: DIGEST_MAX_LENGTH_def)
qed

text \<open>
  C10. A call of the indexer enclave on the binary form of its input batches, of less than \<open>2 ^ 31\<close> bytes, with
  large enough buffers returns, in every iteration order of its hash table, a file that the
  next stage splits into the digests and an index with the exact posting lists, reports its size, returns a
  witness that passes the client's check and names the hashes of all input batches and of the file, and
  clears the state.
\<close>

theorem indexer_call:
  assumes "crypto_sizes L" "sig_correct L" "is_order ord" "digests_ok inputs" "digest_total inputs < 2 ^ 31"
    and "digest_items fp inputs = Inr docs" "length docs < 2 ^ 32" "\<forall>d \<in> set docs. NUL \<notin> set d"
    and "build_index fp T stx (indexer_clear\<lparr>i_inputs := inputs\<rparr>) = Inr st"
    and "int (file_bytes (i_digest_tbl st) (i_index_tbl st)) < osz" "osz < 2 ^ 31" "osz \<le> int (length obuf)"
    and "415 + 68 * length inputs < size_t_of wsz" "415 + 68 * length inputs \<le> length wbuf"
  shows "\<exists>file tbl o' w'.
    ebind (Digest2Binary inputs) (\<lambda>b. ecall_build_index fp L g T stx ord indexer_clear b obuf osz wbuf wsz) =
      Inr (o', int (length file), w', indexer_clear) \<and>
    take (length file) o' = file \<and>
    split_file file = Inr (tbl, map (take DIGEST_MAX_LENGTH) docs) \<and> index_spec T stx docs tbl \<and>
    (\<exists>n. check_witness fp L (take n w') = Inr True \<and>
      take n w' = json_dump fp (signed_witness L fp (witness_of L ''STEEMIT INDEXER'' inputs file INDEXER_TAG)))"
proof -
  obtain tbl where b: "build_index fp T stx (indexer_clear\<lparr>i_inputs := inputs\<rparr>) =
      Inr \<lparr>i_inputs = inputs, i_digest_tbl = map (take DIGEST_MAX_LENGTH) docs, i_index_tbl = tbl\<rparr>"
    and s: "index_spec T stx docs tbl" using build_index_spec [OF assms(6,7)] .
  let ?ds = "map (take DIGEST_MAX_LENGTH) docs"
  let ?file = "file_chars ord ?ds tbl"
  let ?w = "create_indexer_witness fp L g inputs ?file"
  have ib: "index_ok tbl" "int (file_bytes ?ds tbl) < osz" using s assms(9,10) b by (auto simp: index_spec_def)
  then have fb: "file_bytes ?ds tbl < 2 ^ 31" using assms(11) by simp
  note fc = Merge2Binary_fits [OF assms(3) fb] length_file_chars [OF assms(3), of ?ds tbl]
  obtain t' where t': "split_file ?file = Inr (t', ?ds)" "\<And>k. tbl_get k t' = tbl_get k tbl"
    using split_file_chars [OF assms(3) ib(1) digests_ok_take [OF assms(8)] fb] by blast
  have s': "index_spec T stx docs t'"
    using s t'(2) split_file_ok [OF t'(1)] by (simp add: index_spec_def)
  have w: "length ?w \<le> 415 + 68 * length inputs" by (rule indexer_witness_length [OF assms(1)])
  have "Binary2Digest (digest_bytes inputs) (c_int (int (length (digest_bytes inputs)))) [] = Inr inputs"
    using Binary2Digest_input [OF assms(4,5), of "[]"] by simp
  then have "ebind (Digest2Binary inputs) (\<lambda>b. ecall_build_index fp L g T stx ord indexer_clear b obuf osz wbuf wsz) =
      Inr (?file @ drop (length ?file) obuf, int (length ?file), ?w @ drop (length ?w) wbuf, indexer_clear)"
    using b ib(2) assms(5,12-14) w fc
    by (simp add: Digest2Binary_fits ecall_build_index_def indexer_clear_def Let_def expose_exact)
  moreover have "check_witness fp L ?w = Inr True"
    using check_signed [OF assms(1)] assms(2) by (simp add: create_indexer_witness_eq sig_correct_def)
  ultimately show ?thesis
    using t'(1) s' create_indexer_witness_eq [of fp L g inputs ?file]
    by (intro exI [of _ ?file] exI [of _ t'] exI [of _ "?file @ drop (length ?file) obuf"]
        exI [of _ "?w @ drop (length ?w) wbuf"] conjI exI [of _ "length ?w"]) simp_all
qed

lemma index_bytes_remove_stopwords: "index_bytes (remove_stopwords stx t) \<le> index_bytes t"
proof -
  have e: "index_bytes (tbl_erase k t) \<le> index_bytes t" for k and t :: index_table
    by (induction t) (auto simp: tbl_erase_def index_bytes_def)
  have "index_bytes (fold (\<lambda>word. tbl_erase (f word)) ws t) \<le> index_bytes t" for f and ws :: "string list" and t :: index_table
    by (induction ws arbitrary: t) (auto intro: order_trans [OF _ e])
  then show ?thesis unfolding remove_stopwords_def by (rule order_trans [OF e])
qed

theorem indexer_call_witness:
  "\<exists>file tbl o' w'. ebind (Digest2Binary [json_dump fp_example (string_array [''x''])]) (\<lambda>b.
      ecall_build_index fp_example crypto_example 0 (\<lambda>s. [s]) [CHR 0x02] rev indexer_clear b
      (replicate 100 NUL) 100 (replicate 1000 NUL) 1000) = Inr (o', int (length file), w', indexer_clear) \<and>
    split_file file = Inr (tbl, [''x'']) \<and> index_spec (\<lambda>s. [s]) [CHR 0x02] [''x''] tbl"
proof -
  let ?in = "[json_dump fp_example (string_array [''x''])]" and ?T = "\<lambda>s. [s :: string]"
  let ?tbl = "[(word_id ''x'', [1])] :: index_table"
  let ?st = "\<lparr>i_inputs = ?in, i_digest_tbl = [''x''], i_index_tbl = remove_stopwords [CHR 0x02] ?tbl\<rparr>"
  have t: "json_dump fp_example (string_array [''x'']) = [CHR ''['', DQ, CHR ''x'', DQ, CHR '']'']"
    by (simp add: json_dump_def string_array_eq json_escape_def json_escape_char_def)
  have d: "digest_items fp_example ?in = Inr [''x'']"
    using digest_items_string_array [of fp_example "[''x'']"] by (simp add: json_escape_def json_escape_char_def)
  have "index_word (word_id ''x'') 1 [] = ?tbl" by (simp add: index_word_def Let_def tbl_get_def)
  then have b: "build_index fp_example ?T [CHR 0x02] (indexer_clear\<lparr>i_inputs := ?in\<rparr>) = Inr ?st"
    using d by (simp add: build_index_def indexer_clear_def yield_index_def DIGEST_MAX_LENGTH_def)
  have f: "int (file_bytes (i_digest_tbl ?st) (i_index_tbl ?st)) < 100"
    using index_bytes_remove_stopwords [of "[CHR 0x02]" ?tbl] by (simp add: file_bytes_def index_bytes_def)
  have "\<exists>file tbl o' w'. ebind (Digest2Binary ?in) (\<lambda>b.
      ecall_build_index fp_example crypto_example 0 ?T [CHR 0x02] rev indexer_clear b
      (replicate 100 NUL) 100 (replicate 1000 NUL) 1000) = Inr (o', int (length file), w', indexer_clear) \<and>
    take (length file) o' = file \<and>
    split_file file = Inr (tbl, map (take DIGEST_MAX_LENGTH) [''x'']) \<and> index_spec ?T [CHR 0x02] [''x''] tbl \<and>
    (\<exists>n. check_witness fp_example crypto_example (take n w') = Inr True \<and>
      take n w' = json_dump fp_example (signed_witness crypto_example fp_example
        (witness_of crypto_example ''STEEMIT INDEXER'' ?in file INDEXER_TAG)))"
    by (rule indexer_call [OF crypto_example_ok _ _ _ d _ _ b f])
      (simp_all add: t is_order_def digests_ok_def TEMP_DIGEST_LEN_def size_t_of_def)
  then show ?thesis unfolding DIGEST_MAX_LENGTH_def by (elim exE conjE) (intro exI conjI, assumption, simp_all)
qed

end
