(* ===== verification/Reducer.thy ===== *)
theory Reducer
  imports Indexer
begin

text \<open>
  The reducer enclave (\<open>Enclave/enclave_reducer.cpp\<close>): it merges two index files into one by appending the digests and
  moving the document numbers of the second file behind those of the first.  The main result is that merging
  commutes with indexing: the merge of the indexes of two batches is the index of both batches together.
\<close>

subsection \<open>Merging\<close>

definition REDUCER_TAG :: string where
  "REDUCER_TAG = ''reducer'' @ [NUL]"

definition create_reducer_witness :: "fp_lib \<Rightarrow> crypto_lib \<Rightarrow> int \<Rightarrow> string \<Rightarrow> string \<Rightarrow> string \<Rightarrow> string" where
  "create_reducer_witness fp L g g_index new_index g_new_index =
     (let reducer_context = witness_init ''STEEMIT REDUCER'' (witness_fresh g);
          reducer_context = witness_input L g_index reducer_context;
          reducer_context = witness_input L new_index reducer_context;
          reducer_context = witness_output L g_new_index reducer_context;
          reducer_context = witness_func L REDUCER_TAG reducer_context
      in fst (witness_finalize fp L reducer_context []))"

text \<open>The two nested loops over the second table; \<open>docID + offset\<close> is 32-bit arithmetic.\<close>

definition merge_tables ::
  "(index_table \<Rightarrow> index_table) \<Rightarrow> DWORD \<Rightarrow> index_table \<Rightarrow> index_table \<Rightarrow> index_table" where
  "merge_tables ord offset index_tbl1 index_tbl2 =
     fold (\<lambda>(wordID, docIDs) tbl. fold (\<lambda>docID. tbl_push wordID (docID + offset)) docIDs tbl)
       (ord index_tbl2) index_tbl1"

definition ecall_do_merge ::
  "fp_lib \<Rightarrow> crypto_lib \<Rightarrow> int \<Rightarrow> (index_table \<Rightarrow> index_table) \<Rightarrow> string \<Rightarrow> string \<Rightarrow> string \<Rightarrow> int \<Rightarrow> string \<Rightarrow> int \<Rightarrow>
   fault + (string \<times> int \<times> string)" where
  "ecall_do_merge fp L g ord index1 index2 new_index new_sz reducer_witness reducer_witness_size =
     (if length index1 < 4 \<or> length index2 < 4 then Inl FRead
      else let index_sz1 = sint (chars_dword (take 4 index1)); index_sz2 = sint (chars_dword (take 4 index2)) in
        ebind (Binary2Index (drop 4 index1) index_sz1 []) (\<lambda>index_tbl1.
        ebind (Binary2Index (drop 4 index2) index_sz2 []) (\<lambda>index_tbl2.
        ebind (Binary2Digest (drop (4 + nat index_sz1) index1) (digest_rest index1 index_sz1) []) (\<lambda>digest_tbl1.
        ebind (Binary2Digest (drop (4 + nat index_sz2) index2) (digest_rest index2 index_sz2) []) (\<lambda>digest_tbl2.
          let new_digest_tbl = digest_tbl1 @ digest_tbl2;
              new_index_tbl = merge_tables ord (word_of_nat (length digest_tbl1)) index_tbl1 index_tbl2 in
          ebind (Merge2Binary ord new_digest_tbl new_index_tbl) (\<lambda>file.
          let witness = create_reducer_witness fp L g index1 index2 file in
          ebind (expose new_index (new_sz > int (length file)) file) (\<lambda>new_index.
          ebind (expose reducer_witness (size_t_of reducer_witness_size > length witness) witness) (\<lambda>reducer_witness.
            Inr (new_index, int (length file), reducer_witness)))))))))"

subsection \<open>The merged table\<close>

lemma merge_tables_fold:
  "merge_tables ord n t1 t2 =
     fold (\<lambda>(k, v). tbl_push k v) (map (\<lambda>(k, v). (k, v + n)) (index_pairs (ord t2))) t1"
proof -
  have i: "fold (\<lambda>docID. tbl_push k (docID + n)) vs t = fold (\<lambda>(k, v). tbl_push k v) (map (\<lambda>v. (k, v + n)) vs) t"
    for k vs t by (induction vs arbitrary: t) simp_all
  have "fold (\<lambda>(k, vs) t. fold (\<lambda>v. tbl_push k (v + n)) vs t) xs t =
      fold (\<lambda>(k, v). tbl_push k v) (map (\<lambda>(k, v). (k, v + n)) (index_pairs xs)) t" for xs t
    by (induction xs arbitrary: t) (auto simp: index_pairs_def i comp_def)
  then show ?thesis by (simp add: merge_tables_def)
qed

lemma tbl_get_merge:
  assumes "is_order ord" "index_ok t2"
  shows "tbl_get w (merge_tables ord n t1 t2) = tbl_get w t1 @ map (\<lambda>d. d + n) (tbl_get w t2)"
proof -
  have f: "filter (\<lambda>(k, v). k = w) (map (\<lambda>(k, v). (k, v + n)) xs) =
      map (\<lambda>(k, v). (k, v + n)) (filter (\<lambda>(k, v). k = w) xs)" for xs :: "(DWORD \<times> DWORD) list"
    by (induction xs) auto
  have "map snd (filter (\<lambda>(k, v). k = w) (index_pairs (ord t2))) = tbl_get w t2"
    using index_pairs_of_key [of "ord t2" w] index_ok_order [OF assms] by (simp add: index_ok_def)
  moreover have s: "map snd (map (\<lambda>(k, v). (k, v + n)) xs) = map (\<lambda>d. d + n) (map snd xs)"
    for xs :: "(DWORD \<times> DWORD) list" by (induction xs) auto
  ultimately show ?thesis unfolding merge_tables_fold tbl.get_fold_push f s by simp
qed

lemma index_ok_merge:
  assumes "is_order ord" "index_ok t1" "index_ok t2" "\<And>w d. d \<in> set (tbl_get w t2) \<Longrightarrow> d + n \<noteq> 0"
  shows "index_ok (merge_tables ord n t1 t2)"
proof -
  have nz: "v + n \<noteq> 0" if "(k, v) \<in> set (index_pairs (ord t2))" for k v
  proof -
    have "map snd (filter (\<lambda>(k', v). k' = k) (index_pairs (ord t2))) = tbl_get k t2"
      using index_pairs_of_key [of "ord t2" k] index_ok_order [OF assms(1,3)] by (simp add: index_ok_def)
    moreover have "v \<in> set (map snd (filter (\<lambda>(k', v). k' = k) (index_pairs (ord t2))))" using that by force
    ultimately have "v \<in> set (tbl_get k t2)" by metis
    then show ?thesis by (rule assms(4))
  qed
  have push: "index_ok (fold (\<lambda>(k, v). tbl_push k v) xs t)"
    if "index_ok t" "\<forall>(k, v) \<in> set xs. v \<noteq> 0" for xs t
    using that by (induction xs arbitrary: t) (auto simp: index_ok_push)
  show ?thesis unfolding merge_tables_fold by (rule push [OF assms(2)]) (auto simp: nz)
qed

lemma postings_append: "postings T w k (xs @ ys) = postings T w k xs @ postings T w (k + length xs) ys"
  by (induction xs arbitrary: k) simp_all

lemma postings_shift: "map (\<lambda>d. d + word_of_nat n) (postings T w k docs) = postings T w (k + n) docs"
  by (induction docs arbitrary: k) (simp_all add: add.commute)

lemma index_spec_merge:
  assumes "is_order ord" "index_spec T stx docs1 t1" "index_spec T stx docs2 t2" "length docs1 + length docs2 < 2 ^ 32"
  shows "index_spec T stx (docs1 @ docs2) (merge_tables ord (word_of_nat (length docs1)) t1 t2)"
proof -
  let ?n = "word_of_nat (length docs1) :: DWORD"
  have ok: "index_ok t1" "index_ok t2" using assms(2,3) by (auto simp: index_spec_def)
  have nz: "d + ?n \<noteq> 0" if "d \<in> set (tbl_get w t2)" for w d
  proof -
    have "d \<in> set (postings T w 1 docs2)" using that assms(3) by (auto simp: index_spec_def split: if_splits)
    then obtain j where "1 \<le> j" "j < 1 + length docs2" "d = word_of_nat j" using postings_range by blast
    with word_of_nat_neq [of 0 "j + length docs1"] assms(4) show ?thesis by simp
  qed
  have "tbl_get w (merge_tables ord ?n t1 t2) = (if w \<in> stop_ids stx then [] else postings T w 1 (docs1 @ docs2))" for w
    using tbl_get_merge [OF assms(1) ok(2), of w ?n t1] assms(2,3)
    by (simp add: index_spec_def postings_append postings_shift)
  with index_ok_merge [OF assms(1) ok nz] show ?thesis by (simp add: index_spec_def)
qed

lemma create_reducer_witness_eq:
  "create_reducer_witness fp L g a b c =
     json_dump fp (signed_witness L fp (witness_of L ''STEEMIT REDUCER'' [a, b] c REDUCER_TAG))"
  using witness_calls [of L REDUCER_TAG c "[a, b]" "''STEEMIT REDUCER''" g]
  by (simp add: create_reducer_witness_def Let_def witness_finalize_eq witness_of_def)

lemma reducer_witness_length:
  assumes "crypto_sizes L"
  shows "length (create_reducer_witness fp L g a b c) \<le> 551"
  using witness_text_length [OF assms, of "''STEEMIT REDUCER''" fp "[a, b]"]
  by (simp add: create_reducer_witness_eq json_escape_def json_escape_char_def)

text \<open>Both files are read before anything else happens, so a call is determined by their parts.\<close>

lemma ecall_do_merge_eq:
  assumes "split_file f1 = Inr (t1, ds1)" "split_file f2 = Inr (t2, ds2)"
  shows "ecall_do_merge fp L g ord f1 f2 new_index new_sz rw rwsz =
    ebind (Merge2Binary ord (ds1 @ ds2) (merge_tables ord (word_of_nat (length ds1)) t1 t2)) (\<lambda>file.
     let witness = create_reducer_witness fp L g f1 f2 file in
     ebind (expose new_index (new_sz > int (length file)) file) (\<lambda>new_index.
     ebind (expose rw (size_t_of rwsz > length witness) witness) (\<lambda>rw.
       Inr (new_index, int (length file), rw))))"
proof -
  have l: "\<not> length f1 < 4" "\<not> length f2 < 4" using assms by (auto simp: split_file_def split: if_splits)
  have "Binary2Index (drop 4 f1) (sint (chars_dword (take 4 f1))) [] = Inr t1"
    "Binary2Digest (drop (4 + nat (sint (chars_dword (take 4 f1)))) f1) (digest_rest f1 (sint (chars_dword (take 4 f1)))) [] = Inr ds1"
    "Binary2Index (drop 4 f2) (sint (chars_dword (take 4 f2))) [] = Inr t2"
    "Binary2Digest (drop (4 + nat (sint (chars_dword (take 4 f2)))) f2) (digest_rest f2 (sint (chars_dword (take 4 f2)))) [] = Inr ds2"
    using assms l by (auto simp: split_file_def Let_def)
  with l show ?thesis unfolding ecall_do_merge_def Let_def by simp
qed

subsection \<open>Properties\<close>

text \<open>
  C5. Merging commutes with indexing: from two files whose tables are the exact indexes of the documents \<open>docs1\<close> and
  \<open>docs2\<close>, the reducer makes a file that splits into the digests of both and the exact index of \<open>docs1 @ docs2\<close>, in every
  iteration order of the hash tables; its witness passes the check and names the hashes of the two files and of
  the result.
\<close>

theorem reducer_is_index_of_all:
  assumes "crypto_sizes L" "sig_correct L" "is_order ord"
    and "split_file f1 = Inr (t1, ds1)" "index_spec T stx docs1 t1" "length ds1 = length docs1" "digests_ok ds1"
    and "split_file f2 = Inr (t2, ds2)" "index_spec T stx docs2 t2" "digests_ok ds2"
    and "length docs1 + length docs2 < 2 ^ 32"
    and "int (file_bytes (ds1 @ ds2) (merge_tables ord (word_of_nat (length ds1)) t1 t2)) < nsz" "nsz < 2 ^ 31"
    and "nsz \<le> int (length nbuf)" "551 < size_t_of wsz" "551 \<le> length wbuf"
  shows "\<exists>file tbl n' w' n. ecall_do_merge fp L g ord f1 f2 nbuf nsz wbuf wsz = Inr (n', int (length file), w') \<and>
    take (length file) n' = file \<and> split_file file = Inr (tbl, ds1 @ ds2) \<and>
    index_spec T stx (docs1 @ docs2) tbl \<and> check_witness fp L (take n w') = Inr True \<and>
    take n w' = json_dump fp (signed_witness L fp (witness_of L ''STEEMIT REDUCER'' [f1, f2] file REDUCER_TAG))"
proof -
  let ?tbl = "merge_tables ord (word_of_nat (length ds1)) t1 t2"
  let ?file = "file_chars ord (ds1 @ ds2) ?tbl"
  let ?w = "create_reducer_witness fp L g f1 f2 ?file"
  have s: "index_spec T stx (docs1 @ docs2) ?tbl"
    using index_spec_merge [OF assms(3,5,9,11)] assms(6) by simp
  have fb: "file_bytes (ds1 @ ds2) ?tbl < 2 ^ 31" using assms(12,13) by simp
  note fc = Merge2Binary_fits [OF assms(3) fb] length_file_chars [OF assms(3), of "ds1 @ ds2" ?tbl]
  from s have "index_ok ?tbl" by (simp add: index_spec_def)
  moreover have "digests_ok (ds1 @ ds2)" using assms(7,10) by (simp add: digests_ok_def)
  ultimately obtain t' where t': "split_file ?file = Inr (t', ds1 @ ds2)" "\<And>k. tbl_get k t' = tbl_get k ?tbl"
    using split_file_chars [OF assms(3)] fb by blast
  have s': "index_spec T stx (docs1 @ docs2) t'"
    using s t'(2) split_file_ok [OF t'(1)] by (simp add: index_spec_def)
  have "ecall_do_merge fp L g ord f1 f2 nbuf nsz wbuf wsz =
      Inr (?file @ drop (length ?file) nbuf, int (length ?file), ?w @ drop (length ?w) wbuf)"
    using reducer_witness_length [OF assms(1), of fp g f1 f2 ?file] assms(12,14-16) fc
    by (simp add: ecall_do_merge_eq [OF assms(4,8)] Let_def expose_exact)
  moreover have "check_witness fp L ?w = Inr True"
    using check_signed [OF assms(1)] assms(2) by (simp add: create_reducer_witness_eq sig_correct_def)
  ultimately show ?thesis
    using t'(1) s' create_reducer_witness_eq [of fp L g f1 f2 ?file]
    by (intro exI [of _ ?file] exI [of _ t'] exI [of _ "?file @ drop (length ?file) nbuf"]
        exI [of _ "?w @ drop (length ?w) wbuf"] exI [of _ "length ?w"] conjI) simp_all
qed

text \<open>The file of one document without words.\<close>

definition example_file :: string where
  "example_file = file_chars rev [''d''] []"

lemma example_file_split: "split_file example_file = Inr ([], [''d''])"
proof -
  obtain t' where "split_file (file_chars rev [''d''] []) = Inr (t', [''d''])" "\<And>k. tbl_get k t' = tbl_get k []"
    using split_file_chars [of rev "[]" "[''d'']"]
    by (auto simp: is_order_def digests_ok_def TEMP_DIGEST_LEN_def file_bytes_def index_bytes_def index_ok_def)
  moreover have "split_file example_file = Inr ([], ds)" if "split_file example_file = Inr (t, ds)" for t ds
    using that by (auto simp: split_file_def example_file_def file_chars_def index_chars_def flatten_index_def index_bytes_def
        Binary2Index_def dword_chars_def Let_def split: if_splits)
  ultimately show ?thesis by (simp add: example_file_def)
qed

theorem reducer_is_index_of_all_witness:
  "\<exists>file tbl n' w'. ecall_do_merge fp_example crypto_example 0 rev example_file example_file
      (replicate 20 NUL) 20 (replicate 1000 NUL) 1000 = Inr (n', int (length file), w') \<and>
    split_file file = Inr (tbl, [''d'', ''d''])"
proof -
  have sp: "index_spec (\<lambda>_. []) [CHR 0x02] [''d''] []"
    by (simp add: index_spec_def tbl_get_def has_word_def)
  have d: "digests_ok [''d'']" by (simp add: digests_ok_def TEMP_DIGEST_LEN_def)
  have "\<exists>file tbl n' w' n. ecall_do_merge fp_example crypto_example 0 rev example_file example_file
      (replicate 20 NUL) 20 (replicate 1000 NUL) 1000 = Inr (n', int (length file), w') \<and>
    take (length file) n' = file \<and> split_file file = Inr (tbl, [''d''] @ [''d'']) \<and>
    index_spec (\<lambda>_. []) [CHR 0x02] ([''d''] @ [''d'']) tbl \<and> check_witness fp_example crypto_example (take n w') = Inr True \<and>
    take n w' = json_dump fp_example (signed_witness crypto_example fp_example
      (witness_of crypto_example ''STEEMIT REDUCER'' [example_file, example_file] file REDUCER_TAG))"
    by (rule reducer_is_index_of_all [OF crypto_example_ok _ example_file_split sp _ d example_file_split sp d])
      (simp_all add: is_order_def merge_tables_def index_bytes_def size_t_of_def file_bytes_def)
  then show ?thesis by auto
qed

end
