(* ===== verification/Querier.thy ===== *)
theory Querier
  imports Reducer
begin

text \<open>
  The querier enclave (\<open>Enclave/enclave_querier.cpp\<close>): \<open>ecall_querier_setup\<close> loads an index file, \<open>ecall_do_query\<close> answers one
  request with a page of exactly ten results and a witness over the index file, the request and the answer.

  The static variables of the file are the record \<open>querier_state\<close>; \<open>operator[]\<close> of the hash table adds an empty
  entry for an unknown word (\<open>tbl_touch\<close>).
\<close>

subsection \<open>Setup\<close>

definition QUERIER_TAG :: string where
  "QUERIER_TAG = ''querier'' @ [NUL]"

record querier_state =
  q_digest_tbl :: "string list"
  q_index_tbl :: index_table
  querier_context_template :: witness_context

definition ecall_querier_setup :: "crypto_lib \<Rightarrow> querier_state \<Rightarrow> string \<Rightarrow> fault + querier_state" where
  "ecall_querier_setup L st b_index_input =
     ebind (split_file b_index_input) (\<lambda>(index_tbl, digest_tbl).
       let template = witness_clear (querier_context_template st);
           template = witness_init ''STEEMIT QUERIER'' template;
           template = witness_input L b_index_input template
       in Inr (st\<lparr>q_digest_tbl := digest_tbl, q_index_tbl := index_tbl,
                  querier_context_template := template\<rparr>))"

subsection \<open>The steps of a query\<close>

definition tbl_touch :: "'k \<Rightarrow> ('k \<times> 'v list) list \<Rightarrow> ('k \<times> 'v list) list" where
  "tbl_touch k t = (if k \<in> fst ` set t then t else t @ [(k, [])])"

text \<open>\<open>std::set_intersection\<close>.\<close>

fun set_intersection :: "DWORD list \<Rightarrow> DWORD list \<Rightarrow> DWORD list" where
  "set_intersection (x # xs) (y # ys) =
     (if x < y then set_intersection xs (y # ys)
      else if y < x then set_intersection (x # xs) ys
      else x # set_intersection xs ys)"
| "set_intersection xs ys = []"

text \<open>Steps 1 and 2: at most 32 words and the posting list of each.\<close>

definition query_words :: "(string \<Rightarrow> string list) \<Rightarrow> string \<Rightarrow> DWORD list" where
  "query_words T q = take 32 (map word_id (T q))"

definition query_lists :: "index_table \<Rightarrow> DWORD list \<Rightarrow> DWORD list list" where
  "query_lists tbl q_wordID_list = map (\<lambda>w. tbl_get w tbl) q_wordID_list"

text \<open>Step 3: the loop over the lists, which starts with the last list in \<open>_this_vec\<close>.\<close>

definition query_hits :: "DWORD list list \<Rightarrow> DWORD list" where
  "query_hits docID_lists =
     fold (\<lambda>i this_vec. if i > 0 then set_intersection (docID_lists ! (i - 1)) (docID_lists ! i) else docID_lists ! 0)
       [0..<length docID_lists] (if docID_lists = [] then [] else last docID_lists)"

text \<open>
  Step 4: an iterator before the first element is dereferenced when the page is not positive; a product outside the
  range of \<open>int\<close> is undefined.
\<close>

definition digest_of :: "string list \<Rightarrow> DWORD \<Rightarrow> fault + string" where
  "digest_of digest_tbl docID =
     (if unat (docID - 1) < length digest_tbl then Inr (digest_tbl ! unat (docID - 1)) else Inl FRead)"

definition query_page :: "string list \<Rightarrow> DWORD list \<Rightarrow> int \<Rightarrow> fault + string list" where
  "query_page digest_tbl this_vec page =
     (let start = (page - 1) * 10 in
      if \<not> in_int (page - 1) \<or> \<not> in_int start then Inl FIndet
      else if start < int (length this_vec) then
        if start < 0 then Inl FRead
        else emap (digest_of digest_tbl) (take 10 (drop (nat start) this_vec))
      else Inr [])"

text \<open>Step 5: dummies up to exactly ten results.\<close>

definition query_pad :: "string list \<Rightarrow> string list" where
  "query_pad results = results @ replicate (10 - length results) (replicate DIGEST_MAX_LENGTH CHR ''X'')"

definition query_response :: "string list \<Rightarrow> JSON" where
  "query_response q_results_list =
     (let response1 = set_key ''results'' (Make CArray) Null in
      fold (\<lambda>i response1.
          let result = set_key ''number'' (String (to_string (int i + 1))) Null;
              result = set_key ''answer'' (String (q_results_list ! i)) result
          in set_key ''results'' (json_append result (index_key ''results'' response1)) response1)
        [0..<10] response1)"

definition querier_witness :: "fp_lib \<Rightarrow> crypto_lib \<Rightarrow> witness_context \<Rightarrow> string \<Rightarrow> JSON \<Rightarrow> string" where
  "querier_witness fp L template request response1 =
     (let querier_context = witness_input L request template;
          querier_context = witness_output L (json_dump fp response1) querier_context;
          querier_context = witness_func L QUERIER_TAG querier_context
      in fst (witness_finalize fp L querier_context []))"

subsection \<open>The entry point\<close>

text \<open>
  \<open>querier_request\<close> is the buffer up to its announced size; the JSON text ends at its first NUL.  The page number is cut to
  an \<open>int\<close>.
\<close>

definition query_final :: "fp_lib \<Rightarrow> crypto_lib \<Rightarrow> witness_context \<Rightarrow> string \<Rightarrow> string list \<Rightarrow> fault + string" where
  "query_final fp L template request results =
     (let response1 = query_response results;
          w = querier_witness fp L template request response1
      in ebind (lift_json (JSON_Load fp w)) (\<lambda>jw.
           Inr (json_dump fp (set_key ''witness'' jw (set_key ''response'' response1 Null)))))"

definition ecall_do_query ::
  "fp_lib \<Rightarrow> crypto_lib \<Rightarrow> (string \<Rightarrow> string list) \<Rightarrow> querier_state \<Rightarrow> string \<Rightarrow> string \<Rightarrow> int \<Rightarrow>
   fault + (string \<times> querier_state)" where
  "ecall_do_query fp L T st querier_request querier_response querier_response_size =
     ebind (lift_json (JSON_Load fp (c_str querier_request))) (\<lambda>request.
       let q_keywords = json_dump fp (index_key ''keywords'' request) in
       ebind (trim_string (json_dump fp (index_key ''page'' request))) (\<lambda>q_page.
         if length q_keywords = 0 \<or> length q_page = 0 then Inr (querier_response, st)
         else
           let page = sint (word_of_int (strtol 10 q_page) :: 32 word);
               q_wordID_list = query_words T q_keywords;
               st = st\<lparr>q_index_tbl := fold tbl_touch q_wordID_list (q_index_tbl st)\<rparr>;
               this_vec = query_hits (query_lists (q_index_tbl st) q_wordID_list)
           in ebind (query_page (q_digest_tbl st) this_vec page) (\<lambda>results.
                ebind (query_final fp L (querier_context_template st) querier_request (query_pad results)) (\<lambda>final_all.
                  ebind (expose querier_response (size_t_of querier_response_size > length final_all) final_all) (\<lambda>r.
                    Inr (r, st))))))"

subsection \<open>Intersection\<close>

lemma set_intersection_correct:
  "sorted_wrt (<) xs \<Longrightarrow> sorted_wrt (<) ys \<Longrightarrow> set_intersection xs ys = filter (\<lambda>x. x \<in> set ys) xs"
proof (induction xs ys rule: set_intersection.induct)
  case (1 x xs y ys)
  have x: "x \<notin> set ys" if "x < y" using that "1.prems"(2) by auto
  have xs: "z \<noteq> y" if "y < x" "z \<in> set xs" for z using that "1.prems"(1) by auto
  have eq: "filter (\<lambda>z. z = y \<or> z \<in> set ys) xs = filter (\<lambda>z. z \<in> set ys) xs" if "\<not> x < y"
    using that "1.prems"(1) by (intro filter_cong) auto
  consider "x < y" | "y < x" | "x = y" by fastforce
  then show ?case
  proof cases
    case 1
    with "1.IH"(1) "1.prems" x show ?thesis by auto
  next
    case 2
    with "1.IH"(2) "1.prems" eq show ?thesis by auto
  next
    case 3
    with "1.IH"(3) "1.prems" eq show ?thesis by auto
  qed
qed auto

lemma query_hits_eq:
  "query_hits ls = (case rev ls of [] \<Rightarrow> [] | [l] \<Rightarrow> l | l # k # _ \<Rightarrow> set_intersection k l)"
proof (cases ls rule: rev_cases)
  case (snoc ks l)
  show ?thesis
  proof (cases ks rule: rev_cases)
    case (snoc js k)
    with \<open>ls = ks @ [l]\<close> show ?thesis by (simp add: query_hits_def nth_append)
  qed (use \<open>ls = ks @ [l]\<close> in \<open>simp add: query_hits_def\<close>)
qed (simp add: query_hits_def)

lemma sorted_postings: "k + length docs \<le> 2 ^ 32 \<Longrightarrow> sorted_wrt (<) (postings T w k docs)"
proof (induction docs arbitrary: k)
  case (Cons doc docs)
  have "(word_of_nat k :: DWORD) < x" if x: "x \<in> set (postings T w (Suc k) docs)" for x
  proof -
    obtain j where "Suc k \<le> j" "j < Suc k + length docs" "x = word_of_nat j" using postings_range [OF x] by blast
    with Cons.prems show ?thesis by (simp add: word_less_nat_alt unsigned_of_nat take_bit_nat_eq_self)
  qed
  with Cons show ?case by auto
qed simp

lemma tbl_get_touch [simp]: "tbl_get k (tbl_touch k' t) = tbl_get k t"
proof -
  have "tbl_get k (t @ [(k', [])]) = tbl_get k t" by (induction t) (auto simp: tbl_get_def)
  then show ?thesis by (simp add: tbl_touch_def)
qed

lemma tbl_get_touch_all [simp]: "tbl_get k (fold tbl_touch ks t) = tbl_get k t"
  by (induction ks arbitrary: t) simp_all

lemma query_lists_touch [simp]: "query_lists (fold tbl_touch ks t) ws = query_lists t ws"
  by (simp add: query_lists_def)

subsection \<open>What a query returns\<close>

text \<open>The numbers of the documents that contain every one of the given words, none of them a stop word.\<close>

definition matching :: "(string \<Rightarrow> string list) \<Rightarrow> string \<Rightarrow> string list \<Rightarrow> DWORD list \<Rightarrow> nat list" where
  "matching T stx docs ws =
     filter (\<lambda>d. \<forall>w \<in> set ws. w \<notin> stop_ids stx \<and> has_word T w (docs ! (d - 1))) [1..<Suc (length docs)]"

lemma index_spec_matching:
  "index_spec T stx docs tbl \<Longrightarrow> tbl_get w tbl = map word_of_nat (matching T stx docs [w])"
  using postings_filter [of T w 1 docs] by (auto simp: index_spec_def matching_def simp del: upt_Suc)

lemma filter_of_nat:
  assumes "\<forall>j \<in> set xs. j < 2 ^ 32" "\<forall>j \<in> set ys. j < 2 ^ 32"
  shows "filter (\<lambda>x. x \<in> set (map (word_of_nat :: nat \<Rightarrow> DWORD) ys)) (map word_of_nat xs) =
    map word_of_nat (filter (\<lambda>j. j \<in> set ys) xs)"
proof -
  have "(word_of_nat j :: DWORD) \<in> word_of_nat ` set ys \<longleftrightarrow> j \<in> set ys" if "j \<in> set xs" for j
  proof
    assume "(word_of_nat j :: DWORD) \<in> word_of_nat ` set ys"
    then obtain i where "i \<in> set ys" "(word_of_nat i :: DWORD) = word_of_nat j" by auto
    with assms that word_of_nat_neq [of i j] word_of_nat_neq [of j i] show "j \<in> set ys"
      by (metis linorder_neqE_nat)
  qed simp
  then have "filter (\<lambda>j. (word_of_nat j :: DWORD) \<in> word_of_nat ` set ys) xs = filter (\<lambda>j. j \<in> set ys) xs"
    by (intro filter_cong) simp_all
  then show ?thesis by (simp add: filter_map comp_def)
qed

lemma query_hits_matching:
  assumes "index_spec T stx docs tbl" "length docs < 2 ^ 32" "ws \<noteq> []"
  shows "query_hits (query_lists tbl ws) = map word_of_nat (matching T stx docs (drop (length ws - 2) ws))"
proof (cases ws rule: rev_cases)
  case (snoc us w)
  show ?thesis
  proof (cases us rule: rev_cases)
    case Nil
    with snoc show ?thesis by (simp add: query_hits_eq query_lists_def index_spec_matching [OF assms(1)])
  next
    case (snoc vs u)
    have s: "sorted_wrt (<) (tbl_get x tbl)" for x
      using assms(1,2) sorted_postings [of 1 docs T x] by (simp add: index_spec_def)
    have "query_hits (query_lists tbl ws) = set_intersection (tbl_get u tbl) (tbl_get w tbl)"
      using snoc \<open>ws = us @ [w]\<close> by (simp add: query_hits_eq query_lists_def)
    also have "\<dots> = filter (\<lambda>x. x \<in> set (tbl_get w tbl)) (tbl_get u tbl)"
      by (rule set_intersection_correct [OF s s])
    also have "\<dots> = map word_of_nat (filter (\<lambda>j. j \<in> set (matching T stx docs [w])) (matching T stx docs [u]))"
      unfolding index_spec_matching [OF assms(1)]
      by (rule filter_of_nat) (use assms(2) in \<open>auto simp: matching_def\<close>)
    also have "filter (\<lambda>j. j \<in> set (matching T stx docs [w])) (matching T stx docs [u]) = matching T stx docs [u, w]"
      unfolding matching_def filter_filter by (rule filter_cong) auto
    finally show ?thesis using snoc \<open>ws = us @ [w]\<close> by simp
  qed
qed (use assms(3) in simp)

lemma query_page_exact:
  assumes "\<forall>d \<in> set ds. 1 \<le> d \<and> d \<le> length digests" "length digests < 2 ^ 32"
    and "1 \<le> page" "page \<le> 2 ^ 27"
  shows "query_page digests (map word_of_nat ds) page =
    Inr (map (\<lambda>d. digests ! (d - 1)) (take 10 (drop (nat ((page - 1) * 10)) ds)))"
proof -
  have d: "digest_of digests (word_of_nat d) = Inr (digests ! (d - 1))" if "d \<in> set ds" for d
  proof -
    from assms(1) that have r: "1 \<le> d" "d \<le> length digests" by auto
    then obtain j where j: "d = Suc j" by (cases d) auto
    then have "unat (word_of_nat d - 1 :: DWORD) = j"
      using r assms(2) by (simp add: unsigned_of_nat take_bit_nat_eq_self)
    then show ?thesis using r j by (simp add: digest_of_def)
  qed
  have "emap (digest_of digests) (map word_of_nat xs) = Inr (map (\<lambda>d. digests ! (d - 1)) xs)"
    if "set xs \<subseteq> set ds" for xs using that by (induction xs) (simp_all add: d)
  moreover have "set (take 10 (drop (nat ((page - 1) * 10)) ds)) \<subseteq> set ds"
    using set_take_subset set_drop_subset by (metis subset_trans)
  ultimately have e: "emap (digest_of digests) (map word_of_nat (take 10 (drop (nat ((page - 1) * 10)) ds))) =
      Inr (map (\<lambda>d. digests ! (d - 1)) (take 10 (drop (nat ((page - 1) * 10)) ds)))" by blast
  have r: "in_int (page - 1)" "in_int ((page - 1) * 10)" "0 \<le> (page - 1) * 10"
    using assms(3,4) by (auto simp: in_int_def)
  show ?thesis
  proof (cases "(page - 1) * 10 < int (length ds)")
    case True
    with e r show ?thesis by (simp add: query_page_def Let_def take_map drop_map)
  next
    case False
    then have "drop (nat ((page - 1) * 10)) ds = []" by simp
    with False r show ?thesis by (simp add: query_page_def Let_def)
  qed
qed

lemma query_response_eq:
  "query_response rs = Object [(''results'', Array (map (\<lambda>i.
     Object [(''answer'', String (rs ! i)), (''number'', String (to_string (int i + 1)))]) [0..<10]))]"
proof -
  have "fold (\<lambda>i r. set_key ''results'' (json_append (f i) (index_key ''results'' r)) r) is
      (Object [(''results'', Array xs)]) = Object [(''results'', Array (xs @ map f is))]" for f and "is" :: "nat list" and xs
    by (induction "is" arbitrary: xs) simp_all
  from this [of "\<lambda>i. Object [(''answer'', String (rs ! i)), (''number'', String (to_string (int i + 1)))]" "[0..<10]" "[]"]
  show ?thesis by (simp add: query_response_def Let_def del: upt_rec_numeral)
qed

lemma json_ok_query_response: "json_ok (query_response rs)" "JSONType (query_response rs) = CObject"
  by (simp_all add: query_response_eq json_escape_def json_escape_char_def del: upt_rec_numeral)

subsection \<open>The witness of a query\<close>

lemma setup_template:
  assumes "ecall_querier_setup L st0 file = Inr st"
  shows "querier_context_template st =
    \<lparr>w_tag = ''STEEMIT QUERIER'', w_ins = [sha256_string L file], w_out = [], w_bin = [], w_stage = 2\<rparr>"
  using assms by (auto simp: ecall_querier_setup_def Let_def witness_clear_def witness_init_def witness_input_def)

lemma querier_witness_eq:
  assumes "ecall_querier_setup L st0 file = Inr st"
  shows "querier_witness fp L (querier_context_template st) request response1 =
    json_dump fp (signed_witness L fp (witness_of L ''STEEMIT QUERIER'' [file, request] (json_dump fp response1) QUERIER_TAG))"
  unfolding querier_witness_def setup_template [OF assms]
  by (simp add: Let_def witness_input_def witness_output_def witness_func_def witness_finalize_eq witness_of_def)

definition answer_json :: "fp_lib \<Rightarrow> crypto_lib \<Rightarrow> string \<Rightarrow> string \<Rightarrow> string list \<Rightarrow> JSON" where
  "answer_json fp L file request results =
     Object [(''response'', query_response results),
       (''witness'', signed_witness L fp (witness_of L ''STEEMIT QUERIER'' [file, request]
          (json_dump fp (query_response results)) QUERIER_TAG))]"

lemma query_final_eq:
  assumes "ecall_querier_setup L st0 file = Inr st"
  shows "query_final fp L (querier_context_template st) request results =
    Inr (json_dump fp (answer_json fp L file request results))"
  unfolding query_final_def querier_witness_eq [OF assms] Let_def
  by (simp add: Load_dump answer_json_def)

lemma json_ok_answer: "json_ok (answer_json fp L file request results)"
  by (simp add: answer_json_def json_ok_query_response json_escape_def json_escape_char_def)

lemma page_argument:
  assumes "index_key ''page'' j = String (to_string page)" "1 \<le> page" "page \<le> 2 ^ 27"
  shows "trim_string (json_dump fp (index_key ''page'' j)) = Inr (to_string page)"
    "to_string page \<noteq> []" "sint (word_of_int (strtol 10 (to_string page)) :: 32 word) = page"
proof -
  show "trim_string (json_dump fp (index_key ''page'' j)) = Inr (to_string page)"
    by (simp add: assms(1) json_dump_def trim_string_quotes)
  show "to_string page \<noteq> []" by (simp add: to_string_def)
  have "in_long page" using assms(2,3) by (simp add: in_long_def LONG_MIN_def LONG_MAX_def)
  then have "strtol 10 (to_string page) = page" by (rule strtol_to_string)
  with assms(2,3) show "sint (word_of_int (strtol 10 (to_string page)) :: 32 word) = page"
    by (simp add: signed_of_int signed_take_bit_int_eq_self)
qed

lemma dump_nonempty: "json_dump fp (String s) \<noteq> []"
  by (simp add: json_dump_def)

lemma length_query_pad: "length results \<le> 10 \<Longrightarrow> length (query_pad results) = 10"
  by (simp add: query_pad_def)

text \<open>The digests on a page of the documents found for the words \<open>ws\<close>.\<close>

definition page_results :: "(string \<Rightarrow> string list) \<Rightarrow> string \<Rightarrow> string list \<Rightarrow> DWORD list \<Rightarrow> int \<Rightarrow> string list" where
  "page_results T stx docs ws page = map (\<lambda>d. take DIGEST_MAX_LENGTH (docs ! (d - 1)))
     (take 10 (drop (nat ((page - 1) * 10)) (matching T stx docs (drop (length ws - 2) ws))))"

lemma do_query_eq:
  assumes "ecall_querier_setup L st0 file = Inr st"
    and "split_file file = Inr (tbl, map (take DIGEST_MAX_LENGTH) docs)" "index_spec T stx docs tbl" "length docs < 2 ^ 32"
    and "JSON_Load fp (c_str request) = Inr j" "index_key ''keywords'' j = String q"
    and "index_key ''page'' j = String (to_string page)" "1 \<le> page" "page \<le> 2 ^ 27"
    and "query_words T (json_dump fp (String q)) = ws" "ws \<noteq> []"
  defines "answer \<equiv> answer_json fp L file request (query_pad (page_results T stx docs ws page))"
  shows "ecall_do_query fp L T st request rbuf rsz =
      ebind (expose rbuf (size_t_of rsz > length (json_dump fp answer)) (json_dump fp answer)) (\<lambda>r.
        Inr (r, st\<lparr>q_index_tbl := fold tbl_touch ws tbl\<rparr>))"
proof -
  have st: "q_index_tbl st = tbl" "q_digest_tbl st = map (take DIGEST_MAX_LENGTH) docs"
    using assms(1,2) by (auto simp: ecall_querier_setup_def Let_def)
  let ?m = "matching T stx docs (drop (length ws - 2) ws)"
  have hits: "query_hits (query_lists tbl ws) = map word_of_nat ?m"
    by (rule query_hits_matching [OF assms(3,4,11)])
  have r: "\<forall>d \<in> set ?m. 1 \<le> d \<and> d \<le> length docs" by (auto simp: matching_def)
  then have "map (\<lambda>d. map (take DIGEST_MAX_LENGTH) docs ! (d - 1)) (take 10 (drop n ?m)) =
      map (\<lambda>d. take DIGEST_MAX_LENGTH (docs ! (d - 1))) (take 10 (drop n ?m))" for n
    by (auto dest!: in_set_takeD in_set_dropD)
  with query_page_exact [of ?m "map (take DIGEST_MAX_LENGTH) docs" page] r assms(4,8,9)
  have page: "query_page (map (take DIGEST_MAX_LENGTH) docs) (map word_of_nat ?m) page = Inr (page_results T stx docs ws page)"
    by (simp add: page_results_def)
  note pa = page_argument [OF assms(7-9)]
  show ?thesis
    using query_final_eq [OF assms(1), of fp request "query_pad (page_results T stx docs ws page)"] pa page hits st
    by (simp add: ecall_do_query_def assms(5,6,10) Let_def dump_nonempty answer_def)
qed

subsection \<open>Properties\<close>

text \<open>
  C4. The answer to a query: on a querier set up with a file whose table is the exact index of \<open>docs\<close>, a request with words
  \<open>ws\<close> and a page number is answered with exactly ten results, of which the first are the digests of that
  page of the ascending list of documents that contain the last two words of the request (its only word when there
  is just one; the intersection of more than two lists, which the code announces, is not computed) and the others
  dummies; no access fails; the answer text parses, and its witness passes the
  check and names the hashes of the index file, of the request and of the results.  Nothing is written when the
  buffer is too small, and posting lists do not change.
\<close>

theorem query_answer:
  assumes "crypto_sizes L" "sig_correct L" "ecall_querier_setup L st0 file = Inr st"
    and "split_file file = Inr (tbl, map (take DIGEST_MAX_LENGTH) docs)" "index_spec T stx docs tbl" "length docs < 2 ^ 32"
    and "JSON_Load fp (c_str request) = Inr j" "index_key ''keywords'' j = String q"
    and "index_key ''page'' j = String (to_string page)" "1 \<le> page" "page \<le> 2 ^ 27"
    and "query_words T (json_dump fp (String q)) = ws" "ws \<noteq> []"
  defines "answer \<equiv> answer_json fp L file request (query_pad (page_results T stx docs ws page))"
  shows "ecall_do_query fp L T st request rbuf rsz =
      ebind (expose rbuf (size_t_of rsz > length (json_dump fp answer)) (json_dump fp answer)) (\<lambda>r.
        Inr (r, st\<lparr>q_index_tbl := fold tbl_touch ws tbl\<rparr>)) \<and>
    length (query_pad (page_results T stx docs ws page)) = 10 \<and> JSON_Load fp (json_dump fp answer) = Inr answer \<and>
    check_witness fp L (json_dump fp (index_key ''witness'' answer)) = Inr True \<and>
    tbl_get w (fold tbl_touch ws tbl) = tbl_get w tbl"
proof (intro conjI)
  show "ecall_do_query fp L T st request rbuf rsz =
      ebind (expose rbuf (size_t_of rsz > length (json_dump fp answer)) (json_dump fp answer)) (\<lambda>r.
        Inr (r, st\<lparr>q_index_tbl := fold tbl_touch ws tbl\<rparr>))"
    unfolding answer_def by (rule do_query_eq [OF assms(3-13)])
  show "length (query_pad (page_results T stx docs ws page)) = 10" by (rule length_query_pad) (simp add: page_results_def)
  show "JSON_Load fp (json_dump fp answer) = Inr answer"
    unfolding answer_def by (rule Load_dump [OF json_ok_answer]) (simp add: answer_json_def)
  show "check_witness fp L (json_dump fp (index_key ''witness'' answer)) = Inr True"
    using check_signed [OF assms(1)] assms(2) by (simp add: answer_def answer_json_def sig_correct_def)
  show "tbl_get w (fold tbl_touch ws tbl) = tbl_get w tbl" by simp
qed

definition example_request :: JSON where
  "example_request = Object [(''keywords'', String ''k''), (''page'', String ''1'')]"

lemma example_request_ok:
  "JSON_Load fp_example (c_str (json_dump fp_example example_request)) = Inr example_request"
proof -
  have "NUL \<notin> set (json_dump fp_example example_request)"
    by (simp add: example_request_def json_dump_def json_escape_def json_escape_char_def)
  then show ?thesis
    by (simp add: Load_dump example_request_def json_escape_def json_escape_char_def)
qed

theorem query_answer_witness:
  "\<exists>st. ecall_querier_setup crypto_example \<lparr>q_digest_tbl = [], q_index_tbl = [], querier_context_template = witness_fresh 0\<rparr>
      example_file = Inr st \<and>
    (\<exists>answer. ecall_do_query fp_example crypto_example (\<lambda>s. if s = ''d'' then [] else [s]) st
        (json_dump fp_example example_request) [] 0 = Inr ([], st\<lparr>q_index_tbl := answer\<rparr>))"
proof -
  let ?T = "\<lambda>s. if s = ''d'' then [] else [s]"
  let ?q = "json_dump fp_example (String ''k'')"
  obtain st where st: "ecall_querier_setup crypto_example
      \<lparr>q_digest_tbl = [], q_index_tbl = [], querier_context_template = witness_fresh 0\<rparr> example_file = Inr st"
    by (simp add: ecall_querier_setup_def example_file_split Let_def)
  have sp: "index_spec ?T [CHR 0x02] [''d''] []" by (simp add: index_spec_def tbl_get_def has_word_def)
  have f: "split_file example_file = Inr ([], map (take DIGEST_MAX_LENGTH) [''d''])"
    by (simp add: example_file_split DIGEST_MAX_LENGTH_def)
  have one: "to_string 1 = ''1''" by code_simp
  have w: "query_words ?T ?q = [word_id ?q]" by (simp add: query_words_def json_dump_def)
  have k: "index_key ''keywords'' example_request = String ''k''" "index_key ''page'' example_request = String (to_string 1)"
    by (simp_all add: example_request_def one)
  have s: "size_t_of 0 = 0" by (simp add: size_t_of_def)
  show ?thesis
    using query_answer [OF crypto_example_ok st f sp _ example_request_ok k _ _ w, of "[]" 0] st
    by (auto simp: expose_def s)
qed

end
