(* ===== verification/Executors.thy ===== *)
theory Executors
  imports Manager Querier
begin

text \<open>
  The untrusted half of an executor (\<open>executor/App\<close>): it polls Kanban for work, hands it to the enclave, and uploads
  the output with its witness.  One pass of each daemon is a program over Kanban.  A pass threads the state
  that the enclave keeps between calls.

  Parameters: \<open>net\<close> is what \<open>curl\<close> prints for a block, in the pieces that \<open>fgets\<close> returns; \<open>room n\<close> is whether the
  allocator leaves a byte behind a block of \<open>n\<close> bytes; \<open>g\<close> the indeterminate stage of a fresh witness context;
  \<open>T\<close>, \<open>stx\<close> and \<open>ord\<close> as for the enclaves.
\<close>

subsection \<open>The Kanban mailbox\<close>

definition o_check_key :: "string \<Rightarrow> bool prog" where
  "o_check_key key = pbind (kb_get key) (\<lambda>value. Return (value \<noteq> None))"

text \<open>\<open>StringView(value, value_size)\<close> of a buffer.\<close>

definition o_put_key :: "string \<Rightarrow> string \<Rightarrow> nat \<Rightarrow> unit prog" where
  "o_put_key key value value_size =
     (if value_size > length value then Raise FRead else kb_set key (take value_size value))"

definition o_get_key :: "string \<Rightarrow> string prog" where
  "o_get_key key =
     Call (CGet key) (\<lambda>r. r \<noteq> RNil)
       (\<lambda>r. case r of
              RStr v \<Rightarrow> if length v > 2 ^ 31 - 1 then Raise FAlloc else Return v
            | _ \<Rightarrow> Raise FReply)"

text \<open>A buffer used as a C string.\<close>

definition buf_c_str :: "string \<Rightarrow> fault + string" where
  "buf_c_str buf = (if NUL \<in> set buf then Inr (c_str buf) else Inl FRead)"

definition o_append_witness :: "fp_lib \<Rightarrow> string \<Rightarrow> string \<Rightarrow> unit prog" where
  "o_append_witness fp epoch_value witness_buf =
     pbind (lift (buf_c_str witness_buf)) (\<lambda>witness_value.
     pbind (lift (lift_json (JSON_Load fp witness_value))) (\<lambda>j.
     pbind (lift (trim_string (json_dump fp (index_key ''OUT'' j)))) (\<lambda>witness_key.
     pbind (kb_hset ''witness'' witness_key witness_value) (\<lambda>_.
       kb_sadd (witness_set_key epoch_value) witness_key))))"

definition items_key :: "string \<Rightarrow> int \<Rightarrow> string" where
  "items_key epoch i = ''ITEMS-#EPOCH'' @ epoch @ ''-v'' @ to_string i"

definition index_file_key :: "string \<Rightarrow> int \<Rightarrow> string" where
  "index_file_key epoch i = ''INDEX-#EPOCH'' @ epoch @ ''-v'' @ to_string i"

definition global_index_key :: "string \<Rightarrow> int \<Rightarrow> string" where
  "global_index_key epoch i = ''GLOBAL-INDEX-#EPOCH'' @ epoch @ ''-v'' @ to_string i"

definition node_key :: "string \<Rightarrow> string \<Rightarrow> string" where
  "node_key epoch part = ''NODE-#EPOCH'' @ epoch @ ''-v'' @ part"

definition WITNESS_MAX_LENGTH :: nat where "WITNESS_MAX_LENGTH = 2 ^ 20"
definition OUTPUT_MAX_LENGTH :: nat where "OUTPUT_MAX_LENGTH = 16 * 1024 * 1024"
definition INDEX_OUTPUT_MAX_LENGTH :: nat where "INDEX_OUTPUT_MAX_LENGTH = 64 * 1024 * 1024"
definition REDUCER_OUTPUT_MAX_LENGTH :: nat where "REDUCER_OUTPUT_MAX_LENGTH = 256 * 1024 * 1024"

definition zeros :: "nat \<Rightarrow> string" where
  "zeros n = replicate n NUL"

subsection \<open>Crawler\<close>

definition get_steemit_item :: "(int \<Rightarrow> string list) \<Rightarrow> int \<Rightarrow> string" where
  "get_steemit_item net steemit_block_id = concat (map c_str (net steemit_block_id))"

text \<open>One turn of the loop over the batches; the state is the enclave's vector of candidates.\<close>

definition crawl_batch ::
  "fp_lib \<Rightarrow> crypto_lib \<Rightarrow> int \<Rightarrow> (int \<Rightarrow> string list) \<Rightarrow> string \<Rightarrow> int \<Rightarrow> int \<Rightarrow> string list \<Rightarrow> string list prog" where
  "crawl_batch fp L g net current_epoch block_id i st =
     pbind (o_check_key (items_key current_epoch i)) (\<lambda>exists.
     if exists then Return st else
     let ids = map (\<lambda>j. block_id + (i - 1) * int ITEMS_BULK_MAX + j) [1..int ITEMS_BULK_MAX] in
     if \<not> list_all in_int ids then Raise FIndet else
     let item_candidates = map (get_steemit_item net) ids in
     pbind (lift (ebind (Digest2Binary item_candidates) (\<lambda>input. ecall_parse_items fp L g True st input
       (zeros OUTPUT_MAX_LENGTH) (int OUTPUT_MAX_LENGTH) (zeros WITNESS_MAX_LENGTH) (int WITNESS_MAX_LENGTH))))
       (\<lambda>(output, crawler_witness, st).
     pbind (lift (buf_c_str output)) (\<lambda>text.
     pbind (o_put_key (items_key current_epoch i) output (length text)) (\<lambda>_.
     pbind (o_append_witness fp current_epoch crawler_witness) (\<lambda>_. Return st)))))"

definition do_crawl ::
  "fp_lib \<Rightarrow> crypto_lib \<Rightarrow> int \<Rightarrow> (int \<Rightarrow> string list) \<Rightarrow> string list \<Rightarrow> string list prog" where
  "do_crawl fp L g net st =
     pbind (get_epoch_int fp L) (\<lambda>int_current_epoch.
     if - 1 = int_current_epoch then Return st else
     pbind (kb_get ''Steemit-Block-ID'') (\<lambda>offset.
     case offset of None \<Rightarrow> Raise FIndet | Some block \<Rightarrow>
     pbind (lift_stoi block) (\<lambda>block_id.
       pfold (crawl_batch fp L g net (to_string int_current_epoch) block_id) [1..int ITEMS_POOL_MAX] st)))"

subsection \<open>Indexer\<close>

text \<open>
  The inputs of one shard; the terminator is written behind the block that was allocated for the value.
\<close>

definition index_inputs :: "(nat \<Rightarrow> bool) \<Rightarrow> int \<Rightarrow> int \<Rightarrow> string list prog" where
  "index_inputs room epoch items_pos =
     pfold (\<lambda>j inputs.
         pbind (o_get_key (items_key (to_string epoch) j)) (\<lambda>items_value.
           if \<not> room (length items_value) then Raise FWrite
           else Return (inputs @ [c_str items_value])))
       [items_pos..items_pos + int INDEX_BULK_MAX - 1] []"

text \<open>The end of a turn: the uploads, the copy that starts the global index in epoch 2, and the next position.\<close>

definition index_upload ::
  "fp_lib \<Rightarrow> int \<Rightarrow> int \<Rightarrow> int \<Rightarrow> string \<times> int \<times> string \<times> indexer_state \<Rightarrow> (int \<times> indexer_state) prog" where
  "index_upload fp epoch i items_pos = (\<lambda>(index_output, index_output_size, indexer_witness, st).
     pbind (o_put_key (index_file_key (to_string epoch) i) index_output (nat index_output_size)) (\<lambda>_.
     pbind (o_append_witness fp (to_string epoch) indexer_witness) (\<lambda>_.
     pbind (if 2 = epoch then o_put_key (global_index_key (to_string epoch) i) index_output (nat index_output_size)
            else Return ()) (\<lambda>_.
       Return (items_pos + int INDEX_BULK_MAX, st)))))"

definition index_shard ::
  "fp_lib \<Rightarrow> crypto_lib \<Rightarrow> int \<Rightarrow> (string \<Rightarrow> string list) \<Rightarrow> string \<Rightarrow> (index_table \<Rightarrow> index_table) \<Rightarrow> (nat \<Rightarrow> bool) \<Rightarrow> int \<Rightarrow>
   int \<Rightarrow> int \<times> indexer_state \<Rightarrow> (int \<times> indexer_state) prog" where
  "index_shard fp L g T stx ord room epoch i = (\<lambda>(items_pos, st).
     pbind (o_check_key (index_file_key (to_string epoch) i)) (\<lambda>exists.
     if exists then Return (items_pos, st) else
     pbind (index_inputs room (epoch - 1) items_pos) (\<lambda>inputs.
     pbind (lift (ebind (Digest2Binary inputs) (\<lambda>index_inputs. ecall_build_index fp L g T stx ord st index_inputs
       (zeros INDEX_OUTPUT_MAX_LENGTH) (int INDEX_OUTPUT_MAX_LENGTH) (zeros WITNESS_MAX_LENGTH) (int WITNESS_MAX_LENGTH))))
       (index_upload fp epoch i items_pos))))"

definition do_index ::
  "fp_lib \<Rightarrow> crypto_lib \<Rightarrow> int \<Rightarrow> (string \<Rightarrow> string list) \<Rightarrow> string \<Rightarrow> (index_table \<Rightarrow> index_table) \<Rightarrow> (nat \<Rightarrow> bool) \<Rightarrow>
   indexer_state \<Rightarrow> indexer_state prog" where
  "do_index fp L g T stx ord room st =
     pbind (get_epoch_int fp L) (\<lambda>int_current_epoch.
     if - 1 = int_current_epoch then Return st
     else if int_current_epoch \<le> 1 then Return st
     else pbind (pfold (index_shard fp L g T stx ord room int_current_epoch) [1..int INDEX_POOL_MAX] (1, st))
       (\<lambda>(_, st). Return st))"

subsection \<open>Reducer\<close>

definition reduce_shard ::
  "fp_lib \<Rightarrow> crypto_lib \<Rightarrow> int \<Rightarrow> (index_table \<Rightarrow> index_table) \<Rightarrow> int \<Rightarrow> int \<Rightarrow> unit \<Rightarrow> unit prog" where
  "reduce_shard fp L g ord epoch i _ =
     (let current_epoch = to_string epoch in
     pbind (o_check_key (global_index_key current_epoch i)) (\<lambda>exists.
     if exists then Return () else
     pbind (o_get_key (global_index_key (to_string (epoch - 1)) i)) (\<lambda>global_index.
     pbind (o_get_key (index_file_key current_epoch i)) (\<lambda>new_index.
     pbind (lift (ecall_do_merge fp L g ord global_index new_index
       (zeros REDUCER_OUTPUT_MAX_LENGTH) (int REDUCER_OUTPUT_MAX_LENGTH) (zeros WITNESS_MAX_LENGTH) (int WITNESS_MAX_LENGTH)))
       (\<lambda>(new_global_index, new_global_index_sz, reducer_witness).
     pbind (o_put_key (global_index_key current_epoch i) new_global_index (nat new_global_index_sz)) (\<lambda>_.
       o_append_witness fp current_epoch reducer_witness))))))"

definition do_reduce :: "fp_lib \<Rightarrow> crypto_lib \<Rightarrow> int \<Rightarrow> (index_table \<Rightarrow> index_table) \<Rightarrow> unit prog" where
  "do_reduce fp L g ord =
     pbind (get_epoch_int fp L) (\<lambda>int_current_epoch.
     if - 1 = int_current_epoch then Return ()
     else if int_current_epoch \<le> 2 then Return ()
     else pfold (reduce_shard fp L g ord int_current_epoch) [1..int INDEX_POOL_MAX] ())"

subsection \<open>Querier\<close>

definition get_sharding_max :: "int prog" where
  "get_sharding_max =
     pbind (kb_get ''SHARDING-MAX'') (\<lambda>value. case value of None \<Rightarrow> Raise FIndet | Some v \<Rightarrow> lift_stoi v)"

text \<open>The 64-bit counter is returned as an \<open>int\<close>.\<close>

definition get_sharding_counter :: "int prog" where
  "get_sharding_counter = pbind (kb_incr ''SHARD_COUNTER'') (\<lambda>c. Return (c_int c))"

text \<open>The remainder of C: the quotient is cut towards zero.\<close>

definition c_rem :: "int \<Rightarrow> int \<Rightarrow> int" where
  "c_rem a b = sgn a * (abs a mod abs b)"

definition register_live_querier :: "string \<Rightarrow> string \<Rightarrow> string \<Rightarrow> unit prog" where
  "register_live_querier epoch part addr = kb_rpush (node_key epoch part) addr"

definition querier_setup ::
  "fp_lib \<Rightarrow> crypto_lib \<Rightarrow> string \<Rightarrow> int \<Rightarrow> querier_state \<Rightarrow> querier_state prog" where
  "querier_setup fp L addr port st =
     pbind (get_epoch_int fp L) (\<lambda>current_epoch_int.
     if current_epoch_int < 3 then Return st else
     pbind get_sharding_max (\<lambda>max_partition.
     pbind get_sharding_counter (\<lambda>counter.
     if max_partition = 0 then Raise FIndet else
     let id' = c_rem counter max_partition + 1 in
     pbind (o_get_key (global_index_key (to_string (current_epoch_int - 1)) id')) (\<lambda>b_index_input.
     pbind (lift (ecall_querier_setup L st b_index_input)) (\<lambda>st.
     let info = set_key ''port'' (Integral port) (set_key ''addr'' (String addr) Null) in
     pbind (register_live_querier (to_string current_epoch_int) (to_string id') (c_str (json_dump fp info))) (\<lambda>_.
       Return st))))))"

definition do_query ::
  "fp_lib \<Rightarrow> crypto_lib \<Rightarrow> (string \<Rightarrow> string list) \<Rightarrow> querier_state \<Rightarrow> string \<Rightarrow> string \<Rightarrow> int \<Rightarrow> (string \<times> querier_state) prog" where
  "do_query fp L T st request response response_size =
     pbind (get_epoch_int fp L) (\<lambda>current_epoch_int.
     if current_epoch_int < 3 then Return (response, st)
     else lift (ecall_do_query fp L T st request response response_size))"

text \<open>
  One round of \<open>querier_loop\<close> for what \<open>recv\<close> delivered, \<open>None\<close> after an error: the text that is sent back.
\<close>

definition BUFFER_SIZE :: nat where "BUFFER_SIZE = 10240"

definition querier_serve ::
  "fp_lib \<Rightarrow> crypto_lib \<Rightarrow> (string \<Rightarrow> string list) \<Rightarrow> querier_state \<Rightarrow> string option \<Rightarrow> (string \<times> querier_state) prog" where
  "querier_serve fp L T st data =
     (case data of
        None \<Rightarrow> Raise FWrite
      | Some recvbuf \<Rightarrow>
          if length recvbuf \<ge> BUFFER_SIZE then Raise FWrite
          else pbind (do_query fp L T st recvbuf (zeros BUFFER_SIZE) (int BUFFER_SIZE)) (\<lambda>(sendbuf, st).
            pbind (lift (buf_c_str sendbuf)) (\<lambda>text. Return (text, st))))"

text \<open>One round of the monitor thread; the state includes \<open>last_epoch\<close>.\<close>

definition do_update ::
  "fp_lib \<Rightarrow> crypto_lib \<Rightarrow> string \<Rightarrow> int \<Rightarrow> int \<times> querier_state \<Rightarrow> (int \<times> querier_state) prog" where
  "do_update fp L addr port = (\<lambda>(last_epoch, st).
     pbind (get_epoch_int fp L) (\<lambda>current_epoch_int.
     if current_epoch_int < 3 then Return (last_epoch, st)
     else if current_epoch_int \<noteq> last_epoch then
       pbind (querier_setup fp L addr port st) (\<lambda>st. Return (current_epoch_int, st))
     else Return (last_epoch, st)))"

subsection \<open>Live nodes\<close>

text \<open>\<open>shf p xs\<close> is the list of partition \<open>p\<close> after the shuffle.\<close>

definition get_live_querier :: "(int \<Rightarrow> string list \<Rightarrow> string list) \<Rightarrow> string \<Rightarrow> string list \<Rightarrow> string list prog" where
  "get_live_querier shf epoch live_list =
     pfold (\<lambda>part live_list.
         pbind (kb_lrange (node_key epoch (to_string part)) 0 (- 1)) (\<lambda>partition_list.
           let partition_list = shf part partition_list in
           Return (if length partition_list > 0 then live_list @ [partition_list ! 0] else live_list)))
       [1..int INDEX_POOL_MAX] live_list"

end
