(* ===== verification/WebClient.thy ===== *)
theory WebClient
  imports Auditor Executors
begin

text \<open>
  The web client (\<open>client/web_server.cpp\<close>): a search request of the browser is turned into one request to a querier of every
  shard, the answers are collected with the inputs of their witnesses, and one of them is shown; a verify
  request hands the collected inputs to the local auditor.

  Parameters: \<open>recv addr port request\<close> is what the network gives for a request to a querier; \<open>shf\<close> the shuffles of the
  node lists.
\<close>

subsection \<open>Strings\<close>

text \<open>\<open>std::string::find\<close> and \<open>substr\<close>; \<open>None\<close> is \<open>npos\<close>.\<close>

fun find_str :: "string \<Rightarrow> string \<Rightarrow> nat option" where
  "find_str pat [] = (if pat = [] then Some 0 else None)"
| "find_str pat (c # s) = (if prefix pat (c # s) then Some 0 else map_option Suc (find_str pat s))"

definition substr :: "nat option \<Rightarrow> nat option \<Rightarrow> string \<Rightarrow> fault + string" where
  "substr pos cnt s =
     (case pos of
        None \<Rightarrow> Inl FSubstr
      | Some p \<Rightarrow>
          if p > length s then Inl FSubstr
          else Inr (case cnt of None \<Rightarrow> drop p s | Some n \<Rightarrow> take n (drop p s)))"

text \<open>The conversion \<open>%x\<close> of \<open>sscanf\<close>, an unsigned value stored in an \<open>int\<close>; \<open>None\<close> is a matching failure.\<close>

definition sscanf_x :: "string \<Rightarrow> int option" where
  "sscanf_x s =
     (let s1 = dropWhile isspace (c_str s);
          neg = (s1 \<noteq> [] \<and> hd s1 = CHR ''-'');
          s2 = (if s1 \<noteq> [] \<and> hd s1 \<in> {CHR ''-'', CHR ''+''} then tl s1 else s1);
          s3 = (if take 2 s2 \<in> {''0x'', ''0X''} then drop 2 s2 else s2);
          ds = takeWhile (\<lambda>c. digit_val c < 16) s3;
          v = int (digits_val 16 0 ds)
      in if ds = [] then None else Some (sint (word_of_int (if neg then - v else v) :: 32 word)))"

text \<open>
  The loop of \<open>url_decode\<close>; \<open>ii\<close> keeps the last value that was read, none at first, when there is no conversion.
\<close>

function url_decode_loop :: "int option \<Rightarrow> string \<Rightarrow> fault + string" where
  "url_decode_loop ii [] = Inr []"
| "url_decode_loop ii (c # s) =
     (if c \<noteq> CHR ''%'' then
        ebind (url_decode_loop ii s) (\<lambda>ret. Inr ((if c = CHR ''+'' then CHR '' '' else c) # ret))
      else
        (case (case sscanf_x (take 2 s) of Some v \<Rightarrow> Some v | None \<Rightarrow> ii) of
           None \<Rightarrow> Inl FIndet
         | Some v \<Rightarrow> ebind (url_decode_loop (Some v) (drop 2 s)) (\<lambda>ret. Inr (char_of (nat (v mod 256)) # ret))))"
  by pat_completeness auto
termination by (relation "measure (\<lambda>(_, s). length s)") auto

text \<open>The length of the text is kept in an \<open>int\<close>.\<close>

definition url_decode :: "string \<Rightarrow> fault + string" where
  "url_decode str = (if in_int (int (length str)) then url_decode_loop None str else Inl FIndet)"

subsection \<open>Searching\<close>

record client_state =
  witness_in_list :: "string list"
  v_response :: "string list"

datatype peer = Refused | Broken | Data string

text \<open>\<open>recv\<close> delivers at most \<open>BUFFER_SIZE\<close> bytes; the terminator is written behind them, and at -1 after an error.\<close>

definition send_request :: "(string \<Rightarrow> int \<Rightarrow> string \<Rightarrow> peer) \<Rightarrow> string \<Rightarrow> int \<Rightarrow> string \<Rightarrow> fault + string" where
  "send_request recv addr port request =
     (case recv (c_str addr) port request of
        Refused \<Rightarrow> Inl FExit
      | Broken \<Rightarrow> Inl FWrite
      | Data d \<Rightarrow> if length d \<ge> BUFFER_SIZE then Inl FWrite else Inr (c_str d))"

definition extract_witness :: "fp_lib \<Rightarrow> string \<Rightarrow> string list \<Rightarrow> fault + string list" where
  "extract_witness fp witness in_list =
     ebind (json_ins fp witness) (\<lambda>ins.
       if in_list @ ins = [] then Inl FRead else Inr (butlast (in_list @ ins)))"

definition extract_response :: "string \<Rightarrow> string list \<Rightarrow> string list" where
  "extract_response response vr = vr @ [response]"

text \<open>The keywords and the page of a request path.\<close>

definition search_args :: "string \<Rightarrow> fault + string \<times> int" where
  "search_args REQUEST =
     ebind (url_decode REQUEST) (\<lambda>REQUEST.
       let pos1 = find_str ''/query/'' REQUEST; pos2 = find_str ''/page/'' REQUEST in
       ebind (ebind (substr pos1 pos2 REQUEST) (substr (Some 7) None)) (\<lambda>q_keywords.
       ebind (ebind (substr pos2 None REQUEST) (substr (Some 6) None)) (\<lambda>q_page.
         Inr (q_keywords, sint (word_of_int (strtol 10 q_page) :: 32 word)))))"

text \<open>The request to the queriers; the division is exact in a \<open>double\<close>.\<close>

definition real_page :: "int \<Rightarrow> int" where
  "real_page page = - ((- page) div int INDEX_POOL_MAX)"

definition search_request :: "fp_lib \<Rightarrow> string \<Rightarrow> int \<Rightarrow> string" where
  "search_request fp q_keywords page =
     (let real_query = set_key ''page'' (String (to_string (real_page page))) (set_key ''keywords'' (String q_keywords) Null)
      in json_dump fp real_query @ replicate (nat (512 - json_size real_query)) CHR ''x'')"

text \<open>The exchange with one live node.\<close>

definition query_node ::
  "fp_lib \<Rightarrow> (string \<Rightarrow> int \<Rightarrow> string \<Rightarrow> peer) \<Rightarrow> string \<Rightarrow> string \<Rightarrow> client_state \<Rightarrow> fault + client_state" where
  "query_node fp recv REQUEST node st =
     ebind (lift_json (JSON_Load fp node)) (\<lambda>j.
     ebind (trim_string (json_dump fp (index_key ''addr'' j))) (\<lambda>addr.
     ebind (case stoi (json_dump fp (index_key ''port'' j)) of Inl e \<Rightarrow> Inl (FNum e) | Inr i \<Rightarrow> Inr i) (\<lambda>port.
     ebind (send_request recv addr port REQUEST) (\<lambda>RESPONSE.
     ebind (lift_json (JSON_Load fp RESPONSE)) (\<lambda>r.
     ebind (extract_witness fp (json_dump fp (index_key ''witness'' r)) (witness_in_list st)) (\<lambda>in_list.
       Inr (st\<lparr>witness_in_list := in_list,
         v_response := extract_response (json_dump fp (index_key ''response'' r)) (v_response st)\<rparr>)))))))"

definition go_search ::
  "fp_lib \<Rightarrow> crypto_lib \<Rightarrow> (int \<Rightarrow> string list \<Rightarrow> string list) \<Rightarrow> (string \<Rightarrow> int \<Rightarrow> string \<Rightarrow> peer) \<Rightarrow> client_state \<Rightarrow> string \<Rightarrow>
   (client_state \<times> string) prog" where
  "go_search fp L shf recv st REQUEST =
     pbind (lift (search_args REQUEST)) (\<lambda>(q_keywords, page).
     pbind (get_epoch fp L) (\<lambda>epoch.
     pbind (get_live_querier shf epoch []) (\<lambda>local_list.
     pbind (lift (efold (query_node fp recv (search_request fp q_keywords page)) local_list
       (st\<lparr>witness_in_list := []\<rparr>))) (\<lambda>st.
     let pos = (if c_rem page (int INDEX_POOL_MAX) = 0 then int INDEX_POOL_MAX else c_rem page (int INDEX_POOL_MAX)) in
     if pos - 1 < 0 \<or> nat (pos - 1) \<ge> length (v_response st) then Raise FRead
     else Return (st\<lparr>v_response := []\<rparr>, v_response st ! nat (pos - 1))))))"

subsection \<open>Verifying\<close>

definition go_verify ::
  "(string list \<Rightarrow> string list) \<Rightarrow> ((string \<times> string) list \<Rightarrow> (string \<times> string) list) \<Rightarrow> fp_lib \<Rightarrow> crypto_lib \<Rightarrow>
   client_state \<Rightarrow> audit_state \<Rightarrow> string \<Rightarrow> (audit_state \<times> string) prog" where
  "go_verify srt ord fp L st au RESPONSE =
     (if 0 \<noteq> length (witness_in_list st) then
        pbind (do_local_verify srt ord fp L au (verify_request fp (witness_in_list st)) ''Please search first!'') (\<lambda>(au, tmp).
          Return (au, json_dump fp (set_key ''results'' (String tmp) Null)))
      else Return (au, RESPONSE))"

text \<open>The handler of \<open>/verify/\<close>.\<close>

definition verify_handler ::
  "(string list \<Rightarrow> string list) \<Rightarrow> ((string \<times> string) list \<Rightarrow> (string \<times> string) list) \<Rightarrow> fp_lib \<Rightarrow> crypto_lib \<Rightarrow>
   client_state \<Rightarrow> audit_state \<Rightarrow> (audit_state \<times> string) prog" where
  "verify_handler srt ord fp L st au =
     go_verify srt ord fp L st au (json_dump fp (set_key ''results'' (String ''Please search first!'') Null))"

subsection \<open>Reading the path\<close>

lemma find_str_first:
  assumes "\<forall>i < length u. \<not> prefix pat (drop i (u @ pat @ v))"
  shows "find_str pat (u @ pat @ v) = Some (length u)"
  using assms
proof (induction u)
  case Nil
  show ?case by (cases "pat @ v") (simp_all, metis prefixI)
next
  case (Cons c u)
  have "\<forall>i < length u. \<not> prefix pat (drop i (u @ pat @ v))" using Cons.prems by fastforce
  with Cons show ?case by auto
qed

lemma url_decode_plain:
  assumes "CHR ''%'' \<notin> set s" "CHR ''+'' \<notin> set s" "in_int (int (length s))"
  shows "url_decode s = Inr s"
proof -
  have "url_decode_loop ii s = Inr s" for ii using assms(1,2) by (induction s) auto
  then show ?thesis using assms(3) by (simp add: url_decode_def)
qed

text \<open>The path of a search.\<close>

definition search_path :: "string \<Rightarrow> int \<Rightarrow> string" where
  "search_path kw page = ''/query/'' @ kw @ ''/page/'' @ to_string page"

lemma no_slash_prefix:
  assumes "CHR ''/'' \<notin> set kw"
  shows "prefix ''page/'' (kw @ ''/page/'' @ r) \<longleftrightarrow> kw = ''page''"
  using assms by (auto simp: prefix_def Cons_eq_append_conv append_eq_Cons_conv)

lemma find_page:
  assumes "CHR ''/'' \<notin> set kw" "kw \<noteq> ''page''"
  shows "find_str ''/page/'' (search_path kw page) = Some (7 + length kw)"
proof -
  let ?u = "''/query/'' @ kw"
  have "\<not> prefix ''/page/'' (drop i (?u @ ''/page/'' @ to_string page))" if i: "i < length ?u" for i
  proof (cases "i < 6")
    case True
    then consider "i = 0" | "i = 1" | "i = 2" | "i = 3" | "i = 4" | "i = 5" by linarith
    then show ?thesis by cases simp_all
  next
    case False
    show ?thesis
    proof (cases "i = 6")
      case True
      then show ?thesis using no_slash_prefix [OF assms(1), of "to_string page"] assms(2) by simp
    next
      case 7: False
      obtain j where j: "i = 7 + j" "j < length kw" 
        using False 7 i le_Suc_ex [of 7 i] by auto
      from j(2) have "drop (7 + j) (?u @ ''/page/'' @ to_string page) = kw ! j # drop (Suc j) kw @ ''/page/'' @ to_string page"
        unfolding add.commute [of 7 j] drop_drop [symmetric] by (simp add: Cons_nth_drop_Suc)
      moreover have "kw ! j \<noteq> CHR ''/''" using assms(1) j(2) by (metis nth_mem)
      ultimately show ?thesis using j(1) by simp
    qed
  qed
  from find_str_first [of ?u "''/page/''" "to_string page"] this show ?thesis by (simp add: search_path_def)
qed

lemma sint_int: "in_int p \<Longrightarrow> sint (word_of_int p :: 32 word) = p"
  by (simp add: sint_sbintrunc' signed_take_bit_int_eq_self_iff in_int_def)

lemma search_args_path:
  assumes "CHR ''%'' \<notin> set kw" "CHR ''+'' \<notin> set kw" "CHR ''/'' \<notin> set kw" "length kw < 2 ^ 30" "in_int p"
  shows "search_args (search_path kw p) = (if kw = ''page'' then Inl FSubstr else Inr (kw, p))"
proof -
  have il: "in_long p" using assms(5) by (simp add: in_int_def in_long_def LONG_MIN_def LONG_MAX_def)
  then have l: "in_int (int (length (search_path kw p)))" using assms(4) to_string_short [of p] by (simp add: search_path_def in_int_def)
  have "CHR ''%'' \<notin> set (to_string p)" "CHR ''+'' \<notin> set (to_string p)"
    using to_string_chars [of "CHR ''%''" p] to_string_chars [of "CHR ''+''" p] by (auto simp: is_digit_def less_eq_char_def)
  with assms l have d: "url_decode (search_path kw p) = Inr (search_path kw p)"
    by (intro url_decode_plain) (auto simp: search_path_def)
  have q: "find_str ''/query/'' (search_path kw p) = Some 0" by (simp add: search_path_def)
  show ?thesis
  proof (cases "kw = ''page''")
    case True
    then have "find_str ''/page/'' (search_path kw p) = Some 6" by (simp add: search_path_def)
    with True d q show ?thesis by (simp add: search_args_def substr_def search_path_def)
  next
    case False
    with il d q find_page [OF assms(3) False, of p] show ?thesis
      by (simp add: search_args_def substr_def search_path_def strtol_to_string sint_int assms(5))
  qed
qed

subsection \<open>The exchange\<close>

text \<open>A node as \<open>querier_setup\<close> registers it.\<close>

definition node_text :: "fp_lib \<Rightarrow> string \<Rightarrow> int \<Rightarrow> string" where
  "node_text fp addr port = json_dump fp (Object [(''addr'', String addr), (''port'', Integral port)])"

text \<open>An answer with the displayed part \<open>R\<close> and a witness with inputs \<open>ins\<close> before the hash of the request.\<close>

definition answer_ok :: "fp_lib \<Rightarrow> string \<Rightarrow> JSON \<Rightarrow> string list \<Rightarrow> bool" where
  "answer_ok fp d R ins \<longleftrightarrow> length d < BUFFER_SIZE \<and>
     (\<exists>j h. JSON_Load fp (c_str d) = Inr j \<and> index_key ''response'' j = R \<and>
        json_ins fp (json_dump fp (index_key ''witness'' j)) = Inr (ins @ [h]))"

lemma query_node_ok:
  assumes "json_escape a = a" "NUL \<notin> set a" "in_int q" "recv a q REQUEST = Data d" "answer_ok fp d R ins"
  shows "query_node fp recv REQUEST (node_text fp a q) st =
    Inr (st\<lparr>witness_in_list := witness_in_list st @ ins, v_response := v_response st @ [json_dump fp R]\<rparr>)"
proof -
  have e: "json_escape ''addr'' = ''addr''" "json_escape ''port'' = ''port''"
    by (simp_all add: json_escape_def json_escape_char_def)
  have "in_long q" using assms(3) by (simp add: in_int_def in_long_def LONG_MIN_def LONG_MAX_def)
  then have "JSON_Load fp (node_text fp a q) = Inr (Object [(''addr'', String a), (''port'', Integral q)])"
    unfolding node_text_def by (intro Load_dump) (auto simp: e)
  moreover have "trim_string (json_dump fp (String a)) = Inr a"
    using assms(1) trim_string_quotes by (simp add: json_dump_def)
  moreover have "stoi (json_dump fp (Integral q)) = Inr q" using assms(3) by (simp add: json_dump_def roundtrip_simps)
  moreover from assms(5) obtain j h where "length d < BUFFER_SIZE" "JSON_Load fp (c_str d) = Inr j" "index_key ''response'' j = R"
    "json_ins fp (json_dump fp (index_key ''witness'' j)) = Inr (ins @ [h])" by (auto simp: answer_ok_def)
  ultimately show ?thesis
    using assms(2,4)
    by (simp add: query_node_def send_request_def extract_witness_def extract_response_def butlast_append)
qed

lemma query_nodes_ok:
  assumes "\<forall>i \<in> set is. json_escape (a i) = a i \<and> NUL \<notin> set (a i) \<and> in_int (q i) \<and> recv (a i) (q i) REQUEST = Data (d i) \<and>
    answer_ok fp (d i) (R i) (ins i)"
  shows "efold (query_node fp recv REQUEST) (map (\<lambda>i. node_text fp (a i) (q i)) is) st =
    Inr (st\<lparr>witness_in_list := witness_in_list st @ concat (map ins is),
      v_response := v_response st @ map (\<lambda>i. json_dump fp (R i)) is\<rparr>)"
  using assms
proof (induction "is" arbitrary: st)
  case (Cons i "is")
  then show ?case using query_node_ok [of "a i" "q i" recv REQUEST "d i" fp "R i" "ins i"] by simp
qed simp

lemma run_get_live_querier:
  assumes "\<forall>i \<in> {1..4}. s (node_key e (to_string i)) = Some (KList (ns i)) \<and> shf i (ns i) \<noteq> []"
  shows "run (get_live_querier shf e []) s = (Done (map (\<lambda>i. hd (shf i (ns i))) [1..4]), s)"
proof -
  have "run (get_live_querier shf e []) s = (Done (fold (\<lambda>i l. l @ [hd (shf i (ns i))]) [1..int INDEX_POOL_MAX] []), s)"
    unfolding get_live_querier_def
  proof (rule run_pfold_Done)
    fix i l assume "i \<in> set [1..int INDEX_POOL_MAX]"
    then have "i \<in> {1..4}" by (simp add: INDEX_POOL_MAX_def ITEMS_POOL_MAX_def INDEX_BULK_MAX_def)
    with assms show "run (pbind (kb_lrange (node_key e (to_string i)) 0 (- 1)) (\<lambda>partition_list.
        let partition_list = shf i partition_list in
        Return (if length partition_list > 0 then l @ [partition_list ! 0] else l))) s = (Done (l @ [hd (shf i (ns i))]), s)"
      by (auto simp: kb_lrange_def lrangeCommand_def hd_conv_nth)
  qed
  moreover have "fold (\<lambda>i l. l @ [f i]) xs ys = ys @ map f xs" for f :: "int \<Rightarrow> string" and xs ys
    by (induction xs arbitrary: ys) simp_all
  ultimately show ?thesis by (simp add: INDEX_POOL_MAX_def ITEMS_POOL_MAX_def INDEX_BULK_MAX_def)
qed

lemma run_go_search:
  assumes "crypto_sizes L" "sig_correct L" "epoch_is fp L n s" "1 \<le> q" "1 \<le> k" "k \<le> 4" "4 * q \<le> 2 ^ 31 - 1"
    and "CHR ''%'' \<notin> set kw" "CHR ''+'' \<notin> set kw" "CHR ''/'' \<notin> set kw" "length kw < 2 ^ 30" "kw \<noteq> ''page''"
    and "\<forall>i \<in> {1..4}. s (node_key (to_string n) (to_string i)) = Some (KList (ns i)) \<and> shf i (ns i) \<noteq> [] \<and>
      hd (shf i (ns i)) = node_text fp (a i) (port i) \<and> json_escape (a i) = a i \<and> NUL \<notin> set (a i) \<and> in_int (port i)"
    and "\<forall>i \<in> {1..4}. \<exists>d. answer_ok fp d (R i) (ins i) \<and> recv (a i) (port i) (json_dump fp (Object
      [(''keywords'', String kw), (''page'', String (to_string q))]) @ replicate 510 CHR ''x'') = Data d"
    and "v_response st = []"
  shows "run (go_search fp L shf recv st (search_path kw (4 * (q - 1) + k))) s =
    (Done (st\<lparr>witness_in_list := concat (map ins [1..4])\<rparr>, json_dump fp (R k)), s)"
proof -
  define p where "p = 4 * (q - 1) + k"
  have "p mod 4 = (if k = 4 then 0 else k)" unfolding p_def using assms(5,6) by presburger
  then have p: "in_int p" "c_rem p 4 = (if k = 4 then 0 else k)" "real_page p = q"
    using assms(4-7) by (auto simp: p_def in_int_def c_rem_def real_page_def INDEX_POOL_MAX_def ITEMS_POOL_MAX_def INDEX_BULK_MAX_def)
  from p(3) have rq: "search_request fp kw p = json_dump fp (Object
      [(''keywords'', String kw), (''page'', String (to_string q))]) @ replicate 510 CHR ''x''" (is "_ = ?rq")
    by (simp add: search_request_def set_key_def json_size_def SetType_def Let_def)
  from assms(14) obtain d where "\<forall>i \<in> {1..4}. answer_ok fp (d i) (R i) (ins i) \<and> recv (a i) (port i) ?rq = Data (d i)"
    by (metis (no_types, lifting))
  with assms(13) have n: "\<forall>i \<in> set [1..4]. json_escape (a i) = a i \<and> NUL \<notin> set (a i) \<and> in_int (port i) \<and>
      recv (a i) (port i) ?rq = Data (d i) \<and> answer_ok fp (d i) (R i) (ins i)" by simp
  have l: "run (get_live_querier shf (to_string n) []) s = (Done (map (\<lambda>i. node_text fp (a i) (port i)) [1..4]), s)"
    using run_get_live_querier [of s "to_string n" ns shf] assms(13) by (simp cong: map_cong)
  have "map (\<lambda>i. json_dump fp (R i)) [1..4] ! nat (k - 1) = json_dump fp (R k)"
    using assms(5,6) nth_upto [of 1 "nat (k - 1)" 4] by (simp del: upto_rec_numeral)
  moreover have "search_args (search_path kw p) = Inr (kw, p)"
    using search_args_path [OF assms(8-11) p(1)] assms(12) by simp
  moreover note run_get_epoch [OF assms(1-3)] l 
    query_nodes_ok [where a = a and q = port and d = d and R = R and ins = ins and recv = recv and REQUEST = ?rq and
      st = "st\<lparr>witness_in_list := []\<rparr>", OF n]
  ultimately show ?thesis
    using assms(5,6,15) p(2) unfolding go_search_def p_def [symmetric]
    by (auto simp: run_pbind rq INDEX_POOL_MAX_def ITEMS_POOL_MAX_def INDEX_BULK_MAX_def Let_def simp del: upto_rec_numeral)
qed

subsection \<open>Properties\<close>

text \<open>
  C27.  The arguments of a search path with keywords free of the reserved characters are read back exactly, with one
  exception: the keyword \<open>page\<close> makes the search for \<open>/page/\<close> stop at the keyword itself, and cutting the keywords out of
  the path then raises an exception.
\<close>

theorem search_args_exact:
  assumes "CHR ''%'' \<notin> set kw" "CHR ''+'' \<notin> set kw" "CHR ''/'' \<notin> set kw" "length kw < 2 ^ 30" "in_int p"
  shows "search_args (search_path kw p) = (if kw = ''page'' then Inl FSubstr else Inr (kw, p))"
  by (rule search_args_path [OF assms])

theorem search_args_exact_witness:
  "search_args (search_path ''page'' 1) = Inl FSubstr \<and> search_args (search_path ''cat'' 7) = Inr (''cat'', 7)"
  using search_args_exact [of "''page''" 1] search_args_exact [of "''cat''" 7] by (simp add: in_int_def)

text \<open>
  C7.  Paging.  The shards are shown in turn: with a live querier for each of the four shards, page
  \<open>4 (q - 1) + k\<close> of the user is what shard \<open>k\<close> answers for its page \<open>q\<close>.  So every page of every shard is shown exactly
  once, and the inputs of the witnesses of all four answers are kept for the audit.
\<close>

theorem search_page:
  assumes "crypto_sizes L" "sig_correct L" "epoch_is fp L n s" "1 \<le> q" "1 \<le> k" "k \<le> 4" "4 * q \<le> 2 ^ 31 - 1"
    and "CHR ''%'' \<notin> set kw" "CHR ''+'' \<notin> set kw" "CHR ''/'' \<notin> set kw" "length kw < 2 ^ 30" "kw \<noteq> ''page''"
    and "\<forall>i \<in> {1..4}. s (node_key (to_string n) (to_string i)) = Some (KList (ns i)) \<and> shf i (ns i) \<noteq> [] \<and>
      hd (shf i (ns i)) = node_text fp (a i) (port i) \<and> json_escape (a i) = a i \<and> NUL \<notin> set (a i) \<and> in_int (port i)"
    and "\<forall>i \<in> {1..4}. \<exists>d. answer_ok fp d (R i) (ins i) \<and> recv (a i) (port i) (json_dump fp (Object
      [(''keywords'', String kw), (''page'', String (to_string q))]) @ replicate 510 CHR ''x'') = Data d"
    and "v_response st = []"
  shows "run (go_search fp L shf recv st (search_path kw (4 * (q - 1) + k))) s =
    (Done (st\<lparr>witness_in_list := concat (map ins [1..4])\<rparr>, json_dump fp (R k)), s)"
  by (rule run_go_search [where ns = ns and a = a and port = port and R = R and ins = ins and recv = recv and shf = shf, OF assms])

text \<open>Four queriers on one host, which answer with their port.\<close>

definition example_answer :: "int \<Rightarrow> JSON" where
  "example_answer port = Object [(''response'', Integral port),
     (''witness'', Object [(''IN'', Array [String ''f'', String ''h''])])]"

definition example_nodes :: kstore where
  "example_nodes k =
     (if k = ''EPOCH'' then Some (KString (epoch_packet fp_example crypto_example (to_string 3)))
      else map_option (\<lambda>i. KList [node_text fp_example ''h'' i])
        (find (\<lambda>i. k = node_key (to_string 3) (to_string i)) [1..4]))"

lemma example_answer_ok:
  assumes "in_long i"
  shows "answer_ok fp_example (json_dump fp_example (example_answer i)) (Integral i) [''f'']"
proof -
  have e: "json_escape ''response'' = ''response''" "json_escape ''witness'' = ''witness''" "json_escape ''IN'' = ''IN''"
    "json_escape ''f'' = ''f''" "json_escape ''h'' = ''h''"
    by (simp_all add: json_escape_def json_escape_char_def)
  have "NUL \<notin> set (json_dump fp_example (example_answer i))" "length (json_dump fp_example (example_answer i)) < BUFFER_SIZE"
    using to_string_short [OF assms] to_string_chars [of NUL i] by (auto simp: json_dump_def example_answer_def e BUFFER_SIZE_def)
  moreover have "JSON_Load fp_example (json_dump fp_example (example_answer i)) = Inr (example_answer i)"
    using assms by (intro Load_dump) (auto simp: example_answer_def e)
  moreover have "json_ins fp_example (json_dump fp_example (index_key ''witness'' (example_answer i))) = Inr [''f'', ''h'']"
    using Load_dump [of "index_key ''witness'' (example_answer i)" fp_example]
    by (simp add: json_ins_def example_answer_def e ArrayRange_def)
  moreover have "index_key ''response'' (example_answer i) = Integral i" by (simp add: example_answer_def)
  ultimately show ?thesis by (simp add: answer_ok_def)
qed

lemma example_nodes_ok:
  "epoch_is fp_example crypto_example 3 example_nodes"
  "i \<in> {1..4} \<Longrightarrow> example_nodes (node_key (to_string 3) (to_string i)) = Some (KList [node_text fp_example ''h'' i])"
proof -
  assume "i \<in> {1..4}"
  moreover have "find (\<lambda>j. i = j) xs = Some i" if "i \<in> set xs" for xs using that by (induction xs) auto
  ultimately show "example_nodes (node_key (to_string 3) (to_string i)) = Some (KList [node_text fp_example ''h'' i])"
    by (simp add: example_nodes_def node_key_def to_string_inj del: upto_rec_numeral)
qed (simp add: example_nodes_def epoch_is_def)

theorem search_page_witness:
  "run (go_search fp_example crypto_example (\<lambda>_ xs. xs) (\<lambda>_ port _. Data (json_dump fp_example (example_answer port)))
      \<lparr>witness_in_list = [], v_response = []\<rparr> (search_path ''cat'' (4 * (2 - 1) + 3))) example_nodes =
    (Done (\<lparr>witness_in_list = [], v_response = []\<rparr>\<lparr>witness_in_list := concat (map (\<lambda>_. [''f'']) [1..4])\<rparr>,
      json_dump fp_example (Integral 3)), example_nodes)"
proof (rule search_page [where ns = "\<lambda>i. [node_text fp_example ''h'' i]" and a = "\<lambda>_. ''h''" and port = "\<lambda>i. i" and
      R = Integral and ins = "\<lambda>_. [''f'']", OF crypto_example_ok example_nodes_ok(1)])
  show "\<forall>i \<in> {1..4}. example_nodes (node_key (to_string 3) (to_string i)) = Some (KList [node_text fp_example ''h'' i]) \<and>
      [node_text fp_example ''h'' i] \<noteq> [] \<and> hd [node_text fp_example ''h'' i] = node_text fp_example ''h'' i \<and>
      json_escape ''h'' = ''h'' \<and> NUL \<notin> set ''h'' \<and> in_int i"
    using example_nodes_ok(2) by (auto simp: json_escape_def json_escape_char_def in_int_def)
  have "in_long i" if "i \<in> {1..4}" for i using that by (simp add: in_long_def LONG_MIN_def LONG_MAX_def)
  with example_answer_ok show "\<forall>i \<in> {1..4}. \<exists>d. answer_ok fp_example d (Integral i) [''f''] \<and>
      Data (json_dump fp_example (example_answer i)) = Data d" by blast
qed simp_all

end
