(* ===== verification/Passes.thy ===== *)
theory Passes
  imports Executors
begin

text \<open>
  What one undisturbed pass of an executor leaves on Kanban: the witness texts that the enclaves hand out, the
  store after an upload, the pass of the crawler over all batches with the commit of the manager that follows
  it, and the pass of the indexer.
\<close>

subsection \<open>Witness texts\<close>

definition honest_text :: "fp_lib \<Rightarrow> crypto_lib \<Rightarrow> string \<Rightarrow> string \<Rightarrow> bool" where
  "honest_text fp L k w \<longleftrightarrow> (\<exists>c. w = json_dump fp (signed_witness L fp c) \<and> w_out c = k \<and> json_escape k = k)"

lemma honest_check:
  assumes "crypto_sizes L" "sig_correct L" "honest_text fp L k w"
  shows "check_witness fp L w = Inr True \<and> (\<exists>j. JSON_Load fp w = Inr j \<and> index_key ''OUT'' j = String k)"
proof -
  from assms(3) obtain c where c: "w = json_dump fp (signed_witness L fp c)" "w_out c = k" by (auto simp: honest_text_def)
  then have "JSON_Load fp w = Inr (signed_witness L fp c)" by (simp add: Load_dump)
  moreover have "check_witness fp L w = Inr True" using assms(1,2) c(1) by (simp add: check_signed sig_correct_def)
  ultimately show ?thesis using c(2) by simp
qed

lemma honest_witness_of: "honest_text fp L (sha256_string L out) (json_dump fp (signed_witness L fp (witness_of L tag ins out bin)))"
  unfolding honest_text_def by (rule exI [of _ "witness_of L tag ins out bin"]) (simp add: witness_of_def)

lemma NUL_dump_hashes:
  "NUL \<notin> set (dump_elements fp d skip (map (String \<circ> sha256_string L) ins))"
  by (induction ins arbitrary: skip) simp_all

lemma NUL_sig [simp]: "NUL \<notin> set (ed25519_sig_to_string sig)"
  using hex_chars [of NUL] by (auto simp: ed25519_sig_to_string_def)

lemma NUL_witness_text:
  assumes "NUL \<notin> set tag" "json_escape tag = tag"
  shows "NUL \<notin> set (json_dump fp (signed_witness L fp (witness_of L tag ins out bin)))"
  using assms NUL_dump_hashes [of fp "Suc (Suc 0)" True L ins]
  by (simp add: signed_witness_def witness_of_def json_dump_def)

text \<open>What a caller finds in its zeroed buffer.\<close>

lemma exposed_witness:
  assumes "expose (zeros n) (size_t_of (int n) > length w) w = Inr b" "length w < n" "n < 2 ^ 64" "NUL \<notin> set w"
  shows "buf_c_str b = Inr w"
proof -
  have "size_t_of (int n) = n" using assms(3) by (simp add: size_t_of_def)
  with assms(1,2) have "b = w @ drop (length w) (zeros n)" by (simp add: expose_def zeros_def)
  moreover have "drop (length w) (zeros n) = NUL # zeros (n - length w - 1)"
    using assms(2) by (simp add: zeros_def drop_replicate) (metis Suc_diff_Suc replicate_Suc)
  ultimately show ?thesis using assms(4) by (simp add: buf_c_str_def)
qed

lemma Digest2Binary_back:
  assumes "Digest2Binary ds = Inr b" "length ds \<le> 1000" "\<forall>d \<in> set ds. NUL \<notin> set d"
    and "Binary2Digest b (c_int (int (length b))) [] = Inr r"
  shows "r = ds"
proof -
  note b = Digest2Binary_Inr [OF assms(1)]
  have "digest_total ds < 2 ^ 31" "b = digest_bytes ds" using b assms(2) by simp_all
  then have l: "Binary2Digest_loop [] [] (digest_bytes ds) = Inr r"
    using assms(4) by (auto simp: Binary2Digest_def in_int_def split: if_splits)
  have n: "list_all (\<lambda>d. NUL \<notin> set d) ds" using assms(3) by (simp add: list_all_iff)
  then have "list_all (\<lambda>d. length d < TEMP_DIGEST_LEN) ds" using Binary2Digest_loop_too_long [of ds] l by auto
  with l n show ?thesis using Binary2Digest_loop_bytes [of ds "[]" "[]"] by (simp add: list_all_iff)
qed

text \<open>What the enclaves of the crawler and the indexer read from a short list of short strings.\<close>

lemma Digest2Binary_input:
  assumes "digests_ok ds" "length ds \<le> 1000"
  shows "Digest2Binary ds = Inr (digest_bytes ds)"
    "Binary2Digest (digest_bytes ds) (c_int (int (length (digest_bytes ds)))) [] = Inr ds"
proof -
  have "length ds * TEMP_DIGEST_LEN \<le> 1000 * TEMP_DIGEST_LEN" using assms(2) by simp
  with digest_total_le [OF assms(1)] have t: "digest_total ds < 2 ^ 31" by (simp add: TEMP_DIGEST_LEN_def)
  then show "Digest2Binary ds = Inr (digest_bytes ds)" by (rule Digest2Binary_fits)
  show "Binary2Digest (digest_bytes ds) (c_int (int (length (digest_bytes ds)))) [] = Inr ds"
    using Binary2Digest_input [OF assms(1) t, of "[]"] by simp
qed

lemma NUL_c_str [simp]: "NUL \<notin> set (c_str s)"
  by (auto simp: c_str_def dest: set_takeWhileD)

lemma crawler_witness_honest:
  assumes "ebind (Digest2Binary items) (\<lambda>b. ecall_parse_items fp L g True [] b obuf osz (zeros WITNESS_MAX_LENGTH)
      (int WITNESS_MAX_LENGTH)) = Inr (o', w', st)"
    and "\<forall>d \<in> set items. NUL \<notin> set d" "length items \<le> 1000" "crypto_sizes L"
  shows "st = [] \<and> (\<exists>k w. buf_c_str w' = Inr w \<and> honest_text fp L k w)"
proof -
  from assms(1) obtain b ds out where "Digest2Binary items = Inr b" "Binary2Digest b (c_int (int (length b))) [] = Inr ds"
    and st: "st = []"
    and e: "expose (zeros WITNESS_MAX_LENGTH) (size_t_of (int WITNESS_MAX_LENGTH) > length (create_cralwer_witness fp L g ds out))
      (create_cralwer_witness fp L g ds out) = Inr w'"
    by (auto simp: ecall_parse_items_def Let_def)
  then have "ds = items" using Digest2Binary_back assms(2,3) by blast
  with crawler_witness_length [OF assms(4), of fp g ds out] assms(3)
  have "length (create_cralwer_witness fp L g ds out) < WITNESS_MAX_LENGTH" by (simp add: WITNESS_MAX_LENGTH_def)
  from exposed_witness [OF e this] have "buf_c_str w' = Inr (create_cralwer_witness fp L g ds out)"
    unfolding create_cralwer_witness_eq
    by (simp add: WITNESS_MAX_LENGTH_def NUL_witness_text json_escape_def json_escape_char_def)
  with st show ?thesis using honest_witness_of create_cralwer_witness_eq by metis
qed

lemma indexer_witness_honest:
  assumes "ebind (Digest2Binary items) (\<lambda>b. ecall_build_index fp L g T stx ord indexer_clear b obuf osz (zeros WITNESS_MAX_LENGTH)
      (int WITNESS_MAX_LENGTH)) = Inr (o', sz, w', st)"
    and "\<forall>d \<in> set items. NUL \<notin> set d" "length items \<le> 1000" "crypto_sizes L"
  shows "st = indexer_clear \<and> (\<exists>k w. buf_c_str w' = Inr w \<and> honest_text fp L k w)"
proof -
  from assms(1) obtain bin ds s' out where "Digest2Binary items = Inr bin"
    "Binary2Digest bin (c_int (int (length bin))) [] = Inr ds" and st: "st = indexer_clear"
    and b: "build_index fp T stx (indexer_clear\<lparr>i_inputs := ds\<rparr>) = Inr s'"
    and e: "expose (zeros WITNESS_MAX_LENGTH) (size_t_of (int WITNESS_MAX_LENGTH) > length (create_indexer_witness fp L g (i_inputs s') out))
      (create_indexer_witness fp L g (i_inputs s') out) = Inr w'"
    by (auto simp: ecall_build_index_def Let_def indexer_clear_def)
  then have "ds = items" using Digest2Binary_back assms(2,3) by blast
  moreover have "i_inputs s' = ds" using b by (auto simp: build_index_def split: prod.splits)
  ultimately have "length (create_indexer_witness fp L g (i_inputs s') out) < WITNESS_MAX_LENGTH"
    using indexer_witness_length [OF assms(4), of fp g ds out] assms(3) by (simp add: WITNESS_MAX_LENGTH_def)
  from exposed_witness [OF e this] have "buf_c_str w' = Inr (create_indexer_witness fp L g (i_inputs s') out)"
    unfolding create_indexer_witness_eq
    by (simp add: WITNESS_MAX_LENGTH_def NUL_witness_text json_escape_def json_escape_char_def)
  with st show ?thesis using honest_witness_of create_indexer_witness_eq by metis
qed

lemma reducer_witness_honest:
  assumes "ecall_do_merge fp L g ord f1 f2 obuf osz (zeros WITNESS_MAX_LENGTH) (int WITNESS_MAX_LENGTH) = Inr (o', sz, w')"
    and "crypto_sizes L"
  shows "\<exists>k w. buf_c_str w' = Inr w \<and> honest_text fp L k w"
proof -
  from assms(1) obtain out where
    e: "expose (zeros WITNESS_MAX_LENGTH) (size_t_of (int WITNESS_MAX_LENGTH) > length (create_reducer_witness fp L g f1 f2 out))
      (create_reducer_witness fp L g f1 f2 out) = Inr w'"
    by (auto simp: ecall_do_merge_def Let_def split: if_splits)
  have "length (create_reducer_witness fp L g f1 f2 out) < WITNESS_MAX_LENGTH"
    using reducer_witness_length [OF assms(2), of fp g f1 f2 out] by (simp add: WITNESS_MAX_LENGTH_def)
  from exposed_witness [OF e this] have "buf_c_str w' = Inr (create_reducer_witness fp L g f1 f2 out)"
    unfolding create_reducer_witness_eq
    by (simp add: WITNESS_MAX_LENGTH_def NUL_witness_text json_escape_def json_escape_char_def)
  then show ?thesis using honest_witness_of create_reducer_witness_eq by metis
qed

subsection \<open>Uploads\<close>

definition witness_hash :: "kstore \<Rightarrow> (string \<times> string) list" where
  "witness_hash s = (case s ''witness'' of Some (KHash h) \<Rightarrow> h | _ \<Rightarrow> [])"

text \<open>The store after an output has been uploaded with its witness.\<close>

definition posted :: "string \<Rightarrow> string \<Rightarrow> string \<Rightarrow> string \<Rightarrow> string \<Rightarrow> kstore \<Rightarrow> kstore" where
  "posted e key out k w s = s(key \<mapsto> KString out, ''witness'' \<mapsto> KHash (hashTypeSet k w (witness_hash s)),
     witness_set_key e \<mapsto> KSet (insert k (members_of s (witness_set_key e))))"

text \<open>The keys with a fixed type have it.\<close>

definition mailbox_ok :: "string \<Rightarrow> kstore \<Rightarrow> bool" where
  "mailbox_ok e s \<longleftrightarrow> (s ''witness'' = None \<or> (\<exists>h. s ''witness'' = Some (KHash h))) \<and> is_set_key s (witness_set_key e)"

text \<open>The keys the executors write are none of the special ones.\<close>

lemma file_key_neq [simp]:
  "items_key e i \<noteq> ''EPOCH''" "index_file_key e i \<noteq> ''EPOCH''" "global_index_key e i \<noteq> ''EPOCH''"
  by (simp_all add: items_key_def index_file_key_def global_index_key_def)

lemma file_key_inj [simp]:
  "items_key e i = items_key e j \<longleftrightarrow> i = j" "index_file_key e i = index_file_key e j \<longleftrightarrow> i = j"
  by (auto simp: items_key_def index_file_key_def to_string_inj)

lemma file_key_kinds [simp]:
  "items_key e i \<noteq> ''witness''" "items_key e i \<noteq> witness_set_key e'" "items_key e i \<noteq> ''Steemit-Block-ID''"
  "index_file_key e i \<noteq> ''witness''" "index_file_key e i \<noteq> witness_set_key e'" "index_file_key e i \<noteq> items_key e' j"
  by (simp_all add: items_key_def index_file_key_def witness_set_key_def)

lemma file_key_kinds' [simp]:
  "''witness'' \<noteq> items_key e i" "witness_set_key e' \<noteq> items_key e i" "''EPOCH'' \<noteq> items_key e i"
  "''witness'' \<noteq> index_file_key e i" "witness_set_key e' \<noteq> index_file_key e i" "''EPOCH'' \<noteq> index_file_key e i"
  "items_key e' j \<noteq> index_file_key e i"
  using file_key_kinds file_key_neq by metis+

lemma posted_simps [simp]:
  assumes "key \<noteq> ''witness''" "key \<noteq> witness_set_key e"
  shows "witness_hash (posted e key out k w s) = hashTypeSet k w (witness_hash s)"
    "members_of (posted e key out k w s) (witness_set_key e) = insert k (members_of s (witness_set_key e))"
    "mailbox_ok e (posted e key out k w s)"
    "posted e key out k w s key = Some (KString out)"
    "x \<noteq> key \<Longrightarrow> x \<noteq> ''witness'' \<Longrightarrow> x \<noteq> witness_set_key e \<Longrightarrow> posted e key out k w s x = s x"
  using assms by (simp_all add: posted_def witness_hash_def members_of_def mailbox_ok_def is_set_key_def)

lemma run_check_key: "s k = None \<Longrightarrow> run (o_check_key k) s = (Done False, s)"
  by (simp add: o_check_key_def kb_get_def getCommand_def)

lemma run_check_key_True: "s k = Some (KString v) \<Longrightarrow> run (o_check_key k) s = (Done True, s)"
  by (simp add: o_check_key_def kb_get_def getCommand_def)

lemma run_upload:
  assumes "buf_c_str b = Inr w" "honest_text fp L k w" "mailbox_ok e s"
    and "key \<noteq> ''witness''" "key \<noteq> witness_set_key e" "n \<le> length out"
  shows "run (pbind (o_put_key key out n) (\<lambda>_. o_append_witness fp e b)) s = (Done (), posted e key (take n out) k w s)"
proof -
  from assms(2) obtain c where c: "w = json_dump fp (signed_witness L fp c)" "w_out c = k" "json_escape k = k"
    by (auto simp: honest_text_def)
  then have "JSON_Load fp w = Inr (signed_witness L fp c)" by (simp add: Load_dump)
  moreover have "trim_string (json_dump fp (String k)) = Inr k"
    using c(3) trim_string_quotes by (simp add: json_dump_def)
  ultimately have "o_append_witness fp e b = pbind (kb_hset ''witness'' k w) (\<lambda>_. kb_sadd (witness_set_key e) k)"
    using assms(1) c(2) by (simp add: o_append_witness_def)
  then show ?thesis
    using assms(3-6)
    by (auto simp: o_put_key_def kb_defs kcommand_defs run_pbind mailbox_ok_def is_set_key_def posted_def
        witness_hash_def members_of_def split: option.splits kval.splits)
qed

text \<open>A loop over positions whose bodies leave the local state as it was.\<close>

lemma run_pfold_list:
  assumes "\<And>x xs s. P (x # xs) s \<Longrightarrow> run (f x a) s = (Done a, u x s) \<and> P xs (u x s)" "P xs s"
  shows "run (pfold f xs a) s = (Done a, fold u xs s)"
  using assms(2)
proof (induction xs arbitrary: s)
  case (Cons x xs)
  from assms(1) [OF Cons.prems] Cons.IH show ?case by (simp add: run_pbind)
qed simp

subsection \<open>The pass of the crawler\<close>

text \<open>The items of batch \<open>i\<close>.\<close>

definition crawl_items :: "(int \<Rightarrow> string list) \<Rightarrow> int \<Rightarrow> int \<Rightarrow> string list" where
  "crawl_items net b i = map (get_steemit_item net) (map (\<lambda>j. b + (i - 1) * int ITEMS_BULK_MAX + j) [1..int ITEMS_BULK_MAX])"

text \<open>Batch \<open>i\<close> can be processed and gives the document text \<open>out\<close>.\<close>

definition batch_ok :: "fp_lib \<Rightarrow> crypto_lib \<Rightarrow> (int \<Rightarrow> string list) \<Rightarrow> int \<Rightarrow> int \<Rightarrow> string \<Rightarrow> bool" where
  "batch_ok fp L net b i out \<longleftrightarrow> digests_ok (crawl_items net b i) \<and>
     parse_steemit_item fp L (crawl_items net b i) = Inr out \<and> length out < OUTPUT_MAX_LENGTH \<and> NUL \<notin> set out"

definition batch_witness :: "fp_lib \<Rightarrow> crypto_lib \<Rightarrow> (int \<Rightarrow> string list) \<Rightarrow> int \<Rightarrow> int \<Rightarrow> string \<Rightarrow> string" where
  "batch_witness fp L net b i out =
     json_dump fp (signed_witness L fp (witness_of L ''STEEMIT CRAWLER'' (crawl_items net b i) out CRAWLER_TAG))"

lemma exposed_text:
  assumes "length w < n" "n < 2 ^ 64" "NUL \<notin> set w"
  shows "\<exists>b. expose (zeros n) (size_t_of (int n) > length w) w = Inr b \<and> buf_c_str b = Inr w \<and>
    take (length w) b = w \<and> length w \<le> length b"
proof -
  have "size_t_of (int n) = n" using assms(2) by (simp add: size_t_of_def)
  then have e: "expose (zeros n) (size_t_of (int n) > length w) w = Inr (w @ drop (length w) (zeros n))"
    using assms(1) by (simp add: expose_def zeros_def)
  from exposed_witness [OF this assms] e show ?thesis by simp
qed

lemma crawl_call:
  assumes "crypto_sizes L" "batch_ok fp L net b i out"
  shows "\<exists>o' w'. ebind (Digest2Binary (crawl_items net b i)) (\<lambda>input. ecall_parse_items fp L g True [] input (zeros OUTPUT_MAX_LENGTH)
      (int OUTPUT_MAX_LENGTH) (zeros WITNESS_MAX_LENGTH) (int WITNESS_MAX_LENGTH)) = Inr (o', w', []) \<and>
    buf_c_str o' = Inr out \<and> take (length out) o' = out \<and> length out \<le> length o' \<and>
    buf_c_str w' = Inr (batch_witness fp L net b i out)"
proof -
  let ?items = "crawl_items net b i"
  let ?w = "create_cralwer_witness fp L g ?items out"
  have n: "length ?items = 64" by (simp add: crawl_items_def ITEMS_BULK_MAX_def)
  then have d: "Digest2Binary ?items = Inr (digest_bytes ?items)"
    "Binary2Digest (digest_bytes ?items) (c_int (int (length (digest_bytes ?items)))) [] = Inr ?items"
    using Digest2Binary_input [of ?items] assms(2) by (simp_all add: batch_ok_def)
  from n crawler_witness_length [OF assms(1), of fp g ?items out]
  have lw: "length ?w < WITNESS_MAX_LENGTH" by (simp add: WITNESS_MAX_LENGTH_def)
  have nw: "NUL \<notin> set ?w"
    unfolding create_cralwer_witness_eq by (simp add: NUL_witness_text json_escape_def json_escape_char_def)
  have wb: "?w = batch_witness fp L net b i out" by (simp add: create_cralwer_witness_eq batch_witness_def)
  have ob: "length out < OUTPUT_MAX_LENGTH" "NUL \<notin> set out" "parse_steemit_item fp L ?items = Inr out"
    using assms(2) by (simp_all add: batch_ok_def)
  have bounds: "WITNESS_MAX_LENGTH < 2 ^ 64" "OUTPUT_MAX_LENGTH < 2 ^ 64"
    by (simp_all add: WITNESS_MAX_LENGTH_def OUTPUT_MAX_LENGTH_def)
  from exposed_text [OF lw bounds(1) nw] exposed_text [OF ob(1) bounds(2) ob(2)] d wb ob(3)
  show ?thesis unfolding d(1) by (auto simp: ecall_parse_items_def Let_def simp del: length_digest_bytes)
qed

lemma batch_witness_honest: "honest_text fp L (sha256_string L out) (batch_witness fp L net b i out)"
  unfolding batch_witness_def by (rule honest_witness_of)

definition batch_post :: "fp_lib \<Rightarrow> crypto_lib \<Rightarrow> (int \<Rightarrow> string list) \<Rightarrow> string \<Rightarrow> int \<Rightarrow> (int \<Rightarrow> string) \<Rightarrow> int \<Rightarrow> kstore \<Rightarrow> kstore" where
  "batch_post fp L net e b out i =
     posted e (items_key e i) (out i) (sha256_string L (out i)) (batch_witness fp L net b i (out i))"

lemma run_crawl_batch:
  assumes "crypto_sizes L" "batch_ok fp L net b i (out i)" "in_int b" "in_int (b + 1024)" "1 \<le> i" "i \<le> 16"
    and "s (items_key e i) = None" "mailbox_ok e s"
  shows "run (crawl_batch fp L g net e b i []) s = (Done [], batch_post fp L net e b out i s)"
proof -
  have "list_all in_int (map (\<lambda>j. b + (i - 1) * int ITEMS_BULK_MAX + j) [1..int ITEMS_BULK_MAX])"
    using assms(3-6) by (auto simp: list_all_iff in_int_def ITEMS_BULK_MAX_def)
  moreover obtain o' w' where c: "ebind (Digest2Binary (crawl_items net b i)) (\<lambda>input. ecall_parse_items fp L g True [] input (zeros OUTPUT_MAX_LENGTH)
      (int OUTPUT_MAX_LENGTH) (zeros WITNESS_MAX_LENGTH) (int WITNESS_MAX_LENGTH)) = Inr (o', w', [])"
    "buf_c_str o' = Inr (out i)" "take (length (out i)) o' = out i" "length (out i) \<le> length o'"
    "buf_c_str w' = Inr (batch_witness fp L net b i (out i))"
    using crawl_call [OF assms(1,2), of g] by metis
  moreover have "run (pbind (o_put_key (items_key e i) o' (length (out i))) (\<lambda>_. o_append_witness fp e w')) s =
      (Done (), batch_post fp L net e b out i s)"
    using run_upload [OF c(5) batch_witness_honest assms(8), of "items_key e i" "length (out i)" o'] c(3,4)
    by (simp add: batch_post_def)
  then have "run (pbind (o_put_key (items_key e i) o' (length (out i)))
      (\<lambda>_. pbind (o_append_witness fp e w') (\<lambda>_. Return []))) s = (Done [], batch_post fp L net e b out i s)"
    unfolding pbind_assoc [symmetric] by (simp add: run_pbind_Done)
  ultimately show ?thesis
    unfolding crawl_batch_def Let_def crawl_items_def [symmetric]
      run_pbind_Done [OF run_check_key [where s = s and k = "items_key e i", OF assms(7)]] by simp
qed

lemma batch_post_simps [simp]:
  "witness_hash (batch_post fp L net e b out i s) =
     hashTypeSet (sha256_string L (out i)) (batch_witness fp L net b i (out i)) (witness_hash s)"
  "members_of (batch_post fp L net e b out i s) (witness_set_key e) =
     insert (sha256_string L (out i)) (members_of s (witness_set_key e))"
  "mailbox_ok e (batch_post fp L net e b out i s)"
  "batch_post fp L net e b out i s (items_key e j) = (if j = i then Some (KString (out i)) else s (items_key e j))"
  "batch_post fp L net e b out i s ''EPOCH'' = s ''EPOCH''"
  by (simp_all add: batch_post_def)

text \<open>The store after all batches.\<close>

lemma fold_batch_post:
  "members_of (fold (batch_post fp L net e b out) is s) (witness_set_key e) =
     members_of s (witness_set_key e) \<union> (\<lambda>i. sha256_string L (out i)) ` set is"
  "fold (batch_post fp L net e b out) is s (items_key e j) =
     (if j \<in> set is then Some (KString (out j)) else s (items_key e j))"
  "fold (batch_post fp L net e b out) is s ''EPOCH'' = s ''EPOCH''"
  by (induction "is" arbitrary: s) auto

lemma fold_batch_mailbox: "mailbox_ok e s \<Longrightarrow> mailbox_ok e (fold (batch_post fp L net e b out) is s)"
  by (induction "is" arbitrary: s) simp_all

lemma fold_batch_hash:
  assumes "(\<exists>i \<in> A. map_of (witness_hash s) k = Some (batch_witness fp L net b i (out i)) \<and> sha256_string L (out i) = k) \<or>
      k \<in> (\<lambda>i. sha256_string L (out i)) ` set is" "set is \<subseteq> A"
  shows "\<exists>i \<in> A. map_of (witness_hash (fold (batch_post fp L net e b out) is s)) k =
    Some (batch_witness fp L net b i (out i)) \<and> sha256_string L (out i) = k"
  using assms
proof (induction "is" arbitrary: s)
  case (Cons i "is")
  let ?s = "batch_post fp L net e b out i s"
  have "(\<exists>i \<in> A. map_of (witness_hash ?s) k = Some (batch_witness fp L net b i (out i)) \<and> sha256_string L (out i) = k) \<or>
      k \<in> (\<lambda>i. sha256_string L (out i)) ` set is"
    using Cons.prems by (auto simp: map_of_hashTypeSet)
  from Cons.IH [OF this] Cons.prems(2) show ?case by simp
qed simp

lemma run_do_crawl:
  assumes "crypto_sizes L" "sig_correct L" "epoch_is fp L n s" "in_int n" "n \<noteq> - 1"
    and "s ''Steemit-Block-ID'' = Some (KString (to_string b))" "in_int b" "in_int (b + 1024)"
    and "\<forall>i \<in> {1..16}. batch_ok fp L net b i (out i)"
    and "\<forall>i \<in> {1..16}. s (items_key (to_string n) i) = None" "mailbox_ok (to_string n) s"
  shows "run (do_crawl fp L g net []) s = (Done [], fold (batch_post fp L net (to_string n) b out) [1..16] s)"
proof -
  let ?e = "to_string n"
  let ?P = "\<lambda>is s. mailbox_ok ?e s \<and> distinct is \<and> set is \<subseteq> {1..16} \<and> (\<forall>i \<in> set is. s (items_key ?e i) = None)"
  have "run (pfold (crawl_batch fp L g net ?e b) [1..16] []) s = (Done [], fold (batch_post fp L net ?e b out) [1..16] s)"
  proof (rule run_pfold_list [where P = ?P])
    fix i "is" s assume P: "?P (i # is) s"
    with assms(9) have b: "batch_ok fp L net b i (out i)" by auto
    from P have i: "1 \<le> i" "i \<le> 16" "s (items_key ?e i) = None" "mailbox_ok ?e s" by auto
    show "run (crawl_batch fp L g net ?e b i []) s = (Done [], batch_post fp L net ?e b out i s) \<and>
        ?P is (batch_post fp L net ?e b out i s)"
      using run_crawl_batch [where out = out, OF assms(1) b assms(7,8) i, of g] P by auto
  qed (use assms(10,11) in auto)
  moreover have "run (kb_get ''Steemit-Block-ID'') s = (Done (Some (to_string b)), s)"
    using assms(6) by (simp add: kb_get_def getCommand_def)
  ultimately show ?thesis
    using run_get_epoch_int [OF assms(1-4)] assms(5,7)
    by (simp add: do_crawl_def run_pbind lift_stoi_def roundtrip_simps ITEMS_POOL_MAX_def)
qed

subsection \<open>The pass of the indexer\<close>

text \<open>The documents \<open>docs\<close> give the index file \<open>file\<close>.\<close>

definition shard_ok ::
  "fp_lib \<Rightarrow> (string \<Rightarrow> string list) \<Rightarrow> string \<Rightarrow> (index_table \<Rightarrow> index_table) \<Rightarrow> string list \<Rightarrow> string \<Rightarrow> bool" where
  "shard_ok fp T stx ord docs file \<longleftrightarrow> digests_ok docs \<and> length docs \<le> 1000 \<and> length file < INDEX_OUTPUT_MAX_LENGTH \<and>
     (\<exists>st. build_index fp T stx (indexer_clear\<lparr>i_inputs := docs\<rparr>) = Inr st \<and>
        Merge2Binary ord (i_digest_tbl st) (i_index_tbl st) = Inr file)"

lemma index_call:
  assumes "crypto_sizes L" "shard_ok fp T stx ord docs file"
  shows "\<exists>o' w' k w. ebind (Digest2Binary docs) (\<lambda>b. ecall_build_index fp L g T stx ord indexer_clear b (zeros INDEX_OUTPUT_MAX_LENGTH)
      (int INDEX_OUTPUT_MAX_LENGTH) (zeros WITNESS_MAX_LENGTH) (int WITNESS_MAX_LENGTH)) =
      Inr (o', int (length file), w', indexer_clear) \<and> take (length file) o' = file \<and> length file \<le> length o' \<and>
    buf_c_str w' = Inr w \<and> honest_text fp L k w"
proof -
  from assms(2) obtain st where st: "build_index fp T stx (indexer_clear\<lparr>i_inputs := docs\<rparr>) = Inr st"
    "Merge2Binary ord (i_digest_tbl st) (i_index_tbl st) = Inr file" "digests_ok docs" "length docs \<le> 1000"
    "length file < INDEX_OUTPUT_MAX_LENGTH" by (auto simp: shard_ok_def)
  have i: "i_inputs st = docs" using st(1) by (auto simp: build_index_def split: prod.splits)
  let ?w = "create_indexer_witness fp L g docs file"
  note d = Digest2Binary_input [OF st(3,4)]
  have lw: "length ?w < WITNESS_MAX_LENGTH"
    using indexer_witness_length [OF assms(1), of fp g docs "file"] st(4) by (simp add: WITNESS_MAX_LENGTH_def)
  have nw: "NUL \<notin> set ?w"
    unfolding create_indexer_witness_eq by (simp add: NUL_witness_text json_escape_def json_escape_char_def)
  have "WITNESS_MAX_LENGTH < 2 ^ 64" by (simp add: WITNESS_MAX_LENGTH_def)
  from exposed_text [OF lw this nw] obtain w' where
    w': "expose (zeros WITNESS_MAX_LENGTH) (size_t_of (int WITNESS_MAX_LENGTH) > length ?w) ?w = Inr w'" "buf_c_str w' = Inr ?w"
    by blast
  let ?o = "file @ drop (length file) (zeros INDEX_OUTPUT_MAX_LENGTH)"
  have "ebind (Digest2Binary docs) (\<lambda>b. ecall_build_index fp L g T stx ord indexer_clear b (zeros INDEX_OUTPUT_MAX_LENGTH)
      (int INDEX_OUTPUT_MAX_LENGTH) (zeros WITNESS_MAX_LENGTH) (int WITNESS_MAX_LENGTH)) =
      Inr (?o, int (length file), w', indexer_clear)"
    using st(1,2,5) d w'(1) i
    by (simp add: ecall_build_index_def indexer_clear_def Let_def expose_exact zeros_def del: length_digest_bytes)
  moreover have "honest_text fp L (sha256_string L file) ?w"
    unfolding create_indexer_witness_eq by (rule honest_witness_of)
  ultimately show ?thesis using w'(2) by fastforce
qed

lemma run_index_inputs:
  assumes "\<forall>j \<in> {p..p + 3}. s (items_key (to_string n) j) = Some (KString (doc j)) \<and> length (doc j) \<le> 2 ^ 31 - 1" "\<forall>k. room k"
  shows "run (index_inputs room n p) s = (Done (map (\<lambda>j. c_str (doc j)) [p..p + 3]), s)"
proof -
  have e: "p + int INDEX_BULK_MAX - 1 = p + 3" by (simp add: INDEX_BULK_MAX_def)
  have "run (index_inputs room n p) s = (Done (fold (\<lambda>j inputs. inputs @ [c_str (doc j)]) [p..p + 3] []), s)"
    unfolding index_inputs_def e
  proof (rule run_pfold_Done)
    fix j inputs assume "j \<in> set [p..p + 3]"
    then have "s (items_key (to_string n) j) = Some (KString (doc j))" "\<not> 2 ^ 31 - 1 < length (doc j)"
      using assms(1) by (simp_all add: not_less)
    then show "run (pbind (o_get_key (items_key (to_string n) j)) (\<lambda>items_value.
        if \<not> room (length items_value) then Raise FWrite else Return (inputs @ [c_str items_value]))) s =
      (Done (inputs @ [c_str (doc j)]), s)"
      using assms(2) by (simp add: o_get_key_def getCommand_def)
  qed
  moreover have "fold (\<lambda>j inputs. inputs @ [f j]) xs ys = ys @ map f xs" for f :: "int \<Rightarrow> string" and xs ys
    by (induction xs arbitrary: ys) simp_all
  ultimately show ?thesis by simp
qed

lemma run_index_shard:
  assumes "crypto_sizes L" "\<forall>j \<in> {p..p + 3}. s (items_key (to_string (n - 1)) j) = Some (KString (doc j)) \<and> length (doc j) \<le> 2 ^ 31 - 1"
    and "\<forall>k. room k" "shard_ok fp T stx ord (map (\<lambda>j. c_str (doc j)) [p..p + 3]) file" "2 < n"
    and "s (index_file_key (to_string n) i) = None" "mailbox_ok (to_string n) s"
  shows "\<exists>k w. run (index_shard fp L g T stx ord room n i (p, indexer_clear)) s =
    (Done (p + 4, indexer_clear), posted (to_string n) (index_file_key (to_string n) i) file k w s)"
proof -
  let ?docs = "map (\<lambda>j. c_str (doc j)) [p..p + 3]"
  obtain o' w' k w where c: "ebind (Digest2Binary ?docs) (\<lambda>b. ecall_build_index fp L g T stx ord indexer_clear b (zeros INDEX_OUTPUT_MAX_LENGTH)
      (int INDEX_OUTPUT_MAX_LENGTH) (zeros WITNESS_MAX_LENGTH) (int WITNESS_MAX_LENGTH)) =
      Inr (o', int (length file), w', indexer_clear)" "take (length file) o' = file" "length file \<le> length o'"
    "buf_c_str w' = Inr w" "honest_text fp L k w"
    using index_call [OF assms(1,4), of g] by metis
  from run_upload [OF c(4,5) assms(7), of "index_file_key (to_string n) i" "length file" o'] c(2,3)
  have "run (pbind (o_put_key (index_file_key (to_string n) i) o' (length file)) (\<lambda>_. o_append_witness fp (to_string n) w')) s =
    (Done (), posted (to_string n) (index_file_key (to_string n) i) file k w s)" by simp
  then have "run (pbind (o_put_key (index_file_key (to_string n) i) o' (length file)) (\<lambda>_.
      pbind (o_append_witness fp (to_string n) w') (\<lambda>_. Return (p + 4, indexer_clear)))) s =
    (Done (p + 4, indexer_clear), posted (to_string n) (index_file_key (to_string n) i) file k w s)"
    unfolding pbind_assoc [symmetric] by (simp add: run_pbind_Done)
  moreover have "index_upload fp n i p (o', int (length file), w', indexer_clear) =
      pbind (o_put_key (index_file_key (to_string n) i) o' (length file)) (\<lambda>_.
        pbind (o_append_witness fp (to_string n) w') (\<lambda>_. Return (p + 4, indexer_clear)))"
    using assms(5) by (simp add: index_upload_def INDEX_BULK_MAX_def)
  ultimately have "run (index_shard fp L g T stx ord room n i (p, indexer_clear)) s =
    (Done (p + 4, indexer_clear), posted (to_string n) (index_file_key (to_string n) i) file k w s)"
    unfolding index_shard_def split_conv
      run_pbind_Done [OF run_check_key [where s = s and k = "index_file_key (to_string n) i", OF assms(6)]] if_False
      run_pbind_Done [OF run_index_inputs [OF assms(2,3)]] c(1) lift_simps pbind.simps by simp
  then show ?thesis by blast
qed

text \<open>The shards of \<open>xs\<close> that were missing in \<open>s\<close> hold the files from number \<open>m\<close> on in \<open>s'\<close>, and no other shard has changed.\<close>

definition shards_built :: "(int \<Rightarrow> string) \<Rightarrow> (int \<Rightarrow> string) \<Rightarrow> int list \<Rightarrow> int \<Rightarrow> kstore \<Rightarrow> kstore \<Rightarrow> bool" where
  "shards_built key f xs m s s' \<longleftrightarrow> (\<forall>i. i \<notin> set xs \<longrightarrow> s' (key i) = s (key i)) \<and>
     (let missing = filter (\<lambda>i. s (key i) = None) xs in \<forall>r < length missing. s' (key (missing ! r)) = Some (KString (f (m + int r))))"

lemma shards_built_skip: "shards_built key f xs m s s' \<Longrightarrow> s (key i) \<noteq> None \<Longrightarrow> shards_built key f (i # xs) m s s'"
  by (auto simp: shards_built_def)

lemma shards_built_step:
  assumes "shards_built key f xs (m + 1) t s'" "i \<notin> set xs" "s (key i) = None" "t (key i) = Some (KString (f m))"
    and "\<And>q. q \<noteq> i \<Longrightarrow> t (key q) = s (key q)"
  shows "shards_built key f (i # xs) m s s'"
proof -
  let ?ms = "filter (\<lambda>q. s (key q) = None) xs"
  have "\<forall>q \<in> set xs. t (key q) = s (key q)" using assms(2,5) by metis
  then have fl: "filter (\<lambda>q. t (key q) = None) xs = ?ms" by (intro filter_cong) auto
  have "s' (key ((i # ?ms) ! q)) = Some (KString (f (m + int q)))" if "q < Suc (length ?ms)" for q
    using that assms(1,2,4) by (cases q) (simp_all add: shards_built_def Let_def fl add.assoc)
  then show ?thesis using assms(1,3,5) by (auto simp: shards_built_def)
qed

text \<open>A pass over the shards \<open>xs\<close> when the next group of items is number \<open>m\<close>.\<close>

lemma run_index_shards:
  assumes "crypto_sizes L" "\<forall>k. room k" "2 < n" "distinct xs"
    and "\<forall>j \<in> {4 * m - 3..4 * (m + int (length xs)) - 4}. s (items_key (to_string (n - 1)) j) = Some (KString (doc j)) \<and>
      length (doc j) \<le> 2 ^ 31 - 1"
    and "\<forall>i \<in> {m..<m + int (length xs)}. shard_ok fp T stx ord (map (\<lambda>j. c_str (doc j)) [4 * i - 3..4 * i]) (f i)"
    and "\<forall>i \<in> set xs. s (index_file_key (to_string n) i) = None \<or> (\<exists>v. s (index_file_key (to_string n) i) = Some (KString v))"
    and "mailbox_ok (to_string n) s"
  shows "\<exists>s' p. run (pfold (index_shard fp L g T stx ord room n) xs (4 * m - 3, indexer_clear)) s = (Done (p, indexer_clear), s') \<and>
    shards_built (index_file_key (to_string n)) f xs m s s'"
  using assms(4-8)
proof (induction xs arbitrary: m s)
  case Nil
  then show ?case by (simp add: shards_built_def)
next
  case (Cons i xs)
  let ?k = "index_file_key (to_string n)"
  have i: "i \<notin> set xs" "distinct xs" using Cons.prems(1) by auto
  show ?case
  proof (cases "s (?k i)")
    case (Some y)
    with Cons.prems(4) obtain v where v: "s (?k i) = Some (KString v)" by auto
    have "run (index_shard fp L g T stx ord room n i (4 * m - 3, indexer_clear)) s = (Done (4 * m - 3, indexer_clear), s)"
      using run_check_key_True [where s = s and k = "?k i", OF v] by (simp add: index_shard_def run_pbind)
    moreover have "\<exists>s' p. run (pfold (index_shard fp L g T stx ord room n) xs (4 * m - 3, indexer_clear)) s =
        (Done (p, indexer_clear), s') \<and> shards_built ?k f xs m s s'"
      using Cons.prems by (intro Cons.IH) auto
    ultimately show ?thesis using shards_built_skip [of ?k f xs m s _ i] v by (auto simp: run_pbind)
  next
    case None
    have d: "\<forall>j \<in> {4 * m - 3..4 * m - 3 + 3}. s (items_key (to_string (n - 1)) j) = Some (KString (doc j)) \<and>
      length (doc j) \<le> 2 ^ 31 - 1" using Cons.prems(2) by auto
    have h: "shard_ok fp T stx ord (map (\<lambda>j. c_str (doc j)) [4 * m - 3..4 * m - 3 + 3]) (f m)" using Cons.prems(3) by auto
    from run_index_shard [OF assms(1) d assms(2) h assms(3) None Cons.prems(5), of g] obtain k w where
      e: "run (index_shard fp L g T stx ord room n i (4 * m - 3, indexer_clear)) s =
        (Done (4 * (m + 1) - 3, indexer_clear), posted (to_string n) (?k i) (f m) k w s)" by (auto simp: algebra_simps)
    define s1 where "s1 = posted (to_string n) (?k i) (f m) k w s"
    have s1: "mailbox_ok (to_string n) s1" "s1 (?k i) = Some (KString (f m))" "\<And>q. q \<noteq> i \<Longrightarrow> s1 (?k q) = s (?k q)"
      "\<And>e' q. s1 (items_key e' q) = s (items_key e' q)" by (simp_all add: s1_def)
    have "\<forall>q \<in> set xs. s1 (?k q) = s (?k q)" using s1(3) i(1) by metis
    with Cons.prems(4) have "\<forall>q \<in> set xs. s1 (?k q) = None \<or> (\<exists>v. s1 (?k q) = Some (KString v))" by simp
    then have "\<exists>s' p. run (pfold (index_shard fp L g T stx ord room n) xs (4 * (m + 1) - 3, indexer_clear)) s1 =
        (Done (p, indexer_clear), s') \<and> shards_built ?k f xs (m + 1) s1 s'"
      using Cons.prems(2,3) s1(1,4) i by (intro Cons.IH) auto
    with shards_built_step [where key = ?k and s = s and t = s1 and f = f and m = m, OF _ i(1) None s1(2,3)] e show ?thesis
      by (auto simp: run_pbind s1_def [symmetric])
  qed
qed

subsection \<open>Properties\<close>

text \<open>
  C8.  The first epoch.  One undisturbed pass of a crawler over sixteen batches that can be processed uploads the
  document text of every batch and, under the hash of the text, a witness that passes the check.  After it the
  manager ends the epoch if the sixteen texts have different hashes.  If two of them agree it waits for ever: the keys are
  a set, the crawler skips batches that are there, and the number of expected keys counts batches.
\<close>

theorem first_epoch:
  assumes "crypto_sizes L" "sig_correct L" "epoch_is fp L 1 s"
    and "s ''Steemit-Block-ID'' = Some (KString (to_string b))" "in_int b" "in_int (b + 1024)"
    and "\<forall>i \<in> {1..16}. batch_ok fp L net b i (out i)"
    and "\<forall>i \<in> {1..16}. s (items_key (to_string 1) i) = None" "mailbox_ok (to_string 1) s"
    and "members_of s (witness_set_key (to_string 1)) = {}"
  shows "\<exists>s'. run (do_crawl fp L g net []) s = (Done [], s') \<and>
    (\<forall>i \<in> {1..16}. s' (items_key (to_string 1) i) = Some (KString (out i)) \<and>
      (\<exists>w. map_of (witness_hash s') (sha256_string L (out i)) = Some w \<and> check_witness fp L w = Inr True)) \<and>
    fst (run (increment_epoch srt fp L) s') =
      (if card ((\<lambda>i. sha256_string L (out i)) ` {1..16}) = 16 then Done () else Hangs)"
proof -
  let ?e = "to_string 1" and ?K = "(\<lambda>i. sha256_string L (out i)) ` {1..16}"
  let ?s = "fold (batch_post fp L net ?e b out) [1..16] s"
  have n: "in_int 1" "(1 :: int) \<noteq> - 1" "in_int (1 + 1)" "(0 :: int) \<le> 1" by (simp_all add: in_int_def)
  note r = run_do_crawl [OF assms(1-3) n(1,2) assms(4-9), of g]
  note f = fold_batch_post [of fp L net ?e b out "[1..16]" s]
  have "\<exists>w. map_of (witness_hash ?s) (sha256_string L (out i)) = Some w \<and> check_witness fp L w = Inr True"
    if "i \<in> {1..16}" for i
  proof -
    from fold_batch_hash [of "{1..16}" s "sha256_string L (out i)" fp L net b out "[1..16]" ?e] that obtain j where
      j: "map_of (witness_hash ?s) (sha256_string L (out i)) = Some (batch_witness fp L net b j (out j))" by auto
    moreover have "check_witness fp L (batch_witness fp L net b j (out j)) = Inr True"
      using honest_check [OF assms(1,2) batch_witness_honest] by blast
    ultimately show ?thesis by blast
  qed
  moreover have "epoch_is fp L 1 ?s" using assms(3) f(3) by (simp add: epoch_is_def)
  moreover have m: "members_of ?s (witness_set_key ?e) = ?K" using f(1) assms(10) by simp
  moreover have "is_set_key ?s (witness_set_key ?e)" using fold_batch_mailbox [OF assms(9)] by (simp add: mailbox_ok_def)
  moreover have "sha256_string L x \<noteq> []" for x using length_sha256_string [OF assms(1), of x] by auto
  then have "[] \<notin> ?K" by (metis (no_types, lifting) image_iff)
  moreover have "card ?K \<le> 16" using card_image_le [of "{1..16 :: int}" "\<lambda>i. sha256_string L (out i)"] by simp
  moreover have "expected_key_size 1 = 16" by (simp add: expected_key_size_def ITEMS_POOL_MAX_def)
  ultimately show ?thesis
    using r f(2) run_increment_epoch [OF assms(1,2) _ n(3,4), of fp ?s srt]
    by (intro exI [of _ ?s]) auto
qed

text \<open>
  C9.  Which items a shard is built from.  A pass of the indexer builds the shards of its epoch that are
  missing; the one at position \<open>r\<close> among them, from 0, is built from the group of four batches with number \<open>r + 1\<close>.  That is the group
  of its own number when no shard exists yet.  When other indexers have already made shards with smaller
  numbers, the groups of those are indexed again and the last ones never.
\<close>

theorem index_pass:
  assumes "crypto_sizes L" "sig_correct L" "epoch_is fp L n s" "in_int n" "2 < n" "\<forall>k. room k"
    and "\<forall>j \<in> {1..16}. s (items_key (to_string (n - 1)) j) = Some (KString (doc j)) \<and> length (doc j) \<le> 2 ^ 31 - 1"
    and "\<forall>m \<in> {1..4}. shard_ok fp T stx ord (map (\<lambda>j. c_str (doc j)) [4 * m - 3..4 * m]) (f m)"
    and "\<forall>i \<in> {1..4}. s (index_file_key (to_string n) i) = None \<or> (\<exists>v. s (index_file_key (to_string n) i) = Some (KString v))"
    and "mailbox_ok (to_string n) s"
  shows "\<exists>s'. run (do_index fp L g T stx ord room indexer_clear) s = (Done indexer_clear, s') \<and>
    (let missing = filter (\<lambda>i. s (index_file_key (to_string n) i) = None) [1..4] in
     \<forall>r < length missing. s' (index_file_key (to_string n) (missing ! r)) = Some (KString (f (1 + int r))))"
proof -
  have "\<exists>s' p. run (pfold (index_shard fp L g T stx ord room n) [1..4] (4 * 1 - 3, indexer_clear)) s = (Done (p, indexer_clear), s') \<and>
    shards_built (index_file_key (to_string n)) f [1..4] 1 s s'"
    using assms(7-10) by (intro run_index_shards [OF assms(1,6,5)]) auto
  then show ?thesis
    using run_get_epoch_int [OF assms(1-4)] assms(5)
    by (auto simp: do_index_def run_pbind shards_built_def INDEX_POOL_MAX_def ITEMS_POOL_MAX_def INDEX_BULK_MAX_def simp del: upto_rec_numeral)
qed

text \<open>A source that answers \<open>null\<close> for every block.\<close>

definition example_doc :: string where
  "example_doc = json_dump fp_example (string_array [sha256_string crypto_example ''null''])"

definition example_start :: kstore where
  "example_start = [''EPOCH'' \<mapsto> KString (epoch_packet fp_example crypto_example ''1''),
     ''Steemit-Block-ID'' \<mapsto> KString (to_string 0)]"

lemma post_candidates_null: "post_candidates fp (replicate n ''null'') = Inr []"
  by (induction n) (simp_all add: Load_null block_posts_def ArrayRange_def index_key_def SetType_def)

lemma example_batch_ok: "batch_ok fp_example crypto_example (\<lambda>_. [''null'']) b i example_doc"
proof -
  have i: "crawl_items (\<lambda>_. [''null'']) b i = replicate 64 ''null''"
    by (rule replicate_eqI) (auto simp: crawl_items_def get_steemit_item_def ITEMS_BULK_MAX_def)
  have n: "json_dump fp_example Null = ''null''" by (simp add: json_dump_def)
  have "parse_steemit_item fp_example crypto_example (replicate 64 ''null'') = Inr example_doc"
    unfolding parse_steemit_item_def post_candidates_null example_doc_def by (simp add: Load_null n)
  moreover have "NUL \<notin> set (sha256_string crypto_example ''null'')" by (simp add: NUL_notin_sha256)
  then have "length example_doc < OUTPUT_MAX_LENGTH" "NUL \<notin> set example_doc"
    by (simp_all add: example_doc_def string_array_eq json_dump_def crypto_example_ok OUTPUT_MAX_LENGTH_def)
  ultimately show ?thesis
    unfolding batch_ok_def i by (simp add: digests_ok_def TEMP_DIGEST_LEN_def list_all_iff)
qed

lemma epoch_1: "''1'' = to_string 1"
  by code_simp

lemma example_start_ok:
  "epoch_is fp_example crypto_example 1 example_start" "example_start ''Steemit-Block-ID'' = Some (KString (to_string 0))"
  "\<forall>i \<in> {1..16}. example_start (items_key (to_string 1) i) = None" "mailbox_ok (to_string 1) example_start"
  "members_of example_start (witness_set_key (to_string 1)) = {}" "in_int 0" "in_int (0 + 1024)"
  by (simp_all add: epoch_1 epoch_is_def example_start_def mailbox_ok_def is_set_key_def members_of_def witness_set_key_def items_key_def in_int_def)

theorem first_epoch_witness:
  "\<exists>s. run (do_crawl fp_example crypto_example 0 (\<lambda>_. [''null'']) []) example_start = (Done [], s) \<and>
     s (items_key (to_string 1) 16) = Some (KString example_doc) \<and>
     fst (run (increment_epoch id fp_example crypto_example) s) = Hangs"
  using first_epoch [where out = "\<lambda>_. example_doc" and net = "\<lambda>_. [''null'']" and b = 0 and g = 0 and srt = id,
      OF crypto_example_ok example_start_ok(1,2,6,7) _ example_start_ok(3-5)] example_batch_ok
  by (auto simp: image_constant_conv)

text \<open>Epoch 3 with all items of epoch 2 and the first shard.\<close>

definition example_shards :: kstore where
  "example_shards k =
     (if k = ''EPOCH'' then Some (KString (epoch_packet fp_example crypto_example (to_string 3)))
      else if k = index_file_key (to_string 3) 1 then Some (KString [])
      else if k \<in> range (items_key (to_string 2)) then Some (KString ''null'') else None)"

lemma example_shard_ok:
  "shard_ok fp_example (\<lambda>_. []) [CHR 0x02] rev (map (\<lambda>j. c_str ''null'') [4 * m - 3..4 * m]) (file_chars rev [] [])"
proof -
  let ?docs = "map (\<lambda>j. c_str ''null'') [4 * m - 3..4 * m]"
  have d: "set ?docs \<subseteq> {''null''}" by auto
  have "digest_items fp_example (map (\<lambda>j. c_str ''null'') xs) = Inr []" for xs :: "int list"
    by (induction xs) (simp_all add: Load_null ArrayRange_def)
  moreover have "fold (\<lambda>word. tbl_erase (f word)) ws [] = ([] :: index_table)" for f and ws :: "string list"
    by (induction ws) (simp_all add: tbl_erase_def)
  then have "remove_stopwords [CHR 0x02] [] = []" by (simp add: remove_stopwords_def tbl_erase_def)
  ultimately have "build_index fp_example (\<lambda>_. []) [CHR 0x02] (indexer_clear\<lparr>i_inputs := ?docs\<rparr>) = Inr (indexer_clear\<lparr>i_inputs := ?docs\<rparr>)"
    by (simp add: build_index_def indexer_clear_def)
  moreover have "digests_ok ?docs" using d by (auto simp: digests_ok_def TEMP_DIGEST_LEN_def list_all_iff)
  moreover have "Merge2Binary rev [] [] = Inr (file_chars rev [] [])" "length (file_chars rev [] []) = 4"
    using Merge2Binary_fits [of rev "[]" "[]"] length_file_chars [of rev "[]" "[]"]
    by (simp_all add: is_order_def file_bytes_def index_bytes_def)
  ultimately show ?thesis by (simp add: shard_ok_def indexer_clear_def INDEX_OUTPUT_MAX_LENGTH_def)
qed

theorem index_pass_witness:
  "\<exists>s'. run (do_index fp_example crypto_example 0 (\<lambda>_. []) [CHR 0x02] rev (\<lambda>_. True) indexer_clear) example_shards =
      (Done indexer_clear, s') \<and>
    s' (index_file_key (to_string 3) 2) = Some (KString (file_chars rev [] []))"
proof -
  have s: "epoch_is fp_example crypto_example 3 example_shards" "mailbox_ok (to_string 3) example_shards"
    by (auto simp: example_shards_def epoch_is_def mailbox_ok_def is_set_key_def)
  have d: "\<forall>j \<in> {1..16}. example_shards (items_key (to_string (3 - 1)) j) = Some (KString ''null'') \<and> length ''null'' \<le> 2 ^ 31 - 1"
    by (simp add: example_shards_def)
  have k: "example_shards (index_file_key (to_string 3) i) = (if i = 1 then Some (KString []) else None)" for i
    by (auto simp: example_shards_def)
  have f: "filter (\<lambda>i. example_shards (index_file_key (to_string 3) i) = None) [1..4] = [2, 3, 4]"
    unfolding k by code_simp
  have "\<exists>s'. run (do_index fp_example crypto_example 0 (\<lambda>_. []) [CHR 0x02] rev (\<lambda>_. True) indexer_clear) example_shards =
      (Done indexer_clear, s') \<and>
    (let missing = filter (\<lambda>i. example_shards (index_file_key (to_string 3) i) = None) [1..4] in
     \<forall>r < length missing. s' (index_file_key (to_string 3) (missing ! r)) = Some (KString (file_chars rev [] [])))"
    by (rule index_pass [where doc = "\<lambda>_. ''null''" and f = "\<lambda>_. file_chars rev [] []", OF crypto_example_ok s(1) _ _ _ d _ _ s(2)])
      (use example_shard_ok in \<open>simp_all add: in_int_def k\<close>)
  then show ?thesis unfolding f by (auto simp: Let_def)
qed

end
