(* ===== verification/EndToEnd.thy ===== *)
theory EndToEnd
  imports WebClient Passes
begin

text \<open>
  The search as a whole: the web client, the network, the querier process and its enclave.
\<close>

lemma NUL_json_escape: "NUL \<notin> set s \<Longrightarrow> NUL \<notin> set (json_escape s)"
  by (auto simp: json_escape_def json_escape_char_def split: if_splits)

lemma length_json_escape: "length s \<le> length (json_escape s)"
proof (induction s)
  case (Cons c s)
  then show ?case by (simp add: json_escape_def json_escape_char_def)
qed (simp add: json_escape_def)

text \<open>The request to a querier as it arrives.\<close>

definition query_text :: "fp_lib \<Rightarrow> string \<Rightarrow> int \<Rightarrow> string" where
  "query_text fp kw q = json_dump fp (Object [(''keywords'', String kw), (''page'', String (to_string q))]) @ replicate 510 CHR ''x''"

lemma query_text_Load:
  assumes "NUL \<notin> set kw"
  shows "JSON_Load fp (c_str (query_text fp kw q)) = Inr (Object [(''keywords'', String kw), (''page'', String (to_string q))])"
proof -
  have e: "json_escape ''keywords'' = ''keywords''" "json_escape ''page'' = ''page''"
    by (simp_all add: json_escape_def json_escape_char_def)
  have "NUL \<notin> set (query_text fp kw q)"
    using NUL_json_escape [OF assms] NUL_json_escape [of "to_string q"] to_string_chars [of NUL q]
    by (auto simp: query_text_def json_dump_def e)
  then show ?thesis unfolding query_text_def by (simp add: Load_dump_append e)
qed

lemma serve_answer:
  assumes "crypto_sizes L" "sig_correct L" "epoch_is fp L n s" "3 \<le> n" "in_int n"
    and "ecall_querier_setup L st0 file = Inr st"
    and "split_file file = Inr (tbl, map (take DIGEST_MAX_LENGTH) docs)" "index_spec T stx docs tbl" "length docs < 2 ^ 32"
    and "NUL \<notin> set kw" "1 \<le> q" "q \<le> 2 ^ 27" "query_words T (json_dump fp (String kw)) = ws" "ws \<noteq> []"
    and "length (query_text fp kw q) < BUFFER_SIZE"
  defines "d \<equiv> json_dump fp (answer_json fp L file (query_text fp kw q) (query_pad (page_results T stx docs ws q)))"
  assumes "length d < BUFFER_SIZE" "NUL \<notin> set d"
  shows "\<exists>st'. run (querier_serve fp L T st (Some (query_text fp kw q))) s = (Done (d, st'), s)"
    "answer_ok fp d (query_response (query_pad (page_results T stx docs ws q))) [sha256_string L file]"
proof -
  let ?a = "answer_json fp L file (query_text fp kw q) (query_pad (page_results T stx docs ws q))"
  note l = query_text_Load [OF assms(10), of fp q]
  have "BUFFER_SIZE < 2 ^ 64" by (simp add: BUFFER_SIZE_def)
  from exposed_text [OF assms(17) this assms(18)] obtain b where
    b: "expose (zeros BUFFER_SIZE) (size_t_of (int BUFFER_SIZE) > length d) d = Inr b" "buf_c_str b = Inr d" by blast
  have "ecall_do_query fp L T st (query_text fp kw q) (zeros BUFFER_SIZE) (int BUFFER_SIZE) =
      Inr (b, st\<lparr>q_index_tbl := fold tbl_touch ws tbl\<rparr>)"
    using do_query_eq [OF assms(6-9) l _ _ assms(11-14), of "zeros BUFFER_SIZE" "int BUFFER_SIZE"] b(1) by (simp add: d_def)
  then show "\<exists>st'. run (querier_serve fp L T st (Some (query_text fp kw q))) s = (Done (d, st'), s)"
    using assms(4,15) b(2) run_get_epoch_int [OF assms(1-3,5)]
    by (simp add: querier_serve_def do_query_def run_pbind)
  have "JSON_Load fp (c_str d) = Inr ?a"
    using assms(18) Load_dump [OF json_ok_answer] by (simp add: d_def answer_json_def)
  moreover have "index_key ''response'' ?a = query_response (query_pad (page_results T stx docs ws q))"
    by (simp add: answer_json_def)
  moreover have "json_ins fp (json_dump fp (index_key ''witness'' ?a)) =
      Inr ([sha256_string L file] @ [sha256_string L (query_text fp kw q)])"
    using json_ins_signed [of "witness_of L ''STEEMIT QUERIER'' [file, query_text fp kw q]
      (json_dump fp (query_response (query_pad (page_results T stx docs ws q)))) QUERIER_TAG" fp L]
    by (simp add: answer_json_def witness_of_def)
  ultimately show "answer_ok fp d (query_response (query_pad (page_results T stx docs ws q))) [sha256_string L file]"
    using assms(17) by (auto simp: answer_ok_def)
qed

text \<open>A querier that has been set up with a file whose table is the exact index of \<open>docs\<close>.\<close>

definition serves_index :: "crypto_lib \<Rightarrow> (string \<Rightarrow> string list) \<Rightarrow> string \<Rightarrow> string list \<Rightarrow> string \<Rightarrow> querier_state \<Rightarrow> bool" where
  "serves_index L T stx docs file st \<longleftrightarrow> length docs < 2 ^ 32 \<and>
     (\<exists>st0 tbl. ecall_querier_setup L st0 file = Inr st \<and>
        split_file file = Inr (tbl, map (take DIGEST_MAX_LENGTH) docs) \<and> index_spec T stx docs tbl)"

text \<open>The text of its answer.\<close>

definition shard_answer ::
  "fp_lib \<Rightarrow> crypto_lib \<Rightarrow> (string \<Rightarrow> string list) \<Rightarrow> string \<Rightarrow> string list \<Rightarrow> string \<Rightarrow> string \<Rightarrow> int \<Rightarrow> string" where
  "shard_answer fp L T stx docs file kw q = json_dump fp (answer_json fp L file (query_text fp kw q)
     (query_pad (page_results T stx docs (query_words T (json_dump fp (String kw))) q)))"

subsection \<open>Property\<close>

text \<open>
  C3.  A search from the browser to the enclaves and back.  Four queriers serve the four shards, each set up
  with the exact index of its documents, and the network carries requests to them and answers back.  Then page
  \<open>4 (q - 1) + k\<close> of a search shows page \<open>q\<close> of the documents of shard \<open>k\<close> that contain the last two words of the request, ten
  entries filled up with dummies, and the client keeps for the audit exactly the hashes of the four index files.
\<close>

theorem search_end_to_end:
  assumes "crypto_sizes L" "sig_correct L" "epoch_is fp L n s" "3 \<le> n" "in_int n" "1 \<le> q" "q \<le> 2 ^ 27" "1 \<le> k" "k \<le> 4"
    and "CHR ''%'' \<notin> set kw" "CHR ''+'' \<notin> set kw" "CHR ''/'' \<notin> set kw" "NUL \<notin> set kw" "kw \<noteq> ''page''"
    and "query_words T (json_dump fp (String kw)) \<noteq> []" "length (query_text fp kw q) < BUFFER_SIZE"
    and "\<forall>i \<in> {1..4}. s (node_key (to_string n) (to_string i)) = Some (KList (ns i)) \<and> shf i (ns i) \<noteq> [] \<and>
      hd (shf i (ns i)) = node_text fp (a i) (port i) \<and> json_escape (a i) = a i \<and> NUL \<notin> set (a i) \<and> in_int (port i)"
    and "\<forall>i \<in> {1..4}. serves_index L T stx (docs i) (fl i) (st i) \<and>
      length (shard_answer fp L T stx (docs i) (fl i) kw q) < BUFFER_SIZE \<and> NUL \<notin> set (shard_answer fp L T stx (docs i) (fl i) kw q)"
    and "\<forall>i \<in> {1..4}. \<forall>d st' s'. run (querier_serve fp L T (st i) (Some (query_text fp kw q))) s = (Done (d, st'), s') \<longrightarrow>
      recv (a i) (port i) (query_text fp kw q) = Data d"
    and "v_response c = []"
  shows "run (go_search fp L shf recv c (search_path kw (4 * (q - 1) + k))) s =
    (Done (c\<lparr>witness_in_list := map (\<lambda>i. sha256_string L (fl i)) [1..4]\<rparr>, json_dump fp (query_response (query_pad
      (page_results T stx (docs k) (query_words T (json_dump fp (String kw))) q)))), s)"
proof -
  let ?ws = "query_words T (json_dump fp (String kw))"
  let ?R = "\<lambda>i. query_response (query_pad (page_results T stx (docs i) ?ws q))"
  have len: "length kw < 2 ^ 30" "4 * q \<le> 2 ^ 31 - 1"
    using assms(7,16) length_json_escape [of kw] by (auto simp: query_text_def json_dump_def BUFFER_SIZE_def)
  have "\<exists>d. answer_ok fp d (?R i) [sha256_string L (fl i)] \<and> recv (a i) (port i) (query_text fp kw q) = Data d"
    if i: "i \<in> {1..4}" for i
  proof -
    from assms(18) i have "serves_index L T stx (docs i) (fl i) (st i)" by blast
    then obtain st0 tbl where q: "length (docs i) < 2 ^ 32" "ecall_querier_setup L st0 (fl i) = Inr (st i)"
      "split_file (fl i) = Inr (tbl, map (take DIGEST_MAX_LENGTH) (docs i))" "index_spec T stx (docs i) tbl"
      unfolding serves_index_def by blast
    have b: "length (shard_answer fp L T stx (docs i) (fl i) kw q) < BUFFER_SIZE"
      "NUL \<notin> set (shard_answer fp L T stx (docs i) (fl i) kw q)" using assms(18) i by auto
    note serve = serve_answer [OF assms(1-5) q(2-4,1) assms(13,6,7) refl assms(15,16) b [unfolded shard_answer_def]]
    with assms(19) i show ?thesis by blast
  qed
  then have "\<forall>i \<in> {1..4}. \<exists>d. answer_ok fp d (?R i) [sha256_string L (fl i)] \<and> recv (a i) (port i) (json_dump fp (Object
      [(''keywords'', String kw), (''page'', String (to_string q))]) @ replicate 510 CHR ''x'') = Data d"
    by (simp add: query_text_def)
  from run_go_search [where ns = ns and a = a and port = port and recv = recv and shf = shf and R = ?R and
      ins = "\<lambda>i. [sha256_string L (fl i)]", OF assms(1-3,6,8,9) len(2) assms(10-12) len(1) assms(14,17) this assms(20)]
  show ?thesis by (simp add: concat_map_singleton del: upto_rec_numeral)
qed

lemma NUL_to_string [simp]: "NUL \<notin> set (to_string i)"
  using to_string_chars [of NUL i] by auto

lemma dummy_elements:
  assumes "json_escape X = X" "NUL \<notin> set X" "\<forall>i \<in> set is. i < 10"
  defines "js \<equiv> map (\<lambda>i. Object [(''answer'', String X), (''number'', String (to_string (int i + 1)))]) is"
  shows "length (dump_elements fp (Suc (Suc (Suc 0))) skip js) \<le> (length X + 200) * length is" "NUL \<notin> set (dump_elements fp (Suc (Suc (Suc 0))) skip js)"
  unfolding js_def using assms(3)
proof (induction "is" arbitrary: skip)
  case (Cons i "is")
  { case 1
    have "in_long (int i + 1)" using 1 by (simp add: in_long_def LONG_MIN_def LONG_MAX_def)
    with Cons(1) [of False] 1 to_string_short [of "int i + 1"] assms(1) show ?case by simp
  next
    case 2
    with Cons(2) [of False] assms(1,2) show ?case by simp
  }
qed simp_all

definition example_dummy :: string where
  "example_dummy = replicate DIGEST_MAX_LENGTH CHR ''X''"

lemma example_dummy_ok: "json_escape example_dummy = example_dummy" "NUL \<notin> set example_dummy" "length example_dummy = 256"
  by (auto simp: example_dummy_def DIGEST_MAX_LENGTH_def json_escape_char_def intro: json_escape_plain)

lemma example_response:
  "query_response (query_pad []) = Object [(''results'', Array (map (\<lambda>i.
     Object [(''answer'', String example_dummy), (''number'', String (to_string (int i + 1)))]) [0..<10]))]"
  unfolding query_response_eq by (rule arg_cong [where f = "\<lambda>x. Object [(_, Array x)]"], rule map_cong)
    (simp_all add: query_pad_def example_dummy_def)

abbreviation example_words :: "string \<Rightarrow> string list" where
  "example_words s \<equiv> if s = ''d'' then [] else [s]"

lemma example_query:
  "query_words example_words (json_dump fp_example (String ''cat'')) = [word_id (json_dump fp_example (String ''cat''))]"
  "page_results example_words [CHR 0x02] [''d''] [w] q = []"
  by (simp_all add: query_words_def json_dump_def page_results_def matching_def has_word_def)

lemma example_shard_answer:
  "length (shard_answer fp_example crypto_example example_words [CHR 0x02] [''d''] example_file ''cat'' q) < BUFFER_SIZE"
  "NUL \<notin> set (shard_answer fp_example crypto_example example_words [CHR 0x02] [''d''] example_file ''cat'' q)"
proof -
  note d = dummy_elements [OF example_dummy_ok(1,2), of "[0..<10]" fp_example True]
  have t: "json_escape ''STEEMIT QUERIER'' = ''STEEMIT QUERIER''" by (simp add: json_escape_def json_escape_char_def)
  show "length (shard_answer fp_example crypto_example example_words [CHR 0x02] [''d''] example_file ''cat'' q) < BUFFER_SIZE"
    unfolding shard_answer_def example_query answer_json_def example_response
    using d(1) crypto_example_ok(1)
    by (simp add: t json_dump_def signed_witness_def witness_of_def example_dummy_ok BUFFER_SIZE_def
        ed25519_sig_to_string_def crypto_sizes_def)
  show "NUL \<notin> set (shard_answer fp_example crypto_example example_words [CHR 0x02] [''d''] example_file ''cat'' q)"
    unfolding shard_answer_def example_query answer_json_def example_response
    using d(2) by (simp add: t json_dump_def signed_witness_def witness_of_def)
qed

definition example_querier :: querier_state where
  "example_querier = projr (ecall_querier_setup crypto_example
     \<lparr>q_digest_tbl = [], q_index_tbl = [], querier_context_template = witness_fresh 0\<rparr> example_file)"

lemma example_serves: "serves_index crypto_example example_words [CHR 0x02] [''d''] example_file example_querier"
proof -
  have "index_spec example_words [CHR 0x02] [''d''] []" by (simp add: index_spec_def tbl_get_def has_word_def)
  then show ?thesis
    unfolding serves_index_def example_querier_def
    by (intro conjI exI [of _ "\<lparr>q_digest_tbl = [], q_index_tbl = [], querier_context_template = witness_fresh 0\<rparr>"] exI [of _ "[]"])
      (simp_all add: ecall_querier_setup_def example_file_split Let_def DIGEST_MAX_LENGTH_def)
qed

text \<open>A network that hands every request to the querier.\<close>

definition example_network :: "string \<Rightarrow> int \<Rightarrow> string \<Rightarrow> peer" where
  "example_network addr port request =
     (case fst (run (querier_serve fp_example crypto_example example_words example_querier (Some request)) example_nodes) of
        Done r \<Rightarrow> Data (fst r) | _ \<Rightarrow> Refused)"

theorem search_end_to_end_witness:
  "run (go_search fp_example crypto_example (\<lambda>_ xs. xs) example_network
      \<lparr>witness_in_list = [], v_response = []\<rparr> (search_path ''cat'' (4 * (2 - 1) + 3))) example_nodes =
    (Done (\<lparr>witness_in_list = [], v_response = []\<rparr>\<lparr>witness_in_list := map (\<lambda>_. sha256_string crypto_example example_file) [1..4]\<rparr>,
      json_dump fp_example (query_response (query_pad (page_results example_words [CHR 0x02] [''d'']
        (query_words example_words (json_dump fp_example (String ''cat''))) 2)))), example_nodes)"
proof (rule search_end_to_end [where ns = "\<lambda>i. [node_text fp_example ''h'' i]" and a = "\<lambda>_. ''h''" and port = "\<lambda>i. i" and
      docs = "\<lambda>_. [''d'']" and fl = "\<lambda>_. example_file" and st = "\<lambda>_. example_querier", OF crypto_example_ok example_nodes_ok(1)])
  show "query_words example_words (json_dump fp_example (String ''cat'')) \<noteq> []" by (simp add: example_query)
  have "json_escape ''cat'' = ''cat''" "in_long 2"
    by (simp_all add: json_escape_def json_escape_char_def in_long_def LONG_MIN_def LONG_MAX_def)
  then show "length (query_text fp_example ''cat'' 2) < BUFFER_SIZE"
    using to_string_short [of 2] by (simp add: query_text_def json_dump_def BUFFER_SIZE_def)
  show "\<forall>i \<in> {1..4}. example_nodes (node_key (to_string 3) (to_string i)) = Some (KList [node_text fp_example ''h'' i]) \<and>
      [node_text fp_example ''h'' i] \<noteq> [] \<and> hd [node_text fp_example ''h'' i] = node_text fp_example ''h'' i \<and>
      json_escape ''h'' = ''h'' \<and> NUL \<notin> set ''h'' \<and> in_int i"
    using example_nodes_ok(2) by (auto simp: json_escape_def json_escape_char_def in_int_def)
qed (use example_serves example_shard_answer in \<open>auto simp: in_int_def example_network_def\<close>)

end
