(* ===== verification/Pipeline.thy ===== *)
theory Pipeline
  imports Passes
begin

text \<open>
  The daemons together: crawlers, indexers, reducers and the manager work on one Kanban at the same time, each
  command an atomic step.  The invariant says that every key has the type its name announces, that every
  entry of the witness hash is an authentic witness stored under its own output, that every key listed for an
  epoch has its witness, and that the epoch packet, once there, is validly signed.
\<close>

subsection \<open>The daemons\<close>

text \<open>The passes of the endless loops; a pass starts with the enclave state that the last one left, the cleared one.\<close>

definition crawler_loop :: "fp_lib \<Rightarrow> crypto_lib \<Rightarrow> unit prog set" where
  "crawler_loop fp L = {pbind (do_crawl fp L g net []) (\<lambda>_. Return ()) | g net. True}"

definition indexer_loop :: "fp_lib \<Rightarrow> crypto_lib \<Rightarrow> unit prog set" where
  "indexer_loop fp L = {pbind (do_index fp L g T stx ord room indexer_clear) (\<lambda>_. Return ()) | g T stx ord room. True}"

definition reducer_loop :: "fp_lib \<Rightarrow> crypto_lib \<Rightarrow> unit prog set" where
  "reducer_loop fp L = {do_reduce fp L g ord | g ord. True}"

definition manager_loop :: "fp_lib \<Rightarrow> crypto_lib \<Rightarrow> unit prog set" where
  "manager_loop fp L = insert manager_start {pbind (manager_round srt fp L n) (\<lambda>_. Return ()) | srt n. True}"

definition daemons :: "fp_lib \<Rightarrow> crypto_lib \<Rightarrow> unit prog set" where
  "daemons fp L = crawler_loop fp L \<union> indexer_loop fp L \<union> reducer_loop fp L \<union> manager_loop fp L"

subsection \<open>The invariant\<close>

datatype kind = StringKind | HashKind | SetKind | ListKind

fun val_kind :: "kval \<Rightarrow> kind" where
  "val_kind (KString _) = StringKind"
| "val_kind (KHash _) = HashKind"
| "val_kind (KSet _) = SetKind"
| "val_kind (KList _) = ListKind"

definition key_kind :: "string \<Rightarrow> kind" where
  "key_kind k =
     (if k = ''witness'' then HashKind
      else if prefix ''WITNESS-#EPOCH'' k then SetKind
      else if prefix ''NODE-#EPOCH'' k then ListKind
      else StringKind)"

definition well_typed :: "kstore \<Rightarrow> bool" where
  "well_typed s \<longleftrightarrow> (\<forall>k v. s k = Some v \<longrightarrow> val_kind v = key_kind k)"

definition pipeline_inv :: "fp_lib \<Rightarrow> crypto_lib \<Rightarrow> string set \<Rightarrow> kstore \<Rightarrow> bool" where
  "pipeline_inv fp L K s \<longleftrightarrow> well_typed s \<and>
     distinct (map fst (witness_hash s)) \<and> (\<forall>(k, w) \<in> set (witness_hash s). honest_text fp L k w) \<and>
     (\<forall>e S. s (witness_set_key e) = Some (KSet S) \<longrightarrow> S \<subseteq> fst ` set (witness_hash s)) \<and>
     (\<forall>v. s ''EPOCH'' = Some v \<longrightarrow> (\<exists>e. v = KString (epoch_packet fp L (to_string e)))) \<and>
     K \<subseteq> fst ` set (witness_hash s)"

abbreviation no_reply_error :: "fault \<Rightarrow> bool" where
  "no_reply_error e \<equiv> e \<noteq> FReply"

interpretation pipeline: shared_store "pipeline_inv fp L" no_reply_error "{}" for fp L
  by unfold_locales (auto simp: pipeline_inv_def)

lemma key_kinds [simp]:
  "key_kind ''witness'' = HashKind" "key_kind (witness_set_key e) = SetKind" "key_kind (root_hash_key e) = StringKind"
  "key_kind ''EPOCH'' = StringKind" "key_kind ''SHARDING-MAX'' = StringKind" "key_kind ''Steemit-Block-ID'' = StringKind"
  "key_kind (items_key e i) = StringKind" "key_kind (index_file_key e i) = StringKind"
  "key_kind (global_index_key e i) = StringKind" "key_kind (node_key e q) = ListKind"
  by (simp_all add: key_kind_def witness_set_key_def root_hash_key_def items_key_def index_file_key_def
      global_index_key_def node_key_def prefix_def)

lemma string_key_neq:
  "key_kind k = StringKind \<Longrightarrow> k \<noteq> ''witness'' \<and> k \<noteq> witness_set_key e"
  by auto

lemma val_kind_iff:
  "val_kind v = StringKind \<longleftrightarrow> (\<exists>x. v = KString x)" "val_kind v = HashKind \<longleftrightarrow> (\<exists>x. v = KHash x)"
  "val_kind v = SetKind \<longleftrightarrow> (\<exists>x. v = KSet x)" "val_kind v = ListKind \<longleftrightarrow> (\<exists>x. v = KList x)"
  by (cases v; simp)+

lemma inv_typed: "pipeline_inv fp L K s \<Longrightarrow> s k = Some v \<Longrightarrow> val_kind v = key_kind k"
  by (simp add: pipeline_inv_def well_typed_def)

subsection \<open>Commands keep the invariant\<close>

lemma inv_set:
  assumes "pipeline_inv fp L K s" "key_kind k = StringKind"
    and "k = ''EPOCH'' \<Longrightarrow> \<exists>e. v = epoch_packet fp L (to_string e)"
  shows "pipeline_inv fp L K (s(k \<mapsto> KString v))"
proof -
  from string_key_neq [OF assms(2)] have n: "k \<noteq> ''witness''" "\<And>e. k \<noteq> witness_set_key e" by auto
  then have h: "witness_hash (s(k \<mapsto> KString v)) = witness_hash s" by (simp add: witness_hash_def)
  have "well_typed (s(k \<mapsto> KString v))" using assms(1,2) by (auto simp: pipeline_inv_def well_typed_def)
  then show ?thesis using assms(1,3) n unfolding pipeline_inv_def h by auto
qed

lemma inv_hset:
  assumes "pipeline_inv fp L K s" "honest_text fp L k w"
  shows "pipeline_inv fp L (insert k K) (s(''witness'' \<mapsto> KHash (hashTypeSet k w (witness_hash s))))"
proof -
  let ?s = "s(''witness'' \<mapsto> KHash (hashTypeSet k w (witness_hash s)))"
  have h: "witness_hash ?s = hashTypeSet k w (witness_hash s)" by (simp add: witness_hash_def)
  have "well_typed ?s" using assms(1) by (auto simp: pipeline_inv_def well_typed_def)
  moreover have "?s (witness_set_key e) = s (witness_set_key e)" "?s ''EPOCH'' = s ''EPOCH''" for e by simp_all
  ultimately show ?thesis
    using assms distinct_hashTypeSet [of "witness_hash s" k w] keys_hashTypeSet [of k w "witness_hash s"]
      set_hashTypeSet [of k w "witness_hash s"]
    unfolding pipeline_inv_def h by (intro conjI) (auto 4 3)
qed

lemma inv_sadd:
  assumes "pipeline_inv fp L K s" "k \<in> fst ` set (witness_hash s)" "S = {} \<or> s (witness_set_key e) = Some (KSet S)"
  shows "pipeline_inv fp L K (s(witness_set_key e \<mapsto> KSet (insert k S)))"
proof -
  let ?s = "s(witness_set_key e \<mapsto> KSet (insert k S))"
  have h: "witness_hash ?s = witness_hash s" "?s ''EPOCH'' = s ''EPOCH''" by (simp_all add: witness_hash_def)
  have "well_typed ?s" using assms(1) by (auto simp: pipeline_inv_def well_typed_def)
  moreover have "insert k S \<subseteq> fst ` set (witness_hash s)" using assms unfolding pipeline_inv_def by blast
  ultimately show ?thesis using assms(1) unfolding pipeline_inv_def h by simp
qed

text \<open>A command that changes nothing.\<close>

lemma holds_read:
  assumes "\<And>s. snd (kexec c s) = s"
    and "\<And>s. I K s \<Longrightarrow> t (fst (kexec c s)) \<Longrightarrow> holds I E (k (fst (kexec c s))) K Q"
  shows "holds I E (Call c t k) K Q"
  using assms by auto

text \<open>A command whose reply ends the program.\<close>

lemma holds_cmd:
  assumes "\<And>s. I K s \<Longrightarrow> (\<forall>K0. I K0 s \<longrightarrow> I K0 (snd (kexec c s))) \<and> I K' (snd (kexec c s)) \<and>
      k (fst (kexec c s)) = Return x"
    and "Q x K'"
  shows "holds I E (Call c t k) K Q"
  unfolding holds.simps
proof (intro allI impI conjI)
  fix s assume s: "I K s"
  show "I K0 (snd (kexec c s))" if "I K0 s" for K0 using assms(1) [OF s] that by blast
  have "holds I E (k (fst (kexec c s))) K' Q" using assms(1) [OF s] assms(2) by simp
  then show "\<exists>K'. I K' (snd (kexec c s)) \<and> holds I E (k (fst (kexec c s))) K' Q" using assms(1) [OF s] by blast
qed

lemma read_only [simp]:
  "snd (getCommand k s) = s" "snd (kb_smembersCommand k s) = s"
  by (simp_all add: getCommand_def kb_smembersCommand_def split: option.splits kval.splits)

lemma typed_get:
  assumes "pipeline_inv fp L K s" "key_kind k = StringKind"
  shows "fst (getCommand k s) = RNil \<and> s k = None \<or> (\<exists>v. fst (getCommand k s) = RStr v \<and> s k = Some (KString v))"
  using inv_typed [OF assms(1), of k] assms(2) by (cases "s k") (auto simp: getCommand_def val_kind_iff)

lemma holds_kb_get:
  assumes "key_kind k = StringKind"
  shows "holds (pipeline_inv fp L) no_reply_error (kb_get k) K
    (\<lambda>v K'. K' = K \<and> (\<forall>x. k = ''EPOCH'' \<and> v = Some x \<longrightarrow> (\<exists>e. x = epoch_packet fp L (to_string e))))"
  unfolding kb_get_def
proof (rule holds_read, goal_cases)
  case (2 s)
  then show ?case using typed_get [OF 2(1) assms] by (auto simp: pipeline_inv_def)
qed simp

lemma holds_o_get_key:
  assumes "key_kind k = StringKind"
  shows "holds (pipeline_inv fp L) no_reply_error (o_get_key k) K (\<lambda>_ K'. K' = K)"
  unfolding o_get_key_def
proof (rule holds_read, goal_cases)
  case (2 s)
  then show ?case using typed_get [OF 2(1) assms] by auto
qed simp

lemma holds_wait:
  "holds (pipeline_inv fp L) no_reply_error (wait_witness_keys (witness_set_key e) n) K (\<lambda>_ K'. K' = K)"
  unfolding wait_witness_keys_def
proof (rule holds_read, goal_cases)
  case (2 s)
  then show ?case using inv_typed [OF 2(1), of "witness_set_key e"]
    by (cases "s (witness_set_key e)") (auto simp: kb_smembersCommand_def val_kind_iff)
qed simp

lemma holds_kb_set:
  assumes "key_kind k = StringKind" "k = ''EPOCH'' \<Longrightarrow> \<exists>e. v = epoch_packet fp L (to_string e)"
  shows "holds (pipeline_inv fp L) no_reply_error (kb_set k v) K (\<lambda>_ K'. K' = K)"
  using inv_set [OF _ assms] by (auto simp: kb_set_def setCommand_def)

lemma typed_hset:
  assumes "pipeline_inv fp L K s"
  shows "hsetCommand ''witness'' k w s = (RInt (if map_of (witness_hash s) k = None then 1 else 0),
      s(''witness'' \<mapsto> KHash (hashTypeSet k w (witness_hash s))))"
  using inv_typed [OF assms, of "''witness''"]
  by (cases "s ''witness''") (auto simp: hsetCommand_def witness_hash_def val_kind_iff)

lemma holds_hset:
  assumes "honest_text fp L k w"
  shows "holds (pipeline_inv fp L) no_reply_error (kb_hset ''witness'' k w) K (\<lambda>_ K'. K' = insert k K)"
  unfolding kb_hset_def
proof (rule holds_cmd [where K' = "insert k K" and x = "()"])
  fix s assume s: "pipeline_inv fp L K s"
  have "pipeline_inv fp L K0 s'" if "pipeline_inv fp L (insert k K0) s'" for K0 s'
    using that by (simp add: pipeline_inv_def)
  then show "(\<forall>K0. pipeline_inv fp L K0 s \<longrightarrow> pipeline_inv fp L K0 (snd (kexec (CHset ''witness'' k w) s))) \<and>
      pipeline_inv fp L (insert k K) (snd (kexec (CHset ''witness'' k w) s)) \<and>
      (case fst (kexec (CHset ''witness'' k w) s) of RInt i \<Rightarrow> Return () | _ \<Rightarrow> Raise FReply) = Return ()"
    using inv_hset [OF _ assms] s by (simp add: typed_hset [OF s])
qed simp

lemma typed_sadd:
  assumes "pipeline_inv fp L K s"
  shows "\<exists>S. (S = {} \<or> s (witness_set_key e) = Some (KSet S)) \<and>
    kb_saddCommand (witness_set_key e) k s = (RInt (if k \<in> S then 0 else 1), s(witness_set_key e \<mapsto> KSet (insert k S)))"
proof (cases "s (witness_set_key e)")
  case None
  then show ?thesis by (intro exI [of _ "{}"]) (simp add: kb_saddCommand_def)
next
  case (Some v)
  with inv_typed [OF assms, of "witness_set_key e"] obtain S where "v = KSet S" by (auto simp: val_kind_iff)
  with Some show ?thesis by (intro exI [of _ S]) (simp add: kb_saddCommand_def)
qed

lemma holds_sadd:
  assumes "k \<in> K"
  shows "holds (pipeline_inv fp L) no_reply_error (kb_sadd (witness_set_key e) k) K (\<lambda>_ K'. K' = K)"
  unfolding kb_sadd_def
proof (rule holds_cmd [where K' = K and x = "()"])
  fix s assume s: "pipeline_inv fp L K s"
  then have k: "k \<in> fst ` set (witness_hash s)" using assms by (auto simp: pipeline_inv_def)
  from typed_sadd [OF s, of e k] obtain S where S: "S = {} \<or> s (witness_set_key e) = Some (KSet S)"
    "kb_saddCommand (witness_set_key e) k s = (RInt (if k \<in> S then 0 else 1), s(witness_set_key e \<mapsto> KSet (insert k S)))"
    by blast
  show "(\<forall>K0. pipeline_inv fp L K0 s \<longrightarrow> pipeline_inv fp L K0 (snd (kexec (CSadd (witness_set_key e) k) s))) \<and>
      pipeline_inv fp L K (snd (kexec (CSadd (witness_set_key e) k) s)) \<and>
      (case fst (kexec (CSadd (witness_set_key e) k) s) of RInt i \<Rightarrow> Return () | _ \<Rightarrow> Raise FReply) = Return ()"
    using inv_sadd [OF _ k S(1)] s by (simp add: S(2))
qed simp

subsection \<open>Faults of the enclaves\<close>

text \<open>No computation of an enclave, and no parser, reports an error reply.\<close>

named_theorems no_reply \<open>computations that do not fail with an error reply\<close>

lemma lift_json_no_reply [no_reply]: "lift_json r \<noteq> Inl FReply"
  by (simp add: lift_json_def split: sum.splits)

lemma emap_no_reply [no_reply]: "(\<And>x. x \<in> set xs \<Longrightarrow> f x \<noteq> Inl FReply) \<Longrightarrow> emap f xs \<noteq> Inl FReply"
proof (induction xs)
  case (Cons x xs)
  then show ?case unfolding emap.simps by (intro neq_intros) simp_all
qed simp

lemma trim_string_no_reply [no_reply]: "trim_string s \<noteq> Inl FReply"
  by (simp add: trim_string_def)

lemma expose_no_reply [no_reply]: "expose buf b data \<noteq> Inl FReply"
  by (simp add: expose_def)

lemma buf_c_str_no_reply [no_reply]: "buf_c_str buf \<noteq> Inl FReply"
  by (simp add: buf_c_str_def)

lemma string_to_sig_no_reply [no_reply]: "ed25519_string_to_sig s \<noteq> Inl FReply"
  unfolding ed25519_string_to_sig_def hex_byte_def buf_at_def by (intro no_reply neq_intros) simp_all

lemma Binary2Digest_no_reply [no_reply]: "Binary2Digest b n tbl \<noteq> Inl FReply"
proof -
  have "Binary2Digest_loop acc tbl b \<noteq> Inl FReply" for acc b
    by (induction acc tbl b rule: Binary2Digest_loop.induct) auto
  then show ?thesis unfolding Binary2Digest_def by (intro neq_intros) simp_all
qed

lemma Digest2Binary_no_reply [no_reply]: "Digest2Binary ds \<noteq> Inl FReply"
proof -
  have "Digest2Binary_copy ret bin ds \<noteq> Inl FReply" for ret bin
    by (induction ret bin ds rule: Digest2Binary_copy.induct) auto
  then show ?thesis by (simp add: Digest2Binary_def Let_def)
qed

lemma Merge2Binary_no_reply [no_reply]: "Merge2Binary ord ds t \<noteq> Inl FReply"
  unfolding Merge2Binary_def Index2Binary_def Let_def by (intro neq_intros no_reply) simp_all

lemma Binary2Index_no_reply [no_reply]: "Binary2Index b n tbl \<noteq> Inl FReply"
  by (simp add: Binary2Index_def)

lemma root_hash_no_reply [no_reply]: "root_hash srt L K \<noteq> Inl FReply"
  by (simp add: root_hash_def)

lemma post_candidates_no_reply [no_reply]: "post_candidates fp items \<noteq> Inl FReply"
proof (induction items)
  case (Cons item items)
  then show ?case unfolding post_candidates.simps by (intro neq_intros no_reply) simp_all
qed simp

lemma crawler_no_reply [no_reply]: "ecall_parse_items fp L g b st i o' osz w wsz \<noteq> Inl FReply"
  unfolding ecall_parse_items_def parse_steemit_item_def Let_def by (intro neq_intros no_reply) simp_all

lemma digest_items_no_reply [no_reply]: "digest_items fp inputs \<noteq> Inl FReply"
proof (induction inputs)
  case (Cons i inputs)
  then show ?case unfolding digest_items.simps by (intro neq_intros no_reply) simp_all
qed simp

lemma indexer_no_reply [no_reply]: "ecall_build_index fp L g T stx ord st i o' osz w wsz \<noteq> Inl FReply"
  unfolding ecall_build_index_def build_index_def Let_def by (intro neq_intros no_reply) simp_all

lemma crawler_input_no_reply:
  "ebind (Digest2Binary ds) (\<lambda>b. ecall_parse_items fp L g c st b o' osz w wsz) \<noteq> Inl FReply"
  by (intro neq_intros no_reply)

lemma indexer_input_no_reply:
  "ebind (Digest2Binary ds) (\<lambda>b. ecall_build_index fp L g T stx ord st b o' osz w wsz) \<noteq> Inl FReply"
  by (intro neq_intros no_reply)

lemma reducer_no_reply [no_reply]: "ecall_do_merge fp L g ord f1 f2 o' osz w wsz \<noteq> Inl FReply"
  unfolding ecall_do_merge_def Let_def by (intro neq_intros no_reply) simp_all

subsection \<open>Programs keep the invariant\<close>

text \<open>The judgement for a program whose result does not matter.\<close>

abbreviation keeps :: "fp_lib \<Rightarrow> crypto_lib \<Rightarrow> string set \<Rightarrow> 'a prog \<Rightarrow> bool" where
  "keeps fp L K p \<equiv> holds (pipeline_inv fp L) no_reply_error p K (\<lambda>_ _. True)"

lemma bind_lift:
  "x \<noteq> Inl FReply \<Longrightarrow> (\<And>v. x = Inr v \<Longrightarrow> holds I no_reply_error (f v) K Q) \<Longrightarrow>
   holds I no_reply_error (pbind (lift x) f) K Q"
  by (cases x) auto

text \<open>After a program that learns nothing.\<close>

lemma bind_same:
  "holds I E p K (\<lambda>_ K'. K' = K) \<Longrightarrow> (\<And>x. holds I E (f x) K Q) \<Longrightarrow> holds I E (pbind p f) K Q"
  by (erule holds_pbind) simp

lemma bind_any:
  "holds I E p K (\<lambda>_ _. True) \<Longrightarrow> (\<And>x K. holds I E (f x) K Q) \<Longrightarrow> holds I E (pbind p f) K Q"
  by (erule holds_pbind) simp

lemma holds_lift_stoi: "holds I no_reply_error (lift_stoi x) K (\<lambda>_ K'. K' = K)"
  by (simp add: lift_stoi_def split: sum.splits)

lemma holds_get:
  "key_kind k = StringKind \<Longrightarrow> holds (pipeline_inv fp L) no_reply_error (kb_get k) K (\<lambda>_ K'. K' = K)"
  by (rule holds_mono [OF holds_kb_get]) auto

lemma holds_get_epoch:
  "holds (pipeline_inv fp L) no_reply_error (get_epoch fp L) K (\<lambda>_ K'. K' = K)"
  unfolding get_epoch_def Let_def
  by (rule bind_same [OF holds_get]) (auto split: option.splits intro!: bind_lift no_reply)

lemma holds_get_epoch_int:
  "holds (pipeline_inv fp L) no_reply_error (get_epoch_int fp L) K (\<lambda>_ K'. K' = K)"
  unfolding get_epoch_int_def by (rule bind_same [OF holds_get_epoch holds_lift_stoi])

lemma holds_init_epoch:
  "holds (pipeline_inv fp L) no_reply_error (init_epoch fp L) K (\<lambda>_ K'. K' = K)"
proof -
  have "\<exists>e. epoch_packet fp L ''1'' = epoch_packet fp L (to_string e)" using epoch_1 by metis
  then show ?thesis unfolding init_epoch_def by (intro bind_same [OF holds_get_epoch]) (auto intro!: holds_kb_set)
qed

lemma holds_maybe_init:
  "holds (pipeline_inv fp L) no_reply_error (if b then init_epoch fp L else Return ()) K (\<lambda>_ K'. K' = K)"
  by (cases b) (simp_all add: holds_init_epoch)

lemma keeps_set:
  assumes "key_kind k = StringKind" "k \<noteq> ''EPOCH''"
  shows "holds (pipeline_inv fp L) no_reply_error (kb_set k v) K (\<lambda>_ K'. K' = K)"
  using assms by (intro holds_kb_set) auto

lemma keeps_set_epoch: "keeps fp L K (kb_set ''EPOCH'' (epoch_packet fp L (to_string e)))"
  by (rule holds_mono [OF holds_kb_set]) auto

lemma keeps_increment_epoch: "keeps fp L K (increment_epoch srt fp L)"
  unfolding increment_epoch_def
  by (intro bind_same [OF holds_get_epoch] bind_same [OF holds_maybe_init] bind_same [OF holds_get_epoch_int]
      bind_same [OF holds_wait] bind_lift bind_same [OF keeps_set] root_hash_no_reply)
    (simp_all add: keeps_set_epoch)

lemma keeps_manager_start: "keeps fp L K manager_start"
  unfolding manager_start_def by (rule holds_mono [OF keeps_set]) simp_all

lemma keeps_manager_round: "keeps fp L K (manager_round srt fp L n)"
  unfolding manager_round_def Let_def
  by (rule bind_same [OF keeps_set]) (auto intro: bind_any keeps_increment_epoch)

lemma holds_check_key:
  "key_kind k = StringKind \<Longrightarrow> holds (pipeline_inv fp L) no_reply_error (o_check_key k) K (\<lambda>_ K'. K' = K)"
  unfolding o_check_key_def by (rule bind_same [OF holds_get]) simp_all

lemma holds_put_key:
  assumes "key_kind k = StringKind" "k \<noteq> ''EPOCH''"
  shows "holds (pipeline_inv fp L) no_reply_error (o_put_key k v n) K (\<lambda>_ K'. K' = K)"
  using keeps_set [OF assms] by (simp add: o_put_key_def)

lemma keeps_append_witness:
  assumes "buf_c_str b = Inr w" "honest_text fp L k w"
  shows "keeps fp L K (o_append_witness fp e b)"
proof -
  from assms(2) obtain c where c: "w = json_dump fp (signed_witness L fp c)" "w_out c = k" "json_escape k = k"
    by (auto simp: honest_text_def)
  then have "JSON_Load fp w = Inr (signed_witness L fp c)" by (simp add: Load_dump)
  moreover have "trim_string (json_dump fp (String k)) = Inr k"
    using c(3) trim_string_quotes by (simp add: json_dump_def)
  ultimately have "o_append_witness fp e b = pbind (kb_hset ''witness'' k w) (\<lambda>_. kb_sadd (witness_set_key e) k)"
    using assms(1) c(2) by (simp add: o_append_witness_def)
  then show ?thesis
    by (auto intro!: holds_pbind [OF holds_hset [OF assms(2)]] intro: holds_mono [OF holds_sadd])
qed

lemma keeps_crawl_batch:
  assumes "crypto_sizes L" "st = []"
  shows "holds (pipeline_inv fp L) no_reply_error (crawl_batch fp L g net e b i st) K (\<lambda>st _. st = [])"
  unfolding crawl_batch_def Let_def
proof (rule bind_same [OF holds_check_key], simp, goal_cases)
  case (1 x)
  let ?ids = "map (\<lambda>j. b + (i - 1) * int ITEMS_BULK_MAX + j) [1..int ITEMS_BULK_MAX]"
  have n: "\<forall>d \<in> set (map (get_steemit_item net) ?ids). NUL \<notin> set d" by (auto simp: get_steemit_item_def)
  have l: "length (map (get_steemit_item net) ?ids) \<le> 1000" by (simp add: ITEMS_BULK_MAX_def)
  have "holds (pipeline_inv fp L) no_reply_error (pbind (lift (ebind (Digest2Binary (map (get_steemit_item net) ?ids)) (\<lambda>input.
      ecall_parse_items fp L g True st input (zeros OUTPUT_MAX_LENGTH) (int OUTPUT_MAX_LENGTH)
      (zeros WITNESS_MAX_LENGTH) (int WITNESS_MAX_LENGTH)))) (\<lambda>(output, crawler_witness, st).
        pbind (lift (buf_c_str output)) (\<lambda>text. pbind (o_put_key (items_key e i) output (length text)) (\<lambda>_.
          pbind (o_append_witness fp e crawler_witness) (\<lambda>_. Return st))))) K (\<lambda>st _. st = [])"
  proof (rule bind_lift [OF crawler_input_no_reply], goal_cases)
    case (1 r)
    obtain o' w' st' where r: "r = (o', w', st')" by (cases r) auto
    from crawler_witness_honest [OF 1 [unfolded assms(2) r] n l assms(1)] obtain k w where
      w: "st' = []" "buf_c_str w' = Inr w" "honest_text fp L k w" by blast
    show ?case unfolding r prod.case
      by (intro bind_lift buf_c_str_no_reply bind_same [OF holds_put_key] bind_any [OF keeps_append_witness [OF w(2,3)]])
        (simp_all add: w(1))
  qed
  with assms(2) show ?case by simp
qed

lemma holds_do_crawl:
  assumes "crypto_sizes L"
  shows "holds (pipeline_inv fp L) no_reply_error (do_crawl fp L g net []) K (\<lambda>st _. st = [])"
  unfolding do_crawl_def
proof (rule bind_same [OF holds_get_epoch_int])
  fix n
  have "holds (pipeline_inv fp L) no_reply_error (pbind (kb_get ''Steemit-Block-ID'') (\<lambda>offset.
      case offset of None \<Rightarrow> Raise FIndet | Some block \<Rightarrow> pbind (lift_stoi block) (\<lambda>block_id.
        pfold (crawl_batch fp L g net (to_string n) block_id) [1..int ITEMS_POOL_MAX] []))) K (\<lambda>st _. st = [])"
    by (rule bind_same [OF holds_get])
      (auto split: option.splits intro!: bind_same [OF holds_lift_stoi] holds_pfold keeps_crawl_batch [OF assms])
  then show "holds (pipeline_inv fp L) no_reply_error (if - 1 = n then Return [] else pbind (kb_get ''Steemit-Block-ID'') (\<lambda>offset.
      case offset of None \<Rightarrow> Raise FIndet | Some block \<Rightarrow> pbind (lift_stoi block) (\<lambda>block_id.
        pfold (crawl_batch fp L g net (to_string n) block_id) [1..int ITEMS_POOL_MAX] []))) K (\<lambda>st _. st = [])"
    by simp
qed

lemma holds_index_inputs:
  "holds (pipeline_inv fp L) no_reply_error (index_inputs room e pos) K
    (\<lambda>ins _. (\<forall>d \<in> set ins. NUL \<notin> set d) \<and> length ins \<le> 4)"
proof -
  have f: "holds (pipeline_inv fp L) no_reply_error (pfold (\<lambda>j inputs.
         pbind (o_get_key (items_key (to_string e) j)) (\<lambda>items_value.
           if \<not> room (length items_value) then Raise FWrite else Return (inputs @ [c_str items_value]))) js ins) K
       (\<lambda>ins' _. (\<forall>d \<in> set ins'. NUL \<notin> set d) \<and> length ins' \<le> length ins + length js)"
    if "\<forall>d \<in> set ins. NUL \<notin> set d" for js ins K
    using that
  proof (induction js arbitrary: ins K)
    case (Cons j js)
    show ?case
      unfolding pfold.simps pbind_assoc
    proof (rule bind_same [OF holds_o_get_key], simp, goal_cases)
      case (1 v)
      then show ?case using Cons.IH [of "ins @ [c_str v]" K] Cons.prems by simp
    qed
  qed simp
  show ?thesis unfolding index_inputs_def
    by (rule holds_mono [OF f]) (simp_all add: INDEX_BULK_MAX_def)
qed

lemma keeps_index_upload:
  assumes "buf_c_str w' = Inr w" "honest_text fp L k w"
  shows "holds (pipeline_inv fp L) no_reply_error (index_upload fp e i pos (o', sz, w', st)) K (\<lambda>pst _. snd pst = st)"
proof -
  have "holds (pipeline_inv fp L) no_reply_error (if 2 = e then o_put_key (global_index_key (to_string e) i) o' n else Return ()) K
      (\<lambda>_ _. True)" for n K
    by (cases "2 = e") (auto intro: holds_mono [OF holds_put_key])
  then show ?thesis
    unfolding index_upload_def prod.case
    by (intro bind_same [OF holds_put_key] bind_any [OF keeps_append_witness [OF assms]] bind_any) simp_all
qed

lemma keeps_index_shard:
  assumes "crypto_sizes L" "snd pst = indexer_clear"
  shows "holds (pipeline_inv fp L) no_reply_error (index_shard fp L g T stx ord room e i pst) K
    (\<lambda>pst _. snd pst = indexer_clear)"
proof -
  obtain pos where pst: "pst = (pos, indexer_clear)" using assms(2) by (cases pst) auto
  have body: "holds (pipeline_inv fp L) no_reply_error (pbind (lift (ebind (Digest2Binary ins) (\<lambda>b.
      ecall_build_index fp L g T stx ord indexer_clear b
      (zeros INDEX_OUTPUT_MAX_LENGTH) (int INDEX_OUTPUT_MAX_LENGTH) (zeros WITNESS_MAX_LENGTH) (int WITNESS_MAX_LENGTH))))
      (index_upload fp e i pos)) K (\<lambda>pst _. snd pst = indexer_clear)"
    if ins: "(\<forall>d \<in> set ins. NUL \<notin> set d) \<and> length ins \<le> 4" for ins K
  proof (rule bind_lift [OF indexer_input_no_reply])
    fix r
    assume r: "ebind (Digest2Binary ins) (\<lambda>b. ecall_build_index fp L g T stx ord indexer_clear b (zeros INDEX_OUTPUT_MAX_LENGTH)
      (int INDEX_OUTPUT_MAX_LENGTH) (zeros WITNESS_MAX_LENGTH) (int WITNESS_MAX_LENGTH)) = Inr r"
    obtain o' sz w' st where r': "r = (o', sz, w', st)" by (cases r) auto
    from indexer_witness_honest [OF r [unfolded r'] _ _ assms(1)] ins obtain k w where
      "st = indexer_clear" "buf_c_str w' = Inr w" "honest_text fp L k w" by auto
    then show "holds (pipeline_inv fp L) no_reply_error (index_upload fp e i pos r) K (\<lambda>pst _. snd pst = indexer_clear)"
      using keeps_index_upload r' by blast
  qed
  show ?thesis
    unfolding index_shard_def pst prod.case
    by (rule bind_same [OF holds_check_key]) (auto intro!: holds_pbind [OF holds_index_inputs] body)
qed

lemma keeps_do_index: "crypto_sizes L \<Longrightarrow> keeps fp L K (do_index fp L g T stx ord room indexer_clear)"
  unfolding do_index_def
  by (rule bind_same [OF holds_get_epoch_int])
    (auto intro!: bind_any holds_mono [OF holds_pfold [where R = "\<lambda>pst _. snd pst = indexer_clear"]] keeps_index_shard)

lemma keeps_reduce_shard:
  assumes "crypto_sizes L"
  shows "keeps fp L K (reduce_shard fp L g ord e i u)"
proof -
  have body: "keeps fp L K (pbind (lift (ecall_do_merge fp L g ord f1 f2
      (zeros REDUCER_OUTPUT_MAX_LENGTH) (int REDUCER_OUTPUT_MAX_LENGTH) (zeros WITNESS_MAX_LENGTH) (int WITNESS_MAX_LENGTH)))
      (\<lambda>(o', sz, w'). pbind (o_put_key (global_index_key (to_string e) i) o' (nat sz)) (\<lambda>_. o_append_witness fp (to_string e) w')))"
    for f1 f2 K
  proof (rule bind_lift [OF reducer_no_reply], clarify)
    fix o' sz w'
    assume "ecall_do_merge fp L g ord f1 f2 (zeros REDUCER_OUTPUT_MAX_LENGTH) (int REDUCER_OUTPUT_MAX_LENGTH)
      (zeros WITNESS_MAX_LENGTH) (int WITNESS_MAX_LENGTH) = Inr (o', sz, w')"
    from reducer_witness_honest [OF this assms] obtain k w where "buf_c_str w' = Inr w" "honest_text fp L k w" by auto
    then show "keeps fp L K (pbind (o_put_key (global_index_key (to_string e) i) o' (nat sz)) (\<lambda>_. o_append_witness fp (to_string e) w'))"
      by (intro bind_same [OF holds_put_key] keeps_append_witness) simp_all
  qed
  show ?thesis
    unfolding reduce_shard_def Let_def
    by (rule bind_same [OF holds_check_key])
      (auto intro!: bind_same [OF holds_o_get_key] body)
qed

lemma keeps_do_reduce: "crypto_sizes L \<Longrightarrow> keeps fp L K (do_reduce fp L g ord)"
  unfolding do_reduce_def
  by (rule bind_same [OF holds_get_epoch_int]) (auto intro!: holds_pfold keeps_reduce_shard)

lemma keeps_daemons: "crypto_sizes L \<Longrightarrow> p \<in> daemons fp L \<Longrightarrow> keeps fp L {} p"
  unfolding daemons_def crawler_loop_def indexer_loop_def reducer_loop_def manager_loop_def
  by (auto intro!: bind_any keeps_do_index keeps_do_reduce keeps_manager_start keeps_manager_round
      intro: holds_mono [OF holds_do_crawl])

lemma inv_empty: "pipeline_inv fp L {} Map.empty"
  by (simp add: pipeline_inv_def well_typed_def witness_hash_def)

lemma daemons_reach:
  assumes "crypto_sizes L" "\<forall>i. B i \<subseteq> daemons fp L" "set ps \<subseteq> daemons fp L"
    and "(sys_step B)\<^sup>*\<^sup>* (Map.empty, ps) (s, ps')"
  shows "pipeline_inv fp L {} s \<and> (\<forall>e. Raise e \<in> set ps' \<longrightarrow> e \<noteq> FReply)"
  using assms(2,3) keeps_daemons [OF assms(1)]
  by (intro pipeline.reachable_ok [OF assms(4) _ inv_empty]) blast+

subsection \<open>Properties\<close>

text \<open>
  C1.  Whatever the order in which the commands of any number of crawlers, indexers, reducers and managers
  reach Kanban, starting from an empty one: every entry of the witness hash passes the check and is stored
  under the output it names, and every key listed for an epoch has its witness in the hash.
\<close>

theorem pipeline_witnesses:
  assumes "crypto_sizes L" "sig_correct L" "\<forall>i. B i \<subseteq> daemons fp L" "set ps \<subseteq> daemons fp L"
    and "(sys_step B)\<^sup>*\<^sup>* (Map.empty, ps) (s, ps')"
  shows "(\<forall>(k, w) \<in> set (witness_hash s). check_witness fp L w = Inr True \<and>
      (\<exists>j. JSON_Load fp w = Inr j \<and> index_key ''OUT'' j = String k)) \<and>
    (\<forall>e S. s (witness_set_key e) = Some (KSet S) \<longrightarrow> S \<subseteq> fst ` set (witness_hash s))"
proof -
  have i: "pipeline_inv fp L {} s" using daemons_reach [OF assms(1,3-5)] by blast
  have "check_witness fp L w = Inr True \<and> (\<exists>j. JSON_Load fp w = Inr j \<and> index_key ''OUT'' j = String k)"
    if "(k, w) \<in> set (witness_hash s)" for k w
    using that i by (intro honest_check [OF assms(1,2)]) (auto simp: pipeline_inv_def)
  then show ?thesis using i by (auto simp: pipeline_inv_def)
qed

text \<open>
  C13.  The keyspace stays typed under the same interleavings: \<open>witness\<close> is a hash, the keys \<open>WITNESS-#EPOCH...\<close> are sets,
  \<open>NODE-#EPOCH...\<close> lists and all others strings, so that no daemon ever stops with an error reply; and the epoch packet,
  once written, carries a valid signature.
\<close>

theorem pipeline_types:
  assumes "crypto_sizes L" "\<forall>i. B i \<subseteq> daemons fp L" "set ps \<subseteq> daemons fp L"
    and "(sys_step B)\<^sup>*\<^sup>* (Map.empty, ps) (s, ps')"
  shows "well_typed s \<and> Raise FReply \<notin> set ps' \<and> (s ''EPOCH'' = None \<or> (\<exists>e. epoch_is fp L e s))"
proof -
  have "pipeline_inv fp L {} s" "Raise FReply \<notin> set ps'" using daemons_reach [OF assms] by blast+
  then show ?thesis by (cases "s ''EPOCH''") (auto simp: pipeline_inv_def epoch_is_def)
qed

text \<open>A run: the manager initialises the epoch and then waits, and a crawler makes a pass.\<close>

definition example_manager :: "unit prog" where
  "example_manager = pbind (manager_round id fp_example crypto_example 0) (\<lambda>_. Return ())"

definition example_crawler :: "unit prog" where
  "example_crawler = pbind (do_crawl fp_example crypto_example 0 (\<lambda>_. [''null'']) []) (\<lambda>_. Return ())"

lemma example_daemons: "set [example_manager, example_crawler] \<subseteq> daemons fp_example crypto_example"
  by (auto simp: daemons_def manager_loop_def crawler_loop_def example_manager_def example_crawler_def)

lemma example_manager_split:
  "\<exists>f. example_manager = pbind (pbind (kb_set ''Steemit-Block-ID'' (to_string 0)) (\<lambda>_.
     pbind (get_epoch fp_example crypto_example) (\<lambda>e.
       if ''-1'' = e then init_epoch fp_example crypto_example else Return ()))) f"
  unfolding example_manager_def manager_round_def increment_epoch_def
  by (simp add: pbind_assoc in_int_def ITEMS_BULK_MAX_def ITEMS_POOL_MAX_def) blast

definition example_end :: kstore where
  "example_end = fold (batch_post fp_example crypto_example (\<lambda>_. [''null'']) (to_string 1) 0 (\<lambda>_. example_doc)) [1..16] example_start"

lemma example_run:
  "\<exists>ps. (sys_step (\<lambda>_. daemons fp_example crypto_example))\<^sup>*\<^sup>* (Map.empty, [example_manager, example_crawler])
     (example_end, ps)"
proof -
  let ?B = "\<lambda>_. daemons fp_example crypto_example"
  let ?P = "pbind (kb_set ''Steemit-Block-ID'' (to_string 0)) (\<lambda>_. pbind (get_epoch fp_example crypto_example) (\<lambda>e.
     if ''-1'' = e then init_epoch fp_example crypto_example else Return ()))"
  obtain f where f: "example_manager = pbind ?P f" using example_manager_split by blast
  have n: "in_int 1" "(1 :: int) \<noteq> - 1" by (simp_all add: in_int_def)
  have "run ?P Map.empty = (Done (), example_start)"
    using run_get_epoch_None [of "[''Steemit-Block-ID'' \<mapsto> KString (to_string 0)]"]
    by (simp add: run_pbind kb_set_def setCommand_def init_epoch_def example_start_def fun_upd_twist)
  from run_steps [OF this, of 0 "[example_manager, example_crawler]" f ?B] f
  have "(sys_step ?B)\<^sup>*\<^sup>* (Map.empty, [example_manager, example_crawler]) (example_start, [f (), example_crawler])" by simp
  moreover have "run (do_crawl fp_example crypto_example 0 (\<lambda>_. [''null'']) []) example_start = (Done [], example_end)"
    using run_do_crawl [where out = "\<lambda>_. example_doc" and net = "\<lambda>_. [''null'']" and b = 0,
        OF crypto_example_ok example_start_ok(1) n example_start_ok(2,6,7) _ example_start_ok(3,4)] example_batch_ok by (simp add: example_end_def)
  from run_steps [OF this, of 1 "[f (), example_crawler]" "\<lambda>_. Return ()" ?B]
  have "(sys_step ?B)\<^sup>*\<^sup>* (example_start, [f (), example_crawler]) (example_end, [f (), Return ()])" by (simp add: example_crawler_def)
  ultimately show ?thesis by (meson rtranclp_trans)
qed

theorem pipeline_witnesses_witness:
  "\<exists>s ps k w. (sys_step (\<lambda>_. daemons fp_example crypto_example))\<^sup>*\<^sup>* (Map.empty, [example_manager, example_crawler]) (s, ps) \<and>
     map_of (witness_hash s) k = Some w \<and> check_witness fp_example crypto_example w = Inr True"
proof -
  let ?k = "sha256_string crypto_example example_doc"
  obtain ps where r: "(sys_step (\<lambda>_. daemons fp_example crypto_example))\<^sup>*\<^sup>* (Map.empty, [example_manager, example_crawler])
     (example_end, ps)" using example_run by blast
  from fold_batch_hash [of "{1..16}" example_start ?k fp_example crypto_example "\<lambda>_. [''null'']" 0 "\<lambda>_. example_doc" "[1..16]" "to_string 1"]
  obtain w where w: "map_of (witness_hash example_end) ?k = Some w" by (auto simp: example_end_def image_constant_conv)
  then have "(?k, w) \<in> set (witness_hash example_end)" by (rule map_of_SomeD)
  with pipeline_witnesses [OF crypto_example_ok _ example_daemons r] have "check_witness fp_example crypto_example w = Inr True"
    by auto
  with r w show ?thesis by blast
qed

theorem pipeline_types_witness:
  "\<exists>s ps. (sys_step (\<lambda>_. daemons fp_example crypto_example))\<^sup>*\<^sup>* (Map.empty, [example_manager, example_crawler]) (s, ps) \<and>
     s (items_key (to_string 1) 16) = Some (KString example_doc) \<and> well_typed s"
proof -
  obtain ps where r: "(sys_step (\<lambda>_. daemons fp_example crypto_example))\<^sup>*\<^sup>* (Map.empty, [example_manager, example_crawler])
     (example_end, ps)" using example_run by blast
  have "well_typed example_end" using pipeline_types [OF crypto_example_ok(1) _ example_daemons r] by simp
  moreover have "example_end (items_key (to_string 1) 16) = Some (KString example_doc)" by (simp add: example_end_def fold_batch_post)
  ultimately show ?thesis using r by blast
qed

end
